(* ===== verification/Nia_Prelude.thy ===== *)
theory Nia_Prelude
  imports Main "HOL-Library.Word"
begin

text \<open>
  Shared vocabulary of the development: Rust's \<^verbatim>\<open>Result\<close> as a sum type, the
  collections of rules the component theories extend, and the facts on lists, options and
  slices that more than one component needs.
\<close>

section \<open>Results\<close>

text \<open>
  \<^verbatim>\<open>Result<T, E>\<close> is \<open>'e + 'a\<close>: \<open>Inl\<close> the error, \<open>Inr\<close> the value. The \<open>?\<close> operator is
  \<open>bind_r\<close>.
\<close>

type_synonym ('a, 'e) rust_result = "'e + 'a"

abbreviation Err :: "'e \<Rightarrow> ('a, 'e) rust_result" where
  "Err \<equiv> Inl"

abbreviation Ok :: "'a \<Rightarrow> ('a, 'e) rust_result" where
  "Ok \<equiv> Inr"

definition bind_r :: "('a, 'e) rust_result \<Rightarrow> ('a \<Rightarrow> ('b, 'e) rust_result) \<Rightarrow> ('b, 'e) rust_result" where
  "bind_r r f = (case r of Inl e \<Rightarrow> Inl e | Inr x \<Rightarrow> f x)"

lemma bind_r_simps [simp]:
  "bind_r (Inl e) f = Inl e"
  "bind_r (Inr x) f = f x"
  by (simp_all add: bind_r_def)

lemma bind_r_eq_Ok [simp]: "bind_r r f = Inr y \<longleftrightarrow> (\<exists>x. r = Inr x \<and> f x = Inr y)"
  by (cases r) auto

lemma bind_r_eq_Err: "bind_r r f = Inl e \<longleftrightarrow> r = Inl e \<or> (\<exists>x. r = Inr x \<and> f x = Inl e)"
  by (cases r) auto

definition ok_or :: "'a option \<Rightarrow> 'e \<Rightarrow> ('a, 'e) rust_result" where
  "ok_or x e = (case x of None \<Rightarrow> Inl e | Some y \<Rightarrow> Inr y)"

lemma ok_or_simps [simp]:
  "ok_or None e = Inl e"
  "ok_or (Some x) e = Inr x"
  by (simp_all add: ok_or_def)

lemma ok_or_eq_Ok [simp]: "ok_or x e = Inr y \<longleftrightarrow> x = Some y"
  by (cases x) auto

lemma ok_or_eq_Err [simp]: "ok_or x e = Inl e' \<longleftrightarrow> x = None \<and> e' = e"
  by (cases x) auto


section \<open>Options\<close>

text \<open>\<^verbatim>\<open>Option::filter\<close>.\<close>

definition filter_opt :: "('a \<Rightarrow> bool) \<Rightarrow> 'a option \<Rightarrow> 'a option" where
  "filter_opt p x = (case x of None \<Rightarrow> None | Some y \<Rightarrow> if p y then Some y else None)"

lemma filter_opt_simps [simp]:
  "filter_opt p None = None"
  "filter_opt p (Some y) = (if p y then Some y else None)"
  by (simp_all add: filter_opt_def)

lemma filter_opt_eq_Some [simp]: "filter_opt p x = Some y \<longleftrightarrow> x = Some y \<and> p y"
  by (cases x) auto

lemma filter_opt_eq_None: "filter_opt p x = None \<longleftrightarrow> (\<forall>y. x = Some y \<longrightarrow> \<not> p y)"
  by (cases x) auto


section \<open>Slices\<close>

text \<open>\<^verbatim>\<open>&xs[i..j]\<close> for \<open>i \<le> j \<le> xs.len()\<close>.\<close>

definition subslice :: "nat \<Rightarrow> nat \<Rightarrow> 'a list \<Rightarrow> 'a list" where
  "subslice i j xs = take (j - i) (drop i xs)"

lemma subslice_empty [simp]: "subslice i i xs = []"
  by (simp add: subslice_def)

lemma length_subslice [simp]: "j \<le> length xs \<Longrightarrow> length (subslice i j xs) = j - i"
  by (simp add: subslice_def)

lemma subslice_append: "i \<le> j \<Longrightarrow> j \<le> k \<Longrightarrow> subslice i j xs @ subslice j k xs = subslice i k xs"
proof -
  assume ij: "i \<le> j" and jk: "j \<le> k"
  have "take (k - i) (drop i xs) = take ((j - i) + (k - j)) (drop i xs)"
    using ij jk by simp
  also have "\<dots> = take (j - i) (drop i xs) @ take (k - j) (drop (j - i) (drop i xs))"
    by (rule take_add)
  finally show ?thesis
    using ij by (simp add: subslice_def)
qed

lemma subslice_all [simp]: "subslice 0 (length xs) xs = xs"
  by (simp add: subslice_def)

lemma subslice_Cons: "i < j \<Longrightarrow> i < length xs \<Longrightarrow> subslice i j xs = xs ! i # subslice (Suc i) j xs"
proof -
  assume "i < j" "i < length xs"
  then have "subslice i j xs = take (j - i) (xs ! i # drop (Suc i) xs)"
    by (simp add: subslice_def Cons_nth_drop_Suc)
  with \<open>i < j\<close> show ?thesis
    by (simp add: subslice_def take_Cons' Suc_diff_Suc)
qed

lemma nth_subslice: "j \<le> length xs \<Longrightarrow> k < j - i \<Longrightarrow> subslice i j xs ! k = xs ! (i + k)"
  by (simp add: subslice_def)


section \<open>Searching and folding\<close>

text \<open>\<^verbatim>\<open>Iterator::find\<close> and \<^verbatim>\<open>collect::<Option<Vec<_>>>()\<close>.\<close>

fun those_opt :: "'a option list \<Rightarrow> 'a list option" where
  "those_opt [] = Some []"
| "those_opt (None # xs) = None"
| "those_opt (Some x # xs) = map_option ((#) x) (those_opt xs)"

lemma those_opt_eq_Some: "those_opt xs = Some ys \<longleftrightarrow> xs = map Some ys"
  by (induction xs arbitrary: ys rule: those_opt.induct) (auto simp: Cons_eq_map_conv)

lemma find_Some_mem: "find p xs = Some x \<Longrightarrow> x \<in> set xs \<and> p x"
  by (auto simp: find_Some_iff)

end
