(* ===== verification/Rust_Str.thy ===== *)
theory Rust_Str
  imports Nia_Prelude
begin

text \<open>
  The part of Rust's \<^verbatim>\<open>str\<close>, \<^verbatim>\<open>char\<close> and \<^verbatim>\<open>u8\<close> API that the lexer and the literal decoders use.
  A byte is a \<open>char\<close> (HOL's \<open>char\<close> has exactly the 256 byte values), a byte slice or a \<^verbatim>\<open>&str\<close> is
  a \<open>string\<close>, and a Unicode scalar value is a \<open>nat\<close> satisfying \<open>is_scalar\<close>. What the type \<^verbatim>\<open>&str\<close>
  guarantees of its bytes is the predicate \<open>valid_utf8\<close>.
\<close>

section \<open>Bytes\<close>

definition byte :: "char \<Rightarrow> nat" where
  "byte c = of_char c"

lemma byte_less_256 [simp]: "byte c < 256"
  by (simp add: byte_def)

lemma byte_char_of [simp]: "byte (char_of n) = n mod 256"
  by (simp add: byte_def)

lemma byte_inject [simp]: "byte c = byte d \<longleftrightarrow> c = d"
  by (simp add: byte_def)

definition in_range :: "char \<Rightarrow> char \<Rightarrow> char \<Rightarrow> bool" where
  "in_range lo hi c \<longleftrightarrow> byte lo \<le> byte c \<and> byte c \<le> byte hi"

definition is_ascii :: "char \<Rightarrow> bool" where
  "is_ascii c \<longleftrightarrow> byte c < 128"

definition is_ascii_digit :: "char \<Rightarrow> bool" where
  "is_ascii_digit c \<longleftrightarrow> in_range (CHR ''0'') (CHR ''9'') c"

definition is_ascii_alphabetic :: "char \<Rightarrow> bool" where
  "is_ascii_alphabetic c \<longleftrightarrow> in_range (CHR ''a'') (CHR ''z'') c \<or> in_range (CHR ''A'') (CHR ''Z'') c"

definition is_ascii_alphanumeric :: "char \<Rightarrow> bool" where
  "is_ascii_alphanumeric c \<longleftrightarrow> is_ascii_alphabetic c \<or> is_ascii_digit c"

definition is_ascii_whitespace :: "char \<Rightarrow> bool" where
  "is_ascii_whitespace c \<longleftrightarrow> c \<in> {CHR '' '', CHR 0x09, CHR 0x0A, CHR 0x0C, CHR 0x0D}"

text \<open>A continuation byte: \<^verbatim>\<open>(byte & 0b1100_0000) == 0b1000_0000\<close>.\<close>

definition is_cont :: "char \<Rightarrow> bool" where
  "is_cont c \<longleftrightarrow> byte c div 64 = 2"

lemma ascii_not_cont: "is_ascii c \<Longrightarrow> \<not> is_cont c"
  by (auto simp: is_ascii_def is_cont_def)


section \<open>Scalar values and UTF-8\<close>

text \<open>\<^verbatim>\<open>char::from_u32(n).is_some()\<close>.\<close>

definition is_scalar :: "nat \<Rightarrow> bool" where
  "is_scalar n \<longleftrightarrow> n < 0xD800 \<or> (0xE000 \<le> n \<and> n < 0x110000)"

definition from_u32 :: "nat \<Rightarrow> nat option" where
  "from_u32 n = (if is_scalar n then Some n else None)"

definition len_utf8 :: "nat \<Rightarrow> nat" where
  "len_utf8 n = (if n < 0x80 then 1 else if n < 0x800 then 2 else if n < 0x10000 then 3 else 4)"

definition encode_utf8 :: "nat \<Rightarrow> string" where
  "encode_utf8 n =
     (if n < 0x80 then [char_of n]
      else if n < 0x800 then [char_of (0xC0 + n div 64), char_of (0x80 + n mod 64)]
      else if n < 0x10000 then
        [char_of (0xE0 + n div 4096), char_of (0x80 + n div 64 mod 64), char_of (0x80 + n mod 64)]
      else
        [char_of (0xF0 + n div 262144), char_of (0x80 + n div 4096 mod 64),
         char_of (0x80 + n div 64 mod 64), char_of (0x80 + n mod 64)])"

definition encode_str :: "nat list \<Rightarrow> string" where
  "encode_str ns = concat (map encode_utf8 ns)"

text \<open>
  \<^verbatim>\<open>str::from_utf8\<close> followed by \<^verbatim>\<open>chars()\<close>: the scalars of a well-formed byte sequence. The leading
  byte gives the width and the high bits; a sequence is well-formed when it is the encoding of a
  scalar value, which excludes overlong forms and surrogates.
\<close>

definition lead :: "char \<Rightarrow> (nat \<times> nat) option" where
  "lead c =
     (if byte c < 0x80 then Some (1, byte c)
      else if byte c < 0xC0 then None
      else if byte c < 0xE0 then Some (2, byte c - 0xC0)
      else if byte c < 0xF0 then Some (3, byte c - 0xE0)
      else if byte c < 0xF8 then Some (4, byte c - 0xF0)
      else None)"

definition cont_value :: "nat \<Rightarrow> string \<Rightarrow> nat" where
  "cont_value hi cs = foldl (\<lambda>acc c. acc * 64 + byte c mod 64) hi cs"

function decode_utf8 :: "string \<Rightarrow> nat list option" where
  "decode_utf8 [] = Some []"
| "decode_utf8 (b # bs) =
     (case lead b of
        None \<Rightarrow> None
      | Some (w, hi) \<Rightarrow>
          (let tail = take (w - 1) bs; n = cont_value hi tail
           in if is_scalar n \<and> encode_utf8 n = b # tail
              then map_option ((#) n) (decode_utf8 (drop (w - 1) bs))
              else None))"
  by pat_completeness auto
termination
  by (relation "measure length") auto

definition valid_utf8 :: "string \<Rightarrow> bool" where
  "valid_utf8 s \<longleftrightarrow> decode_utf8 s \<noteq> None"

text \<open>\<^verbatim>\<open>s.chars()\<close>; the empty list stands for byte sequences that are no \<^verbatim>\<open>&str\<close>.\<close>

definition chars :: "string \<Rightarrow> nat list" where
  "chars s = (case decode_utf8 s of Some ns \<Rightarrow> ns | None \<Rightarrow> [])"


subsection \<open>The encoding of one scalar\<close>

lemma length_encode_utf8 [simp]: "length (encode_utf8 n) = len_utf8 n"
  by (simp add: encode_utf8_def len_utf8_def)

lemma encode_utf8_not_Nil [simp]: "encode_utf8 n \<noteq> []"
  by (simp add: encode_utf8_def)

lemma is_scalar_bound: "is_scalar n \<Longrightarrow> n < 0x110000"
  by (auto simp: is_scalar_def)

lemma div_64_split:
  fixes n :: nat
  shows "n div 4096 * 64 + n div 64 mod 64 = n div 64"
    and "n div 262144 * 64 + n div 4096 mod 64 = n div 4096"
proof -
  have "n div 4096 = n div 64 div 64" "n div 262144 = n div 4096 div 64"
    by (simp_all flip: div_mult2_eq)
  then show "n div 4096 * 64 + n div 64 mod 64 = n div 64"
    and "n div 262144 * 64 + n div 4096 mod 64 = n div 4096"
    by (simp_all only: div_mult_mod_eq)
qed

lemma cont_low_bits: "(128 + m mod 64) mod 64 = m mod (64 :: nat)"
  using mod_mult_self2 [of "m mod 64" 64 2] by (simp add: add.commute)

lemma lead_encode_utf8:
  assumes "is_scalar n"
  shows "\<exists>hi. lead (hd (encode_utf8 n)) = Some (len_utf8 n, hi)
    \<and> cont_value hi (tl (encode_utf8 n)) = n"
proof -
  have n: "n < 0x110000" using assms by (rule is_scalar_bound)
  consider "n < 0x80" | "0x80 \<le> n" "n < 0x800" | "0x800 \<le> n" "n < 0x10000" | "0x10000 \<le> n"
    by linarith
  then show ?thesis
  proof cases
    case 1
    then show ?thesis by (simp add: encode_utf8_def lead_def len_utf8_def cont_value_def cont_low_bits)
  next
    case 2
    have "n div 64 < 32" using 2 by linarith
    then show ?thesis
      using 2 by (simp add: encode_utf8_def lead_def len_utf8_def cont_value_def cont_low_bits)
  next
    case 3
    have "n div 4096 < 16" using 3 by linarith
    moreover have "(n div 4096 * 64 + n div 64 mod 64) * 64 + n mod 64 = n"
      by (simp add: div_64_split)
    ultimately show ?thesis
      using 3 by (simp add: encode_utf8_def lead_def len_utf8_def cont_value_def cont_low_bits)
  next
    case 4
    have "n div 262144 < 8" using 4 n by linarith
    moreover have "((n div 262144 * 64 + n div 4096 mod 64) * 64 + n div 64 mod 64) * 64 + n mod 64 = n"
      by (simp add: div_64_split)
    ultimately show ?thesis
      using 4 by (simp add: encode_utf8_def lead_def len_utf8_def cont_value_def cont_low_bits)
  qed
qed

lemma tl_encode_utf8_cont: "c \<in> set (tl (encode_utf8 n)) \<Longrightarrow> is_cont c"
proof -
  have "(128 + m mod 64) mod 256 div 64 = 2" for m :: nat
  proof -
    have "m mod 64 < 64" by simp
    then show ?thesis by (simp add: div_nat_eqI)
  qed
  then show "c \<in> set (tl (encode_utf8 n)) \<Longrightarrow> is_cont c"
    by (auto simp: encode_utf8_def is_cont_def split: if_splits)
qed

lemma hd_encode_utf8_not_cont:
  assumes "is_scalar n"
  shows "\<not> is_cont (hd (encode_utf8 n))"
proof -
  obtain hi where "lead (hd (encode_utf8 n)) = Some (len_utf8 n, hi)"
    using lead_encode_utf8 [OF assms] by blast
  then show ?thesis
    by (auto simp: lead_def is_cont_def split: if_splits)
qed


subsection \<open>Decoding inverts encoding\<close>

lemma decode_utf8_encode:
  assumes "is_scalar n"
  shows "decode_utf8 (encode_utf8 n @ s) = map_option ((#) n) (decode_utf8 s)"
proof -
  obtain hi where hi: "lead (hd (encode_utf8 n)) = Some (len_utf8 n, hi)"
      "cont_value hi (tl (encode_utf8 n)) = n"
    using lead_encode_utf8 [OF assms] by blast
  obtain b tail where e: "encode_utf8 n = b # tail"
    by (cases "encode_utf8 n") auto
  have len: "len_utf8 n = Suc (length tail)"
    using length_encode_utf8 [of n] by (simp add: e)
  show ?thesis
    using hi assms by (simp add: e len Let_def)
qed

lemma decode_utf8_encode_str [simp]:
  "(\<And>n. n \<in> set ns \<Longrightarrow> is_scalar n) \<Longrightarrow> decode_utf8 (encode_str ns) = Some ns"
  by (induction ns) (auto simp: encode_str_def decode_utf8_encode)

lemma decode_utf8_Some:
  "decode_utf8 s = Some ns \<Longrightarrow> s = encode_str ns \<and> (\<forall>n \<in> set ns. is_scalar n)"
proof (induction s arbitrary: ns rule: decode_utf8.induct)
  case 1
  then show ?case by (simp add: encode_str_def)
next
  case (2 b bs)
  from "2.prems" obtain w hi ms where lead: "lead b = Some (w, hi)"
    and sc: "is_scalar (cont_value hi (take (w - 1) bs))"
    and enc: "encode_utf8 (cont_value hi (take (w - 1) bs)) = b # take (w - 1) bs"
    and rest: "decode_utf8 (drop (w - 1) bs) = Some ms"
    and ns: "ns = cont_value hi (take (w - 1) bs) # ms"
    by (auto simp: Let_def split: option.splits if_splits)
  from "2.IH" [OF lead refl refl refl _ rest] sc enc
  have "drop (w - 1) bs = encode_str ms" and ok: "\<forall>n \<in> set ms. is_scalar n"
    by auto
  then have "encode_str ns = b # take (w - 1) bs @ drop (w - 1) bs"
    using enc by (simp add: encode_str_def ns)
  then have "b # bs = encode_str ns" by (simp only: append_take_drop_id)
  moreover have "\<forall>n \<in> set ns. is_scalar n" using sc ok by (simp add: ns)
  ultimately show ?case by blast
qed

lemma valid_utf8_iff: "valid_utf8 s \<longleftrightarrow> (\<exists>ns. s = encode_str ns \<and> (\<forall>n \<in> set ns. is_scalar n))"
  unfolding valid_utf8_def using decode_utf8_Some decode_utf8_encode_str by fastforce

lemma valid_utf8_cases:
  assumes "valid_utf8 s"
  obtains "s = []" | n s' where "is_scalar n" "s = encode_utf8 n @ s'" "valid_utf8 s'"
proof -
  obtain ns where ns: "s = encode_str ns" "\<forall>n \<in> set ns. is_scalar n"
    using assms by (auto simp: valid_utf8_iff)
  show thesis
  proof (cases ns)
    case Nil
    with ns that(1) show ?thesis by (simp add: encode_str_def)
  next
    case (Cons m ms)
    with ns that(2) [of m "encode_str ms"] show ?thesis
      by (auto simp: encode_str_def valid_utf8_iff)
  qed
qed


subsection \<open>Character boundaries\<close>

text \<open>\<^verbatim>\<open>str::is_char_boundary\<close>: where a \<^verbatim>\<open>&str\<close> may be sliced.\<close>

definition is_boundary :: "string \<Rightarrow> nat \<Rightarrow> bool" where
  "is_boundary s p \<longleftrightarrow> p = length s \<or> (p < length s \<and> \<not> is_cont (s ! p))"

lemma is_boundary_append:
  "length e \<le> p \<Longrightarrow> is_boundary (e @ s) p \<longleftrightarrow> is_boundary s (p - length e)"
  by (auto simp: is_boundary_def nth_append)

lemma is_boundary_0 [simp]: "valid_utf8 s \<Longrightarrow> is_boundary s 0"
proof (erule valid_utf8_cases)
  fix n s' assume "is_scalar n" "s = encode_utf8 n @ s'"
  then show "is_boundary s 0"
    using hd_encode_utf8_not_cont [of n] by (cases "encode_utf8 n") (auto simp: is_boundary_def)
qed (simp add: is_boundary_def)

text \<open>At a boundary of a valid string starts the encoding of one scalar, which ends at the next one.\<close>

lemma boundary_scalar:
  assumes "valid_utf8 s" "is_boundary s p" "p < length s"
  shows "\<exists>n. is_scalar n \<and> s ! p = hd (encode_utf8 n) \<and> subslice p (p + len_utf8 n) s = encode_utf8 n
    \<and> p + len_utf8 n \<le> length s \<and> is_boundary s (p + len_utf8 n)"
  using assms
proof (induction "length s" arbitrary: s p rule: less_induct)
  case less
  from less.prems(1) show ?case
  proof (cases rule: valid_utf8_cases)
    case 1
    with less.prems show ?thesis by simp
  next
    case (2 n s')
    obtain b tail where e: "encode_utf8 n = b # tail" by (cases "encode_utf8 n") auto
    have len: "len_utf8 n = Suc (length tail)" using length_encode_utf8 [of n] by (simp add: e)
    show ?thesis
    proof (cases "p < len_utf8 n")
      case True
      have "p = 0"
      proof (rule ccontr)
        assume "p \<noteq> 0"
        then have "s ! p \<in> set (tl (encode_utf8 n))"
          using True by (cases p) (auto simp: 2 e len nth_append)
        then have "is_cont (s ! p)" by (rule tl_encode_utf8_cont)
        with less.prems show False by (simp add: is_boundary_def)
      qed
      moreover have "is_boundary s (len_utf8 n)"
        using is_boundary_0 [OF \<open>valid_utf8 s'\<close>] by (simp add: 2 is_boundary_append)
      ultimately show ?thesis
        using 2 by (intro exI [of _ n]) (simp add: e len subslice_def)
    next
      case False
      define q where "q = p - len_utf8 n"
      have p: "p = len_utf8 n + q" using False by (simp add: q_def)
      have "is_boundary s' q" "q < length s'" "length s' < length s"
        using less.prems by (simp_all add: 2 p is_boundary_append len)
      from less.hyps [OF this(3) \<open>valid_utf8 s'\<close> this(1,2)] obtain m where
        "is_scalar m" "s' ! q = hd (encode_utf8 m)" "subslice q (q + len_utf8 m) s' = encode_utf8 m"
        "q + len_utf8 m \<le> length s'" "is_boundary s' (q + len_utf8 m)" by blast
      then show ?thesis
        by (intro exI [of _ m]) (auto simp: 2 p is_boundary_append subslice_def nth_append add.assoc)
    qed
  qed
qed

lemma ascii_encode: "is_ascii (hd (encode_utf8 n)) \<Longrightarrow> is_scalar n \<Longrightarrow> len_utf8 n = 1"
  using lead_encode_utf8 [of n] by (auto simp: lead_def is_ascii_def split: if_splits)

lemma boundary_after_ascii:
  assumes "valid_utf8 s" "p < length s" "is_ascii (s ! p)"
  shows "is_boundary s (Suc p)"
proof -
  have "is_boundary s p" using assms by (simp add: is_boundary_def ascii_not_cont)
  with assms obtain n where "is_scalar n" "s ! p = hd (encode_utf8 n)" "is_boundary s (p + len_utf8 n)"
    using boundary_scalar by blast
  moreover have "len_utf8 n = 1" using calculation assms(3) by (simp add: ascii_encode)
  ultimately show ?thesis by simp
qed

text \<open>The equations that evaluate \<open>valid_utf8\<close> and \<open>chars\<close> on a concrete string.\<close>

lemmas utf8_eval =
  valid_utf8_def chars_def lead_def byte_def cont_value_def is_scalar_def encode_utf8_def Let_def
  char_of_eq_iff


section \<open>Digits and radix parsing\<close>

text \<open>\<^verbatim>\<open>char::to_digit(16)\<close> on a scalar value.\<close>

definition to_digit16 :: "nat \<Rightarrow> nat option" where
  "to_digit16 n =
     (if 48 \<le> n \<and> n \<le> 57 then Some (n - 48)
      else if 97 \<le> n \<and> n \<le> 102 then Some (n - 87)
      else if 65 \<le> n \<and> n \<le> 70 then Some (n - 55)
      else None)"

text \<open>
  \<^verbatim>\<open>uN::from_str_radix\<close> for radices up to 16 on the bytes of its argument: an empty text, a byte
  that is no digit of the radix and a value above \<open>2 ^ bits - 1\<close> are errors; one leading \<^verbatim>\<open>+\<close> is
  accepted when digits follow.
\<close>

fun radix_digits :: "nat \<Rightarrow> nat \<Rightarrow> nat \<Rightarrow> string \<Rightarrow> nat option" where
  "radix_digits bits radix acc [] = Some acc"
| "radix_digits bits radix acc (c # cs) =
     (case to_digit16 (byte c) of
        Some d \<Rightarrow>
          if d < radix \<and> acc * radix + d < 2 ^ bits then radix_digits bits radix (acc * radix + d) cs
          else None
      | None \<Rightarrow> None)"

definition from_str_radix :: "nat \<Rightarrow> string \<Rightarrow> nat \<Rightarrow> nat option" where
  "from_str_radix bits text radix =
     (let digits = (case text of c # cs \<Rightarrow> if c = CHR ''+'' then cs else text | [] \<Rightarrow> [])
      in if digits = [] then None else radix_digits bits radix 0 digits)"

text \<open>The value a digit string denotes, without any bound.\<close>

definition radix_value :: "nat \<Rightarrow> string \<Rightarrow> nat" where
  "radix_value radix = foldl (\<lambda>acc c. acc * radix + the (to_digit16 (byte c))) 0"

definition is_digit_of :: "nat \<Rightarrow> char \<Rightarrow> bool" where
  "is_digit_of radix c \<longleftrightarrow> (\<exists>d. to_digit16 (byte c) = Some d \<and> d < radix)"

lemma to_digit16_less: "to_digit16 n = Some d \<Longrightarrow> d < 16"
  by (auto simp: to_digit16_def split: if_splits)

lemma radix_foldl_mono:
  "0 < radix \<Longrightarrow> acc \<le> foldl (\<lambda>acc c. acc * radix + f c) (acc :: nat) cs"
proof (induction cs arbitrary: acc)
  case (Cons c cs)
  have "acc \<le> acc * radix + f c" using Cons.prems by (simp add: trans_le_add1)
  also have "\<dots> \<le> foldl (\<lambda>acc c. acc * radix + f c) (acc * radix + f c) cs"
    using Cons by blast
  finally show ?case by simp
qed simp

lemma radix_digits_eq_Some:
  assumes "0 < radix" "acc < 2 ^ bits"
  shows "radix_digits bits radix acc cs = Some v \<longleftrightarrow>
    (\<forall>c \<in> set cs. is_digit_of radix c)
    \<and> v = foldl (\<lambda>acc c. acc * radix + the (to_digit16 (byte c))) acc cs \<and> v < 2 ^ bits"
  using assms(2)
proof (induction cs arbitrary: acc)
  case (Cons c cs)
  show ?case
  proof (cases "to_digit16 (byte c)")
    case None
    then show ?thesis by (simp add: is_digit_of_def)
  next
    case (Some d)
    let ?v = "foldl (\<lambda>acc c. acc * radix + the (to_digit16 (byte c))) (acc * radix + d) cs"
    have "acc * radix + d \<le> ?v" by (rule radix_foldl_mono [OF assms(1)])
    then have "\<not> acc * radix + d < 2 ^ bits \<Longrightarrow> \<not> ?v < 2 ^ bits" by linarith
    with Some Cons.IH [of "acc * radix + d"] show ?thesis
      by (auto simp: is_digit_of_def)
  qed
qed auto

end
