(* ===== verification/Nia_Lexer.thy ===== *)
theory Nia_Lexer
  imports Rust_Str
begin

text \<open>
  The lexer (\<^verbatim>\<open>crates/nia-lexer\<close>, \<^verbatim>\<open>crates/nia-span\<close>). \<open>token_kind\<close> is the enum \<^verbatim>\<open>TokenKind\<close>; the
  blocks the enum's declaration separates by blank lines (keywords, delimiters and punctuation,
  operators, compound operators) are datatypes of their own. \<open>tokenizer\<close> is the struct
  \<^verbatim>\<open>Tokenizer\<close>, and every method is a function from the state to its result and the new state.
  The \<^verbatim>\<open>while\<close> loops that bump over a class of bytes are calls of \<open>bump_while\<close>. The two drivers,
  \<open>tokenize\<close> and \<open>tokenize_lossless\<close>, are \<^theory_text>\<open>partial_function (option)\<close>: not returning is
  \<open>None\<close>.
\<close>

section \<open>Spans and tokens\<close>

record span =
  span_start :: nat
  span_end :: nat

definition span_new :: "nat \<Rightarrow> nat \<Rightarrow> span" where
  "span_new s e = \<lparr>span_start = s, span_end = e\<rparr>"

definition span_len :: "span \<Rightarrow> nat" where
  "span_len s = span_end s - span_start s"

definition span_is_empty :: "span \<Rightarrow> bool" where
  "span_is_empty s \<longleftrightarrow> span_start s = span_end s"

datatype keyword =
    And | As | Bool | Break | Const | Continue | Defer | Else | Enum | Extern | Extend | KwFalse
  | Fun | For | KwIf | In | Is | KwLet | Loop | Module | Mut | Never | KwNot | Null | Opaque | Or
  | Pub | Root | Return | SelfValue | Struct | SelfType | Static | Super | Match | KwTrue | Trait
  | KwType | Union | Using | Var | Where | While

datatype punct =
    LParen | RParen | LBrace | RBrace | LBracket | RBracket | Comma | Dot | DotDot | DotDotEq
  | Ellipsis | Colon | ColonColon | Semicolon | At | Backslash | Question | Underscore

datatype operator =
    Plus | Minus | Star | Slash | Percent | Amp | Pipe | Caret | Tilde | Bang | EqTok | Lt | Gt
  | LtLt | GtGt

datatype compound =
    PlusEq | MinusEq | StarEq | SlashEq | PercentEq | AmpEq | PipeEq | CaretEq | EqEq | BangEq
  | LtEq | GtEq | LtLtEq | GtGtEq | FatArrow | ThinArrow

datatype lex_error =
    UnexpectedByte char
  | UnterminatedString
  | UnterminatedChar
  | EmptyChar
  | InvalidByteChar
  | InvalidNumber
  | InvalidStringEscape
  | InvalidCharEscape

datatype token_kind =
    Ident | Integer | Float | StringTok | ByteString | CharTok | ByteChar
  | Keyword keyword
  | Punct punct
  | Op operator
  | Compound compound
  | Eof
  | Error lex_error

record token =
  kind :: token_kind
  span :: span

datatype lossless_token_kind = Token token_kind | Whitespace | LineComment

record lossless_token =
  lkind :: lossless_token_kind
  lspan :: span


section \<open>Classification of bytes\<close>

abbreviation dquote :: char where "dquote \<equiv> CHR 0x22"
abbreviation squote :: char where "squote \<equiv> CHR 0x27"
abbreviation backslash :: char where "backslash \<equiv> CHR 0x5C"
abbreviation newline :: char where "newline \<equiv> CHR 0x0A"
abbreviation carriage :: char where "carriage \<equiv> CHR 0x0D"

definition is_ident_continue :: "char \<Rightarrow> bool" where
  "is_ident_continue c \<longleftrightarrow> is_ascii_alphanumeric c \<or> c = CHR ''_''"

definition is_ident_start :: "char \<Rightarrow> bool" where
  "is_ident_start c \<longleftrightarrow> is_ascii_alphabetic c \<or> c = CHR ''_''"

definition digit_value :: "char \<Rightarrow> nat option" where
  "digit_value c =
     (if in_range (CHR ''0'') (CHR ''9'') c then Some (byte c - byte (CHR ''0''))
      else if in_range (CHR ''a'') (CHR ''f'') c then Some (byte c - byte (CHR ''a'') + 10)
      else if in_range (CHR ''A'') (CHR ''F'') c then Some (byte c - byte (CHR ''A'') + 10)
      else None)"

definition utf8_width :: "char \<Rightarrow> nat" where
  "utf8_width c =
     (if byte c \<le> 0x7F then 1
      else if 0xC0 \<le> byte c \<and> byte c \<le> 0xDF then 2
      else if 0xE0 \<le> byte c \<and> byte c \<le> 0xEF then 3
      else if 0xF0 \<le> byte c \<and> byte c \<le> 0xF7 then 4
      else 0)"


section \<open>The tokenizer state\<close>

record tokenizer =
  source :: string
  pos :: nat
  previous_kind :: "token_kind option"

definition tokenizer_new :: "string \<Rightarrow> tokenizer" where
  "tokenizer_new src = \<lparr>source = src, pos = 0, previous_kind = None\<rparr>"

definition byte_at :: "string \<Rightarrow> nat \<Rightarrow> char option" where
  "byte_at s i = (if i < length s then Some (s ! i) else None)"

definition peek :: "tokenizer \<Rightarrow> char option" where
  "peek t = byte_at (source t) (pos t)"

definition peek_next :: "tokenizer \<Rightarrow> char option" where
  "peek_next t = byte_at (source t) (pos t + 1)"

definition bump :: "tokenizer \<Rightarrow> char option \<times> tokenizer" where
  "bump t = (case byte_at (source t) (pos t) of
               None \<Rightarrow> (None, t)
             | Some b \<Rightarrow> (Some b, t\<lparr>pos := pos t + 1\<rparr>))"

text \<open>\<^verbatim>\<open>self.bump();\<close> as a statement.\<close>

definition bumped :: "tokenizer \<Rightarrow> tokenizer" where
  "bumped t = snd (bump t)"

definition eat :: "char \<Rightarrow> tokenizer \<Rightarrow> bool \<times> tokenizer" where
  "eat b t = (if peek t = Some b then (True, bumped t) else (False, t))"

definition mk_token :: "token_kind \<Rightarrow> nat \<Rightarrow> nat \<Rightarrow> token" where
  "mk_token k s e = \<lparr>kind = k, span = span_new s e\<rparr>"

definition mk_lossless_token :: "lossless_token_kind \<Rightarrow> nat \<Rightarrow> nat \<Rightarrow> lossless_token" where
  "mk_lossless_token k s e = \<lparr>lkind = k, lspan = span_new s e\<rparr>"

text \<open>\<^verbatim>\<open>self.token(kind, start, self.pos)\<close>, returned with the state.\<close>

definition ret_token :: "token_kind \<Rightarrow> nat \<Rightarrow> tokenizer \<Rightarrow> token \<times> tokenizer" where
  "ret_token k s t = (mk_token k s (pos t), t)"

definition rest :: "tokenizer \<Rightarrow> nat" where
  "rest t = length (source t) - pos t"

definition peek_is :: "(char \<Rightarrow> bool) \<Rightarrow> tokenizer \<Rightarrow> bool" where
  "peek_is p t = (case peek t of None \<Rightarrow> False | Some b \<Rightarrow> p b)"

lemma bumped_pos: "bumped t = (if pos t < length (source t) then t\<lparr>pos := pos t + 1\<rparr> else t)"
  by (simp add: bumped_def bump_def byte_at_def)

lemma peek_is_less: "peek_is p t \<Longrightarrow> pos t < length (source t)"
  by (auto simp: peek_is_def peek_def byte_at_def split: if_splits)

text \<open>\<^verbatim>\<open>while self.peek().is_some_and(p) { self.bump(); }\<close>\<close>

function bump_while :: "(char \<Rightarrow> bool) \<Rightarrow> tokenizer \<Rightarrow> tokenizer" where
  "bump_while p t = (if peek_is p t then bump_while p (bumped t) else t)"
  by pat_completeness auto
termination
proof (relation "measure (\<lambda>(p, t). rest t)")
  fix p t
  assume "peek_is p t"
  then have "pos t < length (source t)" by (rule peek_is_less)
  then show "((p, bumped t), (p, t)) \<in> measure (\<lambda>(p, t). rest t)"
    by (simp add: bumped_pos rest_def)
qed simp

declare bump_while.simps [simp del]


section \<open>Trivia\<close>

definition consume_whitespace :: "tokenizer \<Rightarrow> tokenizer" where
  "consume_whitespace = bump_while is_ascii_whitespace"

definition consume_line_comment :: "tokenizer \<Rightarrow> tokenizer" where
  "consume_line_comment = bump_while (\<lambda>b. b \<noteq> newline)"

definition at_comment :: "tokenizer \<Rightarrow> bool" where
  "at_comment t \<longleftrightarrow> peek t = Some (CHR ''/'') \<and> peek_next t = Some (CHR ''/'')"

lemma bump_while_decreases: "peek_is p t \<Longrightarrow> rest (bump_while p t) < rest t"
proof (induction p t rule: bump_while.induct)
  case (1 p t)
  have less: "pos t < length (source t)" using "1.prems" by (rule peek_is_less)
  have step: "bump_while p t = bump_while p (bumped t)"
    using "1.prems" by (simp add: bump_while.simps [of p t])
  show ?case
  proof (cases "peek_is p (bumped t)")
    case True
    with "1.IH" "1.prems" have "rest (bump_while p (bumped t)) < rest (bumped t)" by blast
    with less step show ?thesis by (simp add: bumped_pos rest_def)
  next
    case False
    then have "bump_while p (bumped t) = bumped t" by (simp add: bump_while.simps [of p "bumped t"])
    with less step show ?thesis by (simp add: bumped_pos rest_def)
  qed
qed

lemma at_comment_peek_is: "at_comment t \<Longrightarrow> peek_is (\<lambda>b. b \<noteq> newline) t"
  by (simp add: at_comment_def peek_is_def)

function skip_trivia :: "tokenizer \<Rightarrow> tokenizer" where
  "skip_trivia t =
     (if peek_is is_ascii_whitespace t then skip_trivia (consume_whitespace t)
      else if at_comment t then skip_trivia (consume_line_comment t)
      else t)"
  by pat_completeness auto
termination
  by (relation "measure rest")
    (auto simp: consume_whitespace_def consume_line_comment_def
       intro: bump_while_decreases at_comment_peek_is)

declare skip_trivia.simps [simp del]


section \<open>Numbers\<close>

definition digit_below :: "nat \<Rightarrow> char \<Rightarrow> bool" where
  "digit_below radix c \<longleftrightarrow> (case digit_value c of None \<Rightarrow> False | Some v \<Rightarrow> v < radix)"

function consume_digits_loop ::
  "nat \<Rightarrow> bool \<Rightarrow> nat \<Rightarrow> bool \<Rightarrow> tokenizer \<Rightarrow> (nat \<times> bool) \<times> tokenizer" where
  "consume_digits_loop radix previous_was_digit digits invalid t =
     (case peek t of
        None \<Rightarrow> ((digits, invalid), t)
      | Some b \<Rightarrow>
          if b = CHR ''_'' then
            let next_is_digit = (case peek_next t of None \<Rightarrow> False | Some c \<Rightarrow> digit_below radix c)
            in consume_digits_loop radix False digits
                 (invalid \<or> \<not> previous_was_digit \<or> \<not> next_is_digit) (bumped t)
          else if digit_below radix b then
            consume_digits_loop radix True (digits + 1) invalid (bumped t)
          else if radix \<noteq> 10 \<and> digit_value b \<noteq> None then
            consume_digits_loop radix False digits True (bumped t)
          else ((digits, invalid), t))"
  by pat_completeness auto
termination
  by (relation "measure (\<lambda>(_, _, _, _, t). rest t)")
    (auto simp: peek_def byte_at_def bumped_pos rest_def split: if_splits)

declare consume_digits_loop.simps [simp del]

definition consume_digits :: "nat \<Rightarrow> bool \<Rightarrow> tokenizer \<Rightarrow> (nat \<times> bool) \<times> tokenizer" where
  "consume_digits radix previous_was_digit t = consume_digits_loop radix previous_was_digit 0 False t"

definition consume_numeric_suffix :: "tokenizer \<Rightarrow> tokenizer" where
  "consume_numeric_suffix t =
     (if \<not> peek_is is_ident_start t then t else bump_while is_ident_continue (bumped t))"

definition try_scan_exponent :: "tokenizer \<Rightarrow> bool option \<times> tokenizer" where
  "try_scan_exponent t =
     (if \<not> peek_is (\<lambda>b. b \<in> {CHR ''e'', CHR ''E''}) t then (None, t)
      else
        let t1 = bumped t;
            t2 = (if peek_is (\<lambda>b. b \<in> {CHR ''+'', CHR ''-''}) t1 then bumped t1 else t1)
        in case consume_digits 10 False t2 of
             ((digits, invalid), t3) \<Rightarrow> (Some (digits > 0 \<and> \<not> invalid), t3))"

definition radix_number :: "nat \<Rightarrow> nat \<Rightarrow> tokenizer \<Rightarrow> token \<times> tokenizer" where
  "radix_number start radix t =
     (case consume_digits radix False t of
        ((digits, invalid), t1) \<Rightarrow>
          ret_token (if digits = 0 \<or> invalid then Error InvalidNumber else Integer) start
            (consume_numeric_suffix t1))"

definition number_radix :: "nat \<Rightarrow> tokenizer \<Rightarrow> nat option" where
  "number_radix start t =
     (if byte_at (source t) start = Some (CHR ''0'') then
        if peek_is (\<lambda>b. b \<in> {CHR ''x'', CHR ''X''}) t then Some 16
        else if peek_is (\<lambda>b. b \<in> {CHR ''b'', CHR ''B''}) t then Some 2
        else if peek_is (\<lambda>b. b \<in> {CHR ''o'', CHR ''O''}) t then Some 8
        else None
      else None)"

definition number :: "nat \<Rightarrow> tokenizer \<Rightarrow> token \<times> tokenizer" where
  "number start t =
     (case number_radix start t of
        Some radix \<Rightarrow> radix_number start radix (bumped t)
      | None \<Rightarrow>
          (case consume_digits 10 True t of
             ((_, invalid), t1) \<Rightarrow>
               if previous_kind t1 \<noteq> Some (Punct Dot) \<and> peek t1 = Some (CHR ''.'')
                  \<and> (case peek_next t1 of None \<Rightarrow> False | Some b \<Rightarrow> is_ascii_digit b)
               then
                 (case consume_digits 10 False (bumped t1) of
                    ((_, invalid2), t2) \<Rightarrow>
                      (case try_scan_exponent t2 of
                         (exponent_valid, t3) \<Rightarrow>
                           if invalid \<or> invalid2 \<or> exponent_valid = Some False
                           then ret_token (Error InvalidNumber) start (consume_numeric_suffix t3)
                           else ret_token Float start (consume_numeric_suffix t3)))
               else
                 (case try_scan_exponent t1 of
                    (Some valid, t2) \<Rightarrow>
                      if invalid \<or> \<not> valid
                      then ret_token (Error InvalidNumber) start (consume_numeric_suffix t2)
                      else ret_token Float start (consume_numeric_suffix t2)
                  | (None, t2) \<Rightarrow>
                      ret_token (if invalid then Error InvalidNumber else Integer) start
                        (consume_numeric_suffix t2))))"


section \<open>Escapes and character literals\<close>

record char_value =
  cv_value :: nat
  byte_len :: nat

definition one_byte :: "nat \<Rightarrow> char_value" where
  "one_byte v = \<lparr>cv_value = v, byte_len = 1\<rparr>"

datatype char_scan = Value char_value | Empty | Unterminated | InvalidEscape

text \<open>\<^verbatim>\<open>for _ in 0..count\<close> of \<open>consume_exact_hex_digits\<close>: whether every digit was there.\<close>

fun hex_digits_loop :: "nat \<Rightarrow> tokenizer \<Rightarrow> bool \<times> tokenizer" where
  "hex_digits_loop 0 t = (True, t)"
| "hex_digits_loop (Suc n) t =
     (case peek t of
        None \<Rightarrow> (False, t)
      | Some b \<Rightarrow> if digit_below 16 b then hex_digits_loop n (bumped t) else (False, t))"

definition consume_exact_hex_digits :: "nat \<Rightarrow> tokenizer \<Rightarrow> nat option \<times> tokenizer" where
  "consume_exact_hex_digits count t =
     (case hex_digits_loop count t of
        (False, t1) \<Rightarrow> (None, t1)
      | (True, t1) \<Rightarrow> (from_str_radix 32 (subslice (pos t) (pos t1) (source t)) 16, t1))"

definition scan_unicode_escape :: "tokenizer \<Rightarrow> char_value option \<times> tokenizer" where
  "scan_unicode_escape t =
     (case bump t of
        (b, t1) \<Rightarrow>
          if b \<noteq> Some (CHR 0x7B) then (None, t1)
          else
            let t2 = bump_while (\<lambda>b. digit_value b \<noteq> None) t1; digits = pos t2 - pos t1
            in if digits = 0 \<or> digits > 6 then (None, t2)
               else
                 (case bump t2 of
                    (b, t3) \<Rightarrow>
                      if b \<noteq> Some (CHR 0x7D) then (None, t3)
                      else
                        (case Option.bind (from_str_radix 32 (subslice (pos t1) (pos t3 - 1) (source t)) 16)
                                from_u32 of
                           None \<Rightarrow> (None, t3)
                         | Some v \<Rightarrow> (Some \<lparr>cv_value = v, byte_len = len_utf8 v\<rparr>, t3))))"

text \<open>The outer \<open>None\<close> is the end of the input, the inner \<open>None\<close> an invalid escape.\<close>

definition scan_escape :: "tokenizer \<Rightarrow> char_value option option \<times> tokenizer" where
  "scan_escape t =
     (case bump t of
        (None, t1) \<Rightarrow> (None, t1)
      | (Some escaped, t1) \<Rightarrow>
          if escaped = CHR ''n'' then (Some (Some (one_byte 10)), t1)
          else if escaped = CHR ''r'' then (Some (Some (one_byte 13)), t1)
          else if escaped = CHR ''t'' then (Some (Some (one_byte 9)), t1)
          else if escaped = backslash then (Some (Some (one_byte 92)), t1)
          else if escaped = squote then (Some (Some (one_byte 39)), t1)
          else if escaped = dquote then (Some (Some (one_byte 34)), t1)
          else if escaped = CHR ''0'' then (Some (Some (one_byte 0)), t1)
          else if escaped = CHR ''x'' then
            (case consume_exact_hex_digits 2 t1 of (v, t2) \<Rightarrow> (Some (map_option one_byte v), t2))
          else if escaped = CHR ''u'' then
            (case scan_unicode_escape t1 of (v, t2) \<Rightarrow> (Some v, t2))
          else (Some None, t1))"

text \<open>\<^verbatim>\<open>for _ in 1..width\<close> of \<open>scan_utf8_codepoint\<close>: \<open>None\<close> when every byte continues.\<close>

fun cont_bytes_loop :: "nat \<Rightarrow> tokenizer \<Rightarrow> char_scan option \<times> tokenizer" where
  "cont_bytes_loop 0 t = (None, t)"
| "cont_bytes_loop (Suc n) t =
     (case bump t of
        (None, t1) \<Rightarrow> (Some Unterminated, t1)
      | (Some b, t1) \<Rightarrow>
          if \<not> is_cont b then (Some InvalidEscape, t1) else cont_bytes_loop n t1)"

definition scan_utf8_codepoint :: "tokenizer \<Rightarrow> char_scan \<times> tokenizer" where
  "scan_utf8_codepoint t =
     (case bump t of
        (None, t1) \<Rightarrow> (Unterminated, t1)
      | (Some first, t1) \<Rightarrow>
          let width = utf8_width first
          in if width = 0 \<or> pos t1 + (width - 1) > length (source t1) then (InvalidEscape, t1)
             else
               (case cont_bytes_loop (width - 1) t1 of
                  (Some r, t2) \<Rightarrow> (r, t2)
                | (None, t2) \<Rightarrow>
                    (case decode_utf8 (subslice (pos t) (pos t2) (source t)) of
                       Some [ch] \<Rightarrow> (Value \<lparr>cv_value = ch, byte_len = width\<rparr>, t2)
                     | _ \<Rightarrow> (InvalidEscape, t2))))"

definition scan_char_value :: "tokenizer \<Rightarrow> char_scan \<times> tokenizer" where
  "scan_char_value t =
     (case peek t of
        None \<Rightarrow> (Unterminated, t)
      | Some first \<Rightarrow>
          if first = squote then (Empty, t)
          else if first = newline \<or> first = carriage then (Unterminated, t)
          else if first = backslash then
            (case scan_escape (bumped t) of
               (Some (Some v), t1) \<Rightarrow> (Value v, t1)
             | (Some None, t1) \<Rightarrow> (InvalidEscape, t1)
             | (None, t1) \<Rightarrow> (Unterminated, t1))
          else scan_utf8_codepoint t)"

definition recover_char_literal :: "tokenizer \<Rightarrow> tokenizer" where
  "recover_char_literal t =
     (let t1 = bump_while (\<lambda>b. b \<noteq> squote \<and> b \<noteq> newline \<and> b \<noteq> carriage) t
      in if peek t1 = Some squote then bumped t1 else t1)"

definition char_lit :: "nat \<Rightarrow> bool \<Rightarrow> tokenizer \<Rightarrow> token \<times> tokenizer" where
  "char_lit start is_byte t =
     (case scan_char_value t of
        (Empty, t1) \<Rightarrow> ret_token (Error EmptyChar) start (bumped t1)
      | (Unterminated, t1) \<Rightarrow> ret_token (Error UnterminatedChar) start t1
      | (InvalidEscape, t1) \<Rightarrow> ret_token (Error InvalidCharEscape) start (recover_char_literal t1)
      | (Value v, t1) \<Rightarrow>
          (case bump t1 of
             (b, t2) \<Rightarrow>
               if b \<noteq> Some squote then
                 ret_token (Error UnterminatedChar) start (recover_char_literal t2)
               else
                 ret_token
                   (if is_byte then
                      if byte_len v \<noteq> 1 \<or> cv_value v > 255 then Error InvalidByteChar else ByteChar
                    else if from_u32 (cv_value v) \<noteq> None then CharTok
                    else Error InvalidCharEscape)
                   start t2))"


section \<open>Progress of the scanning functions\<close>

text \<open>
  Every method keeps the source and the previous token and moves the position forwards, never
  past the end of the source.
\<close>

definition adv :: "tokenizer \<Rightarrow> tokenizer \<Rightarrow> bool" where
  "adv t t' \<longleftrightarrow> source t' = source t \<and> previous_kind t' = previous_kind t \<and> pos t \<le> pos t'
     \<and> pos t' \<le> max (pos t) (length (source t))"

named_theorems adv_intros \<open>methods of the tokenizer that advance the position\<close>

lemma adv_refl [adv_intros]: "adv t t"
  by (simp add: adv_def)

lemma adv_trans: "adv t u \<Longrightarrow> adv u v \<Longrightarrow> adv t v"
  by (auto simp: adv_def max_def split: if_splits)

lemma adv_bumped [adv_intros]: "adv t (bumped t)"
  by (simp add: adv_def bumped_pos)

lemma adv_bump: "bump t = (b, t') \<Longrightarrow> adv t t'"
  using adv_bumped [of t] by (simp add: bumped_def)

lemma adv_bump_while [adv_intros]: "adv t (bump_while p t)"
proof (induction p t rule: bump_while.induct)
  case (1 p t)
  show ?case
  proof (cases "peek_is p t")
    case True
    with "1.IH" have "adv (bumped t) (bump_while p (bumped t))" by blast
    with adv_bumped have "adv t (bump_while p (bumped t))" by (rule adv_trans)
    with True show ?thesis by (simp add: bump_while.simps [of p t])
  next
    case False
    then show ?thesis by (simp add: bump_while.simps [of p t] adv_refl)
  qed
qed

lemma adv_bump_while_dest: "adv (bump_while p t) u \<Longrightarrow> adv t u"
  by (rule adv_trans [OF adv_bump_while])

lemma adv_hex_digits_loop: "hex_digits_loop n t = (r, t') \<Longrightarrow> adv t t'"
proof (induction n arbitrary: t)
  case 0
  then show ?case by (simp add: adv_refl)
next
  case (Suc n)
  then show ?case
    by (auto simp: adv_refl split: option.splits if_splits intro: adv_trans [OF adv_bumped])
qed

lemma adv_consume_exact_hex_digits: "consume_exact_hex_digits n t = (r, t') \<Longrightarrow> adv t t'"
  by (auto simp: consume_exact_hex_digits_def split: prod.splits bool.splits dest: adv_hex_digits_loop)

lemma adv_scan_unicode_escape: "scan_unicode_escape t = (r, t') \<Longrightarrow> adv t t'"
  by (auto simp: scan_unicode_escape_def Let_def split: prod.splits if_splits option.splits
       dest!: adv_bump adv_bump_while_dest intro: adv_trans adv_bump_while)

lemma adv_scan_escape: "scan_escape t = (r, t') \<Longrightarrow> adv t t'"
  by (auto simp: scan_escape_def split: prod.splits if_splits option.splits
       dest!: adv_bump adv_consume_exact_hex_digits adv_scan_unicode_escape intro: adv_trans)


section \<open>Strings\<close>

function string_loop :: "nat \<Rightarrow> token_kind \<Rightarrow> bool \<Rightarrow> tokenizer \<Rightarrow> token \<times> tokenizer" where
  "string_loop start success_kind invalid_escape t =
     (case peek t of
        None \<Rightarrow> ret_token (Error UnterminatedString) start t
      | Some b \<Rightarrow>
          if b = dquote then
            ret_token (if invalid_escape then Error InvalidStringEscape else success_kind) start (bumped t)
          else if b = newline \<or> b = carriage then ret_token (Error UnterminatedString) start t
          else if b = backslash then
            (case scan_escape (bumped t) of
               (r, t1) \<Rightarrow>
                 string_loop start success_kind (invalid_escape \<or> Option.bind r id = None) t1)
          else string_loop start success_kind invalid_escape (bumped t))"
  by pat_completeness auto
termination
proof (relation "measure (\<lambda>(_, _, _, t). rest t)", goal_cases)
  case 1
  show ?case by simp
next
  case (2 start k bad t b r t1)
  have "adv (bumped t) t1" using sym [OF "2"(5)] by (rule adv_scan_escape)
  moreover have "pos t < length (source t)" using "2"(1) by (auto simp: peek_def byte_at_def split: if_splits)
  ultimately show ?case by (auto simp: adv_def bumped_pos rest_def)
next
  case (3 start k bad t b)
  then show ?case by (auto simp: peek_def byte_at_def bumped_pos rest_def split: if_splits)
qed

declare string_loop.simps [simp del]

definition string_lit :: "nat \<Rightarrow> token_kind \<Rightarrow> tokenizer \<Rightarrow> token \<times> tokenizer" where
  "string_lit start success_kind t = string_loop start success_kind False t"


section \<open>Identifiers, keywords and operators\<close>

definition keyword_kind :: "string \<Rightarrow> token_kind" where
  "keyword_kind text =
     (case map_of
        [(''and'', And), (''as'', As), (''bool'', Bool), (''break'', Break), (''const'', Const),
         (''continue'', Continue), (''defer'', Defer), (''else'', Else), (''enum'', Enum),
         (''extern'', Extern), (''extend'', Extend), (''false'', KwFalse), (''fun'', Fun),
         (''for'', For), (''if'', KwIf), (''in'', In), (''is'', Is), (''let'', KwLet),
         (''loop'', Loop), (''module'', Module), (''mut'', Mut), (''never'', Never),
         (''not'', KwNot), (''null'', Null), (''opaque'', Opaque), (''or'', Or), (''root'', Root),
         (''pub'', Pub), (''return'', Return), (''self'', SelfValue), (''Self'', SelfType),
         (''static'', Static), (''struct'', Struct), (''super'', Super), (''match'', Match),
         (''trait'', Trait), (''true'', KwTrue), (''type'', KwType), (''union'', Union),
         (''using'', Using), (''where'', Where), (''while'', While)] text of
        Some k \<Rightarrow> Keyword k
      | None \<Rightarrow> Ident)"

definition ident_or_keyword :: "nat \<Rightarrow> tokenizer \<Rightarrow> token \<times> tokenizer" where
  "ident_or_keyword start t =
     (let t1 = bump_while is_ident_continue t
      in ret_token (keyword_kind (subslice start (pos t1) (source t1))) start t1)"

definition maybe_eq :: "nat \<Rightarrow> token_kind \<Rightarrow> token_kind \<Rightarrow> tokenizer \<Rightarrow> token \<times> tokenizer" where
  "maybe_eq start plain eqk t =
     (case eat (CHR ''='') t of
        (True, t1) \<Rightarrow> ret_token eqk start t1
      | (False, t1) \<Rightarrow> ret_token plain start t1)"

text \<open>\<^verbatim>\<open>if self.eat(b) { yes } else { no }\<close>\<close>

definition if_eat ::
  "char \<Rightarrow> tokenizer \<Rightarrow> (tokenizer \<Rightarrow> 'a) \<Rightarrow> (tokenizer \<Rightarrow> 'a) \<Rightarrow> 'a" where
  "if_eat b t yes no = (case eat b t of (True, t1) \<Rightarrow> yes t1 | (False, t1) \<Rightarrow> no t1)"

definition scan_dot :: "nat \<Rightarrow> tokenizer \<Rightarrow> token \<times> tokenizer" where
  "scan_dot start t =
     (if peek t = Some (CHR ''.'') \<and> peek_next t = Some (CHR ''.'')
      then ret_token (Punct Ellipsis) start (bumped (bumped t))
      else if_eat (CHR ''.'') t
             (\<lambda>t. if_eat (CHR ''='') t (ret_token (Punct DotDotEq) start) (ret_token (Punct DotDot) start))
             (ret_token (Punct Dot) start))"

definition scan_byte :: "nat \<Rightarrow> char \<Rightarrow> tokenizer \<Rightarrow> token \<times> tokenizer" where
  "scan_byte start b t =
     (if b = CHR ''b'' \<and> peek t = Some dquote then string_lit start ByteString (bumped t)
      else if b = CHR ''b'' \<and> peek t = Some squote then char_lit start True (bumped t)
      else if in_range (CHR ''a'') (CHR ''z'') b \<or> in_range (CHR ''A'') (CHR ''Z'') b then
        ident_or_keyword start t
      else if b = CHR ''_'' then
        if peek_is is_ident_continue t then ident_or_keyword start t
        else ret_token (Punct Underscore) start t
      else if in_range (CHR ''0'') (CHR ''9'') b then number start t
      else if b = dquote then string_lit start StringTok t
      else if b = backslash then ret_token (Punct Backslash) start t
      else if b = squote then char_lit start False t
      else if b = CHR ''('' then ret_token (Punct LParen) start t
      else if b = CHR '')'' then ret_token (Punct RParen) start t
      else if b = CHR 0x7B then ret_token (Punct LBrace) start t
      else if b = CHR 0x7D then ret_token (Punct RBrace) start t
      else if b = CHR ''['' then ret_token (Punct LBracket) start t
      else if b = CHR '']'' then ret_token (Punct RBracket) start t
      else if b = CHR '','' then ret_token (Punct Comma) start t
      else if b = CHR ''.'' then scan_dot start t
      else if b = CHR '';'' then ret_token (Punct Semicolon) start t
      else if b = CHR 0x40 then ret_token (Punct At) start t
      else if b = CHR ''?'' then ret_token (Punct Question) start t
      else if b = CHR '':'' then
        if_eat (CHR '':'') t (ret_token (Punct ColonColon) start) (ret_token (Punct Colon) start)
      else if b = CHR ''+'' then maybe_eq start (Op Plus) (Compound PlusEq) t
      else if b = CHR ''-'' then
        if_eat (CHR ''>'') t (ret_token (Compound ThinArrow) start)
          (maybe_eq start (Op Minus) (Compound MinusEq))
      else if b = CHR ''*'' then maybe_eq start (Op Star) (Compound StarEq) t
      else if b = CHR ''/'' then maybe_eq start (Op Slash) (Compound SlashEq) t
      else if b = CHR ''%'' then maybe_eq start (Op Percent) (Compound PercentEq) t
      else if b = CHR 0x5E then maybe_eq start (Op Caret) (Compound CaretEq) t
      else if b = CHR 0x7E then ret_token (Op Tilde) start t
      else if b = CHR ''!'' then maybe_eq start (Op Bang) (Compound BangEq) t
      else if b = CHR ''='' then
        if_eat (CHR ''='') t (ret_token (Compound EqEq) start)
          (\<lambda>t. if_eat (CHR ''>'') t (ret_token (Compound FatArrow) start) (ret_token (Op EqTok) start))
      else if b = CHR ''<'' then
        if_eat (CHR ''<'') t (maybe_eq start (Op LtLt) (Compound LtLtEq))
          (\<lambda>t. if_eat (CHR ''='') t (ret_token (Compound LtEq) start) (ret_token (Op Lt) start))
      else if b = CHR ''>'' then
        if_eat (CHR ''>'') t (maybe_eq start (Op GtGt) (Compound GtGtEq))
          (\<lambda>t. if_eat (CHR ''='') t (ret_token (Compound GtEq) start) (ret_token (Op Gt) start))
      else if b = CHR 0x26 then
        if_eat (CHR ''='') t (ret_token (Compound AmpEq) start) (ret_token (Op Amp) start)
      else if b = CHR ''|'' then
        if_eat (CHR ''='') t (ret_token (Compound PipeEq) start) (ret_token (Op Pipe) start)
      else
        ret_token (Error (UnexpectedByte b)) start
          (if \<not> is_ascii b then t\<lparr>pos := start + utf8_width b\<rparr> else t))"

definition scan_token :: "tokenizer \<Rightarrow> token \<times> tokenizer" where
  "scan_token t =
     (case bump t of
        (None, t1) \<Rightarrow> (mk_token Eof (pos t) (pos t), t1)
      | (Some b, t1) \<Rightarrow> scan_byte (pos t) b t1)"

definition next_token :: "tokenizer \<Rightarrow> token \<times> tokenizer" where
  "next_token t = (case scan_token t of (tok, t1) \<Rightarrow> (tok, t1\<lparr>previous_kind := Some (kind tok)\<rparr>))"

definition next_lossless_token :: "tokenizer \<Rightarrow> lossless_token \<times> tokenizer" where
  "next_lossless_token t =
     (case peek t of
        None \<Rightarrow> (mk_lossless_token (Token Eof) (pos t) (pos t), t)
      | Some b \<Rightarrow>
          if is_ascii_whitespace b then
            let t1 = consume_whitespace t in (mk_lossless_token Whitespace (pos t) (pos t1), t1)
          else if b = CHR ''/'' \<and> peek_next t = Some (CHR ''/'') then
            let t1 = consume_line_comment t in (mk_lossless_token LineComment (pos t) (pos t1), t1)
          else
            (case next_token t of
               (tok, t1) \<Rightarrow> (\<lparr>lkind = Token (kind tok), lspan = span tok\<rparr>, t1)))"


section \<open>The two drivers\<close>

partial_function (option) tokenize_loop :: "token list \<Rightarrow> tokenizer \<Rightarrow> token list option" where
  "tokenize_loop tokens t =
     (case next_token (skip_trivia t) of
        (tok, t1) \<Rightarrow>
          if kind tok = Eof then Some (tokens @ [tok])
          else tokenize_loop (tokens @ [tok]) t1)"

declare tokenize_loop.simps [code]

definition tokenize :: "string \<Rightarrow> token list option" where
  "tokenize src = tokenize_loop [] (tokenizer_new src)"

partial_function (option) tokenize_lossless_loop ::
  "lossless_token list \<Rightarrow> tokenizer \<Rightarrow> lossless_token list option" where
  "tokenize_lossless_loop tokens t =
     (case next_lossless_token t of
        (tok, t1) \<Rightarrow>
          if lkind tok = Token Eof then Some (tokens @ [tok])
          else tokenize_lossless_loop (tokens @ [tok]) t1)"

declare tokenize_lossless_loop.simps [code]

definition tokenize_lossless :: "string \<Rightarrow> lossless_token list option" where
  "tokenize_lossless src = tokenize_lossless_loop [] (tokenizer_new src)"



section \<open>What every method of the tokenizer returns\<close>

text \<open>
  A position is landed when the byte before it or the byte at it is ASCII, or the input ends
  there; in a valid string such a position is a character boundary.
\<close>

definition landed :: "string \<Rightarrow> nat \<Rightarrow> bool" where
  "landed s p \<longleftrightarrow> length s \<le> p \<or> is_ascii (s ! p) \<or> (0 < p \<and> is_ascii (s ! (p - 1)))"

abbreviation lands :: "tokenizer \<Rightarrow> bool" where
  "lands t \<equiv> landed (source t) (pos t)"

lemma landed_boundary: "valid_utf8 s \<Longrightarrow> p \<le> length s \<Longrightarrow> landed s p \<Longrightarrow> is_boundary s p"
  using boundary_after_ascii [of s "p - 1"]
  by (cases p) (auto simp: landed_def is_boundary_def ascii_not_cont)

text \<open>
  \<open>emits start t r\<close>: the result \<open>r\<close> of a method called at \<open>t\<close> is a token that spans from \<open>start\<close> to
  the new position, is no end-of-file token, and leaves the tokenizer landed.
\<close>

definition emits :: "nat \<Rightarrow> tokenizer \<Rightarrow> token \<times> tokenizer \<Rightarrow> bool" where
  "emits start t r \<longleftrightarrow> (\<exists>k t'. r = ret_token k start t' \<and> k \<noteq> Eof \<and> adv t t' \<and> lands t')"

lemma emitsI: "k \<noteq> Eof \<Longrightarrow> adv t t' \<Longrightarrow> lands t' \<Longrightarrow> emits start t (ret_token k start t')"
  by (auto simp: emits_def)

lemma emits_here: "k \<noteq> Eof \<Longrightarrow> lands t \<Longrightarrow> emits start t (ret_token k start t)"
  by (rule emitsI) (simp_all add: adv_refl)

lemma emits_trans: "adv t u \<Longrightarrow> emits start u r \<Longrightarrow> emits start t r"
  unfolding emits_def using adv_trans by blast

subsection \<open>Landing\<close>

lemma lands_bumped: "peek_is is_ascii t \<Longrightarrow> lands (bumped t)"
  by (auto simp: landed_def bumped_pos peek_is_def peek_def byte_at_def split: if_splits)

lemma peek_is_mono: "peek_is p t \<Longrightarrow> (\<And>b. p b \<Longrightarrow> q b) \<Longrightarrow> peek_is q t"
  by (auto simp: peek_is_def split: option.splits)

lemma lands_bump_while: "(\<And>b. p b \<Longrightarrow> is_ascii b) \<Longrightarrow> lands t \<Longrightarrow> lands (bump_while p t)"
proof (induction p t rule: bump_while.induct)
  case (1 p t)
  show ?case
  proof (cases "peek_is p t")
    case True
    with "1.prems" have "lands (bumped t)" by (blast intro: lands_bumped peek_is_mono)
    with "1.IH" [OF True "1.prems"(1)] True show ?thesis by (simp add: bump_while.simps [of p t])
  next
    case False
    with "1.prems" show ?thesis by (simp add: bump_while.simps [of p t])
  qed
qed

lemma bump_while_stop: "\<not> peek_is p (bump_while p t)"
proof (induction p t rule: bump_while.induct)
  case (1 p t)
  then show ?case by (cases "peek_is p t") (simp_all add: bump_while.simps [of p t])
qed

lemma lands_stop: "\<not> peek_is p t \<Longrightarrow> (\<And>b. \<not> p b \<Longrightarrow> is_ascii b) \<Longrightarrow> lands t"
  by (auto simp: landed_def peek_is_def peek_def byte_at_def split: if_splits)

lemma ascii_literals [simp]:
  "is_ascii newline" "is_ascii carriage" "is_ascii squote" "is_ascii dquote" "is_ascii backslash"
  "is_ascii (CHR ''.'')" "is_ascii (CHR ''='')"
  by (simp_all add: is_ascii_def byte_def)

lemma ascii_classes:
  "is_ident_continue b \<Longrightarrow> is_ascii b"
  "is_ident_start b \<Longrightarrow> is_ascii b"
  "is_ascii_whitespace b \<Longrightarrow> is_ascii b"
  "digit_value b \<noteq> None \<Longrightarrow> is_ascii b"
  "digit_below r b \<Longrightarrow> is_ascii b"
  by (auto simp: is_ident_continue_def is_ident_start_def is_ascii_alphanumeric_def
      is_ascii_alphabetic_def is_ascii_digit_def is_ascii_whitespace_def in_range_def is_ascii_def
      digit_value_def digit_below_def byte_def split: if_splits option.splits)

lemma peek_Some_is: "peek t = Some b \<Longrightarrow> p b \<Longrightarrow> peek_is p t"
  by (simp add: peek_is_def)


lemma lands_end: "peek t = None \<Longrightarrow> lands t"
  by (auto simp: landed_def peek_def byte_at_def split: if_splits)

lemma lands_peek: "peek t = Some b \<Longrightarrow> is_ascii b \<Longrightarrow> lands t"
  by (auto simp: landed_def peek_def byte_at_def split: if_splits)

lemma lands_bumped_peek: "peek t = Some b \<Longrightarrow> is_ascii b \<Longrightarrow> lands (bumped t)"
  by (rule lands_bumped) (rule peek_Some_is)

lemma bump_peek: "bump t = (peek t, bumped t)"
  by (simp add: bump_def bumped_def peek_def split: option.splits)

subsection \<open>Strings\<close>

lemma emits_string_loop: "k \<noteq> Eof \<Longrightarrow> emits start t (string_loop start k bad t)"
proof (induction start k bad t rule: string_loop.induct)
  case (1 start k bad t)
  show ?case
  proof (cases "peek t")
    case None
    then show ?thesis
      by (simp add: string_loop.simps [of start k bad t] emits_here lands_end)
  next
    case (Some b)
    note unfold = string_loop.simps [of start k bad t] Some
    consider "b = dquote" | "b = newline \<or> b = carriage" | "b = backslash"
      | "b \<notin> {dquote, newline, carriage, backslash}" by blast
    then show ?thesis
    proof cases
      case 1
      have "lands (bumped t)" using Some 1 by (auto intro: lands_bumped_peek)
      with 1 \<open>k \<noteq> Eof\<close> show ?thesis by (simp add: unfold emitsI adv_bumped)
    next
      case 2
      then have "lands t" using Some by (auto intro: lands_peek)
      with 2 show ?thesis by (auto simp: unfold emits_here)
    next
      case 3
      obtain r t1 where r: "scan_escape (bumped t) = (r, t1)" by fastforce
      have "adv t t1" using adv_bumped adv_scan_escape [OF r] by (rule adv_trans)
      moreover have "emits start t1 (string_loop start k (bad \<or> Option.bind r id = None) t1)"
        using "1.IH"(1) [OF Some] 3 r "1.prems" by simp
      ultimately have "emits start t (string_loop start k (bad \<or> Option.bind r id = None) t1)"
        by (rule emits_trans)
      with 3 r show ?thesis by (simp add: unfold)
    next
      case 4
      then have "emits start (bumped t) (string_loop start k bad (bumped t))"
        using "1.IH"(2) [OF Some] "1.prems" by simp
      with adv_bumped have "emits start t (string_loop start k bad (bumped t))" by (rule emits_trans)
      with 4 show ?thesis by (simp add: unfold)
    qed
  qed
qed

lemma emits_string_lit: "k \<noteq> Eof \<Longrightarrow> emits start t (string_lit start k t)"
  by (simp add: string_lit_def emits_string_loop)

subsection \<open>Character literals\<close>

lemma adv_cont_bytes_loop: "cont_bytes_loop n t = (r, t') \<Longrightarrow> adv t t'"
  by (induction n arbitrary: t)
    (auto simp: adv_refl split: prod.splits option.splits if_splits dest!: adv_bump intro: adv_trans)

lemma cont_bytes_loop_end: "cont_bytes_loop n t = (Some Unterminated, t') \<Longrightarrow> peek t' = None"
  by (induction n arbitrary: t)
    (auto simp: bump_peek bumped_pos peek_def byte_at_def split: option.splits if_splits)

lemma cont_bytes_loop_kinds: "cont_bytes_loop n t = (Some r, t') \<Longrightarrow> r \<in> {Unterminated, InvalidEscape}"
  by (induction n arbitrary: t) (auto split: prod.splits option.splits if_splits)

lemma adv_scan_utf8_codepoint: "scan_utf8_codepoint t = (r, t') \<Longrightarrow> adv t t'"
  by (auto simp: scan_utf8_codepoint_def Let_def split: prod.splits option.splits if_splits list.splits
      dest!: adv_bump adv_cont_bytes_loop intro: adv_trans)

lemma scan_utf8_codepoint_end: "scan_utf8_codepoint t = (Unterminated, t') \<Longrightarrow> peek t' = None"
  by (auto simp: scan_utf8_codepoint_def Let_def bump_peek bumped_pos
      split: prod.splits option.splits if_splits list.splits
      dest: cont_bytes_loop_end) (auto simp: peek_def byte_at_def split: if_splits)

lemma scan_escape_end: "scan_escape t = (None, t') \<Longrightarrow> peek t' = None"
  by (auto simp: scan_escape_def bump_peek bumped_pos peek_def byte_at_def
      split: option.splits if_splits prod.splits)

lemma adv_scan_char_value: "scan_char_value t = (r, t') \<Longrightarrow> adv t t'"
  by (auto simp: scan_char_value_def adv_refl split: option.splits if_splits prod.splits
      dest!: adv_scan_escape adv_scan_utf8_codepoint intro: adv_trans [OF adv_bumped])

lemma scan_char_value_Empty: "scan_char_value t = (Empty, t') \<Longrightarrow> t' = t \<and> peek t = Some squote"
  by (auto simp: scan_char_value_def scan_utf8_codepoint_def Let_def
      split: option.splits if_splits prod.splits list.splits dest: cont_bytes_loop_kinds)

lemma scan_char_value_Unterminated: "scan_char_value t = (Unterminated, t') \<Longrightarrow> lands t'"
  by (auto simp: scan_char_value_def split: option.splits if_splits prod.splits
      intro: lands_end lands_peek dest: scan_escape_end scan_utf8_codepoint_end)

lemma adv_recover_char_literal [adv_intros]: "adv t (recover_char_literal t)"
  by (auto simp: recover_char_literal_def Let_def adv_bump_while intro: adv_trans [OF adv_bump_while adv_bumped])

lemma lands_recover_char_literal: "lands (recover_char_literal t)"
proof (cases "peek (bump_while (\<lambda>b. b \<noteq> squote \<and> b \<noteq> newline \<and> b \<noteq> carriage) t) = Some squote")
  case True
  then show ?thesis
    using lands_bumped_peek by (fastforce simp: recover_char_literal_def Let_def)
next
  case False
  have "lands (bump_while (\<lambda>b. b \<noteq> squote \<and> b \<noteq> newline \<and> b \<noteq> carriage) t)"
    using bump_while_stop by (rule lands_stop) auto
  with False show ?thesis by (simp add: recover_char_literal_def Let_def)
qed

lemma emits_char_lit: "emits start t (char_lit start is_byte t)"
proof -
  obtain r t1 where r: "scan_char_value t = (r, t1)" by fastforce
  have adv: "adv t t1" using r by (rule adv_scan_char_value)
  show ?thesis
  proof (cases r)
    case Empty
    then have "lands (bumped t1)" using r scan_char_value_Empty [of t t1] by (auto intro: lands_bumped_peek)
    with Empty adv show ?thesis
      by (auto simp: char_lit_def r intro!: emitsI intro: adv_trans adv_bumped)
  next
    case Unterminated
    with r have "lands t1" by (auto dest: scan_char_value_Unterminated)
    with Unterminated adv show ?thesis by (auto simp: char_lit_def r intro!: emitsI)
  next
    case InvalidEscape
    with adv show ?thesis
      by (auto simp: char_lit_def r intro!: emitsI lands_recover_char_literal
          intro: adv_trans adv_recover_char_literal)
  next
    case (Value v)
    have rec: "adv t (recover_char_literal (bumped t1))"
      using adv by (blast intro: adv_trans adv_recover_char_literal adv_bumped)
    have "peek t1 = Some squote \<Longrightarrow> lands (bumped t1)" by (rule lands_bumped_peek) auto
    with Value rec adv show ?thesis
      by (auto simp: char_lit_def r bump_peek intro!: emitsI lands_recover_char_literal
          intro: adv_trans adv_bumped)
  qed
qed


subsection \<open>Numbers\<close>

lemma consume_digits_loop_ok:
  "consume_digits_loop radix prev digits bad t = (r, t') \<Longrightarrow> adv t t' \<and> (lands t \<longrightarrow> lands t')"
proof (induction radix prev digits bad t arbitrary: r rule: consume_digits_loop.induct)
  case (1 radix prev digits bad t)
  have bump: "adv (bumped t) t' \<and> (lands (bumped t) \<longrightarrow> lands t') \<Longrightarrow> adv t t' \<and> (lands t \<longrightarrow> lands t')"
    if "peek t = Some b" "is_ascii b" for b
    using lands_bumped_peek [OF that] adv_bumped adv_trans by blast
  show ?case
  proof (cases "peek t")
    case None
    with "1.prems" show ?thesis by (simp add: consume_digits_loop.simps [of radix] adv_refl)
  next
    case (Some b)
    note unfold = consume_digits_loop.simps [of radix prev digits bad t] Some
    consider "b = CHR ''_''" | "b \<noteq> CHR ''_''" "digit_below radix b"
      | "b \<noteq> CHR ''_''" "\<not> digit_below radix b" "radix \<noteq> 10 \<and> digit_value b \<noteq> None"
      | "b \<noteq> CHR ''_''" "\<not> digit_below radix b" "\<not> (radix \<noteq> 10 \<and> digit_value b \<noteq> None)"
      by blast
    then show ?thesis
    proof cases
      case 1
      then have "is_ascii b" by (simp add: is_ascii_def byte_def)
      then show ?thesis
        using "1.IH"(1) [OF Some _ refl] "1.prems" 1 bump [OF Some] by (simp add: unfold Let_def)
    next
      case 2
      then have "is_ascii b" by (blast intro: ascii_classes)
      then show ?thesis
        using "1.IH"(2) [OF Some] "1.prems" 2 bump [OF Some] by (simp add: unfold)
    next
      case 3
      then have "is_ascii b" by (blast intro: ascii_classes)
      then show ?thesis
        using "1.IH"(3) [OF Some] "1.prems" 3 bump [OF Some] by (simp add: unfold)
    next
      case 4
      with "1.prems" show ?thesis by (auto simp: unfold adv_refl)
    qed
  qed
qed

lemma consume_digits_ok: "consume_digits radix prev t = (r, t') \<Longrightarrow> adv t t' \<and> (lands t \<longrightarrow> lands t')"
  unfolding consume_digits_def by (rule consume_digits_loop_ok)

lemma bump_while_ok:
  "(\<And>b. p b \<Longrightarrow> is_ascii b) \<Longrightarrow> adv t (bump_while p t) \<and> (lands t \<longrightarrow> lands (bump_while p t))"
  by (blast intro: adv_bump_while lands_bump_while)

lemma bumped_ok: "peek_is p t \<Longrightarrow> (\<And>b. p b \<Longrightarrow> is_ascii b) \<Longrightarrow> adv t (bumped t) \<and> lands (bumped t)"
  by (blast intro: adv_bumped lands_bumped peek_is_mono)

lemma consume_numeric_suffix_ok:
  "adv t (consume_numeric_suffix t) \<and> (lands t \<longrightarrow> lands (consume_numeric_suffix t))"
proof (cases "peek_is is_ident_start t")
  case True
  with bumped_ok [OF True] bump_while_ok [of is_ident_continue "bumped t"] show ?thesis
    by (auto simp: consume_numeric_suffix_def dest: ascii_classes intro: adv_trans)
qed (simp add: consume_numeric_suffix_def adv_refl)

lemma try_scan_exponent_ok: "try_scan_exponent t = (r, t') \<Longrightarrow> adv t t' \<and> (lands t \<longrightarrow> lands t')"
proof -
  assume r: "try_scan_exponent t = (r, t')"
  let ?e = "\<lambda>b. b \<in> {CHR ''e'', CHR ''E''}" and ?s = "\<lambda>b. b \<in> {CHR ''+'', CHR ''-''}"
  have ascii: "?e b \<Longrightarrow> is_ascii b" "?s b \<Longrightarrow> is_ascii b" for b
    by (auto simp: is_ascii_def byte_def)
  show ?thesis
  proof (cases "peek_is ?e t")
    case True
    let ?t1 = "bumped t"
    let ?t2 = "if peek_is ?s ?t1 then bumped ?t1 else ?t1"
    have 1: "adv t ?t1 \<and> lands ?t1" using True ascii(1) by (rule bumped_ok)
    have "adv ?t1 ?t2 \<and> lands ?t2"
      using 1 bumped_ok [of ?s ?t1] ascii(2) by (auto simp: adv_refl)
    moreover obtain c where "consume_digits 10 False ?t2 = (c, t')"
      using r True by (auto simp: try_scan_exponent_def Let_def split: prod.splits if_splits)
    ultimately show ?thesis
      using 1 consume_digits_ok by (blast intro: adv_trans)
  next
    case False
    with r show ?thesis by (simp add: try_scan_exponent_def adv_refl)
  qed
qed

lemma emits_suffix:
  "k \<noteq> Eof \<Longrightarrow> adv t u \<Longrightarrow> lands u \<Longrightarrow> emits start t (ret_token k start (consume_numeric_suffix u))"
  using consume_numeric_suffix_ok [of u] by (blast intro: emitsI adv_trans)

lemma emits_radix_number: "lands t \<Longrightarrow> emits start t (radix_number start radix t)"
  using consume_digits_ok [of radix False t]
  by (auto simp: radix_number_def split: prod.splits intro!: emits_suffix)

lemma number_radix_ascii: "number_radix start t = Some r \<Longrightarrow> peek_is is_ascii t"
  by (auto simp: number_radix_def is_ascii_def byte_def split: if_splits elim!: peek_is_mono)

lemma emits_number:
  assumes "lands t"
  shows "emits start t (number start t)"
proof (cases "number_radix start t")
  case (Some radix)
  then have "lands (bumped t)" by (intro lands_bumped number_radix_ascii)
  then have "emits start (bumped t) (radix_number start radix (bumped t))" by (rule emits_radix_number)
  with adv_bumped have "emits start t (radix_number start radix (bumped t))" by (rule emits_trans)
  with Some show ?thesis by (simp add: number_def)
next
  case None
  obtain d bad t1 where 1: "consume_digits 10 True t = ((d, bad), t1)" by (metis surj_pair)
  have t1: "adv t t1" "lands t1" using consume_digits_ok [OF 1] assms by auto
  have dot: "peek t1 = Some (CHR ''.'') \<Longrightarrow> lands (bumped t1)" by (rule lands_bumped_peek) auto
  obtain d2 bad2 t2 where 2: "consume_digits 10 False (bumped t1) = ((d2, bad2), t2)" by (metis surj_pair)
  obtain e3 t3 where 3: "try_scan_exponent t2 = (e3, t3)" by fastforce
  obtain e4 t4 where 4: "try_scan_exponent t1 = (e4, t4)" by fastforce
  have t3: "adv t t3" using t1(1) adv_bumped consume_digits_ok [OF 2] try_scan_exponent_ok [OF 3]
    by (blast intro: adv_trans)
  have l3: "peek t1 = Some (CHR ''.'') \<Longrightarrow> lands t3"
    using dot consume_digits_ok [OF 2] try_scan_exponent_ok [OF 3] by blast
  have t4: "adv t t4" "lands t4" using t1 try_scan_exponent_ok [OF 4] by (blast intro: adv_trans)+
  show ?thesis
    using t3 l3 t4 by (auto simp: number_def None 1 2 3 4 split: option.splits intro!: emits_suffix)
qed

subsection \<open>Identifiers and operators\<close>

lemma keyword_kind_not_Eof [simp]: "keyword_kind text \<noteq> Eof"
  by (simp add: keyword_kind_def split: option.splits)

lemma emits_ident_or_keyword: "lands t \<Longrightarrow> emits start t (ident_or_keyword start t)"
  using bump_while_ok [of is_ident_continue t]
  by (auto simp: ident_or_keyword_def Let_def intro!: emitsI dest: ascii_classes)

lemma emits_if_eat:
  assumes "is_ascii b" "lands t"
    and "\<And>u. lands u \<Longrightarrow> emits start u (yes u)" and "\<And>u. lands u \<Longrightarrow> emits start u (no u)"
  shows "emits start t (if_eat b t yes no)"
proof (cases "peek t = Some b")
  case True
  then have "lands (bumped t)" using assms(1) by (rule lands_bumped_peek)
  with assms(3) have "emits start (bumped t) (yes (bumped t))" .
  with adv_bumped have "emits start t (yes (bumped t))" by (rule emits_trans)
  with True show ?thesis by (simp add: if_eat_def eat_def)
qed (simp add: assms if_eat_def eat_def)

lemma emits_maybe_eq: "lands t \<Longrightarrow> k \<noteq> Eof \<Longrightarrow> k' \<noteq> Eof \<Longrightarrow> emits start t (maybe_eq start k k' t)"
  using emits_if_eat [of "CHR ''=''" t start "ret_token k' start" "ret_token k start"]
  by (simp add: maybe_eq_def if_eat_def emits_here)

lemma emits_scan_dot: "lands t \<Longrightarrow> emits start t (scan_dot start t)"
proof (cases "peek t = Some (CHR ''.'') \<and> peek_next t = Some (CHR ''.'')")
  case True
  then have "peek (bumped t) = Some (CHR ''.'')"
    by (auto simp: peek_def peek_next_def byte_at_def bumped_pos split: if_splits)
  then have "lands (bumped (bumped t))" by (rule lands_bumped_peek) simp
  with True show ?thesis
    by (auto simp: scan_dot_def intro!: emitsI intro: adv_trans adv_bumped)
next
  case False
  assume "lands t"
  with False show ?thesis
    by (auto simp: scan_dot_def intro!: emits_if_eat emits_here)
qed

lemma emits_if: "emits start t x \<Longrightarrow> emits start t y \<Longrightarrow> emits start t (if c then x else y)"
  by simp

lemmas emits_methods =
  emits_here emits_number emits_ident_or_keyword emits_maybe_eq emits_if_eat emits_scan_dot
  emits_char_lit emits_string_lit emits_trans [OF adv_bumped emits_char_lit]
  emits_trans [OF adv_bumped emits_string_lit]

lemma emits_scan_byte:
  assumes "is_ascii b" "lands t"
  shows "emits start t (scan_byte start b t)"
proof -
  have ascii: "is_ascii (CHR '':'')" "is_ascii (CHR ''<'')" "is_ascii (CHR ''>'')" "is_ascii (CHR ''='')"
    by (simp_all add: is_ascii_def byte_def)
  show ?thesis
    unfolding scan_byte_def
    by (intro emits_if emits_methods assms ascii) (use assms in \<open>simp_all add: emits_here\<close>)
qed


section \<open>Steps of the lossless driver\<close>

text \<open>A tokenizer over a valid string, standing at a character boundary.\<close>

definition aligned :: "tokenizer \<Rightarrow> bool" where
  "aligned t \<longleftrightarrow> valid_utf8 (source t) \<and> is_boundary (source t) (pos t)"

lemma aligned_pos: "aligned t \<Longrightarrow> pos t \<le> length (source t)"
  by (auto simp: aligned_def is_boundary_def)

lemma aligned_adv: "aligned t \<Longrightarrow> adv t t' \<Longrightarrow> lands t' \<Longrightarrow> aligned t'"
  using aligned_pos [of t] by (auto simp: aligned_def adv_def intro: landed_boundary)

lemma utf8_width_lead: "lead c = Some (w, hi) \<Longrightarrow> utf8_width c = w"
  by (auto simp: lead_def utf8_width_def split: if_splits)

lemma utf8_width_boundary:
  assumes "valid_utf8 s" "is_boundary s p" "p < length s"
  shows "0 < utf8_width (s ! p)" "p + utf8_width (s ! p) \<le> length s"
    "is_boundary s (p + utf8_width (s ! p))"
proof -
  obtain n where n: "is_scalar n" "s ! p = hd (encode_utf8 n)" "p + len_utf8 n \<le> length s"
      "is_boundary s (p + len_utf8 n)"
    using boundary_scalar [OF assms] by blast
  have "utf8_width (s ! p) = len_utf8 n"
    using lead_encode_utf8 [OF n(1)] n(2) by (auto dest: utf8_width_lead)
  moreover have "0 < len_utf8 n" by (simp add: len_utf8_def)
  ultimately show "0 < utf8_width (s ! p)" "p + utf8_width (s ! p) \<le> length s"
    "is_boundary s (p + utf8_width (s ! p))" using n by simp_all
qed

lemma non_ascii_ranges:
  "\<not> is_ascii b \<Longrightarrow> \<not> in_range (CHR ''a'') (CHR ''z'') b"
  "\<not> is_ascii b \<Longrightarrow> \<not> in_range (CHR ''A'') (CHR ''Z'') b"
  "\<not> is_ascii b \<Longrightarrow> \<not> in_range (CHR ''0'') (CHR ''9'') b"
  by (auto simp: is_ascii_def in_range_def byte_def)

lemma scan_byte_non_ascii:
  assumes "\<not> is_ascii b"
  shows "scan_byte start b t =
    ret_token (Error (UnexpectedByte b)) start (t\<lparr>pos := start + utf8_width b\<rparr>)"
proof -
  have ne: "b \<noteq> c" if "is_ascii c" for c using assms that by blast
  have "b \<notin> set ''b_()[],.;?:+-*/%!=<>|'' \<union>
      {dquote, backslash, squote, CHR 0x7B, CHR 0x7D, CHR 0x40, CHR 0x5E, CHR 0x7E, CHR 0x26}"
    using assms by (auto simp: is_ascii_def byte_def)
  then show ?thesis
    by (simp add: scan_byte_def assms non_ascii_ranges)
qed

text \<open>One call of \<open>next_token\<close> in front of a byte of a valid string.\<close>

lemma next_token_step:
  assumes "aligned t" "pos t < length (source t)"
  shows "\<exists>k t'. next_token t = (mk_token k (pos t) (pos t'), t') \<and> k \<noteq> Eof \<and> source t' = source t
    \<and> aligned t' \<and> pos t < pos t'"
proof -
  let ?b = "source t ! pos t"
  have bump: "bump t = (Some ?b, bumped t)" using assms by (simp add: bump_peek peek_def byte_at_def)
  have pos1: "pos (bumped t) = Suc (pos t)" "source (bumped t) = source t"
    using assms by (simp_all add: bumped_pos)
  show ?thesis
  proof (cases "is_ascii ?b")
    case True
    have "lands (bumped t)" using True pos1 by (simp add: landed_def)
    with True have "emits (pos t) (bumped t) (scan_byte (pos t) ?b (bumped t))" by (rule emits_scan_byte)
    then obtain k t' where r: "scan_byte (pos t) ?b (bumped t) = ret_token k (pos t) t'"
      and k: "k \<noteq> Eof" and adv: "adv (bumped t) t'" and l: "lands t'" by (auto simp: emits_def)
    have "adv t t'" using adv_bumped adv by (rule adv_trans)
    then have "aligned t'" using assms(1) l by (blast intro: aligned_adv)
    then have al: "aligned (t'\<lparr>previous_kind := Some k\<rparr>)" by (simp add: aligned_def)
    have "pos t < pos t'" "source t' = source t" using adv pos1 by (auto simp: adv_def)
    with al k r show ?thesis
      by (intro exI [of _ k] exI [of _ "t'\<lparr>previous_kind := Some k\<rparr>"])
        (simp add: next_token_def scan_token_def bump ret_token_def mk_token_def)
  next
    case False
    let ?t' = "(bumped t)\<lparr>pos := pos t + utf8_width ?b, previous_kind := Some (Error (UnexpectedByte ?b))\<rparr>"
    have w: "0 < utf8_width ?b" "is_boundary (source t) (pos t + utf8_width ?b)"
      using utf8_width_boundary assms by (auto simp: aligned_def)
    then have "aligned ?t'" using assms(1) pos1 by (simp add: aligned_def)
    with w False pos1 show ?thesis
      by (intro exI [of _ "Error (UnexpectedByte ?b)"] exI [of _ ?t'])
        (simp add: next_token_def scan_token_def bump scan_byte_non_ascii ret_token_def mk_token_def)
  qed
qed

lemma next_token_end: "pos t = length (source t) \<Longrightarrow>
    next_token t = (mk_token Eof (pos t) (pos t), t\<lparr>previous_kind := Some Eof\<rparr>)"
  by (simp add: next_token_def scan_token_def bump_def byte_at_def mk_token_def)

lemma whitespace_step:
  assumes "aligned t" "peek_is is_ascii_whitespace t"
  shows "aligned (consume_whitespace t)" "pos t < pos (consume_whitespace t)"
    "source (consume_whitespace t) = source t"
proof -
  have "lands t" using assms(2) by (auto simp: peek_is_def split: option.splits intro: lands_peek ascii_classes)
  then show "aligned (consume_whitespace t)" "source (consume_whitespace t) = source t"
    using bump_while_ok [of is_ascii_whitespace t] assms(1)
    by (auto simp: consume_whitespace_def ascii_classes adv_def intro: aligned_adv)
  show "pos t < pos (consume_whitespace t)"
    using bump_while_decreases [OF assms(2)] adv_bump_while [of t is_ascii_whitespace]
    by (simp add: consume_whitespace_def rest_def adv_def)
qed

lemma comment_step:
  assumes "aligned t" "at_comment t"
  shows "aligned (consume_line_comment t)" "pos t < pos (consume_line_comment t)"
    "source (consume_line_comment t) = source t"
proof -
  let ?p = "\<lambda>b. b \<noteq> newline"
  have adv: "adv t (bump_while ?p t)" by (rule adv_bump_while)
  have "lands (bump_while ?p t)" using bump_while_stop by (rule lands_stop) simp
  with adv assms(1) show "aligned (consume_line_comment t)"
    unfolding consume_line_comment_def by (blast intro: aligned_adv)
  show "source (consume_line_comment t) = source t"
    using adv by (simp add: consume_line_comment_def adv_def)
  show "pos t < pos (consume_line_comment t)"
    using bump_while_decreases [OF at_comment_peek_is [OF assms(2)]] adv
    by (simp add: consume_line_comment_def rest_def adv_def)
qed

text \<open>One call of \<open>next_lossless_token\<close>: the token covers exactly the bytes consumed.\<close>

lemma next_lossless_token_step:
  assumes "aligned t" "pos t < length (source t)"
  shows "\<exists>k t'. next_lossless_token t = (mk_lossless_token k (pos t) (pos t'), t') \<and> k \<noteq> Token Eof
    \<and> source t' = source t \<and> aligned t' \<and> pos t < pos t'"
proof -
  have peek: "peek t = Some (source t ! pos t)" using assms by (simp add: peek_def byte_at_def)
  consider "peek_is is_ascii_whitespace t" | "\<not> peek_is is_ascii_whitespace t" "at_comment t"
    | "\<not> peek_is is_ascii_whitespace t" "\<not> at_comment t" by blast
  then show ?thesis
  proof cases
    case 1
    with whitespace_step [OF assms(1) 1] peek show ?thesis
      by (auto simp: next_lossless_token_def peek_is_def Let_def)
  next
    case 2
    with comment_step [OF assms(1) 2(2)] peek show ?thesis
      by (auto simp: next_lossless_token_def peek_is_def at_comment_def Let_def)
  next
    case 3
    obtain k t' where "next_token t = (mk_token k (pos t) (pos t'), t')" "k \<noteq> Eof" "source t' = source t"
      "aligned t'" "pos t < pos t'" using next_token_step [OF assms] by blast
    with 3 peek show ?thesis
      by (intro exI [of _ "Token k"] exI [of _ t'])
        (auto simp: next_lossless_token_def peek_is_def at_comment_def mk_token_def mk_lossless_token_def)
  qed
qed


section \<open>Runs of the drivers\<close>

inductive lexes :: "tokenizer \<Rightarrow> lossless_token list \<Rightarrow> bool" where
  lexes_end: "pos t = length (source t) \<Longrightarrow>
     lexes t [mk_lossless_token (Token Eof) (pos t) (pos t)]"
| lexes_step: "pos t < length (source t) \<Longrightarrow>
     next_lossless_token t = (mk_lossless_token k (pos t) (pos t'), t') \<Longrightarrow> k \<noteq> Token Eof \<Longrightarrow>
     source t' = source t \<Longrightarrow> pos t < pos t' \<Longrightarrow> aligned t' \<Longrightarrow> lexes t' toks \<Longrightarrow>
     lexes t (mk_lossless_token k (pos t) (pos t') # toks)"

inductive_cases lexes_consE: "lexes t (tok # toks)"

lemma lexes_exists: "aligned t \<Longrightarrow> \<exists>toks. lexes t toks"
proof (induction "rest t" arbitrary: t rule: less_induct)
  case less
  show ?case
  proof (cases "pos t < length (source t)")
    case True
    obtain k t' where step: "next_lossless_token t = (mk_lossless_token k (pos t) (pos t'), t')"
      "k \<noteq> Token Eof" "source t' = source t" "aligned t'" "pos t < pos t'"
      using next_lossless_token_step [OF less.prems True] by blast
    then have "rest t' < rest t" using True by (simp add: rest_def)
    with less.hyps step(4) obtain toks where "lexes t' toks" by blast
    with step True show ?thesis by (blast intro: lexes_step)
  next
    case False
    then have "pos t = length (source t)" using aligned_pos [OF less.prems] by simp
    then show ?thesis by (blast intro: lexes_end)
  qed
qed

lemma tokenize_lossless_loop_lexes: "lexes t toks \<Longrightarrow> tokenize_lossless_loop acc t = Some (acc @ toks)"
proof (induction arbitrary: acc rule: lexes.induct)
  case (lexes_end t)
  then have "next_lossless_token t = (mk_lossless_token (Token Eof) (pos t) (pos t), t)"
    by (simp add: next_lossless_token_def peek_def byte_at_def)
  then show ?case by (simp add: tokenize_lossless_loop.simps [of acc t] mk_lossless_token_def)
next
  case (lexes_step t k t' toks)
  then show ?case by (simp add: tokenize_lossless_loop.simps [of acc t] mk_lossless_token_def)
qed

text \<open>The significant tokens of a lossless stream.\<close>

fun significant :: "lossless_token list \<Rightarrow> token list" where
  "significant [] = []"
| "significant (t # ts) =
     (case lkind t of
        Token k \<Rightarrow> \<lparr>kind = k, span = lspan t\<rparr> # significant ts
      | _ \<Rightarrow> significant ts)"

lemma tokenize_loop_skip:
  "skip_trivia t = skip_trivia t' \<Longrightarrow> tokenize_loop acc t = tokenize_loop acc t'"
  by (simp add: tokenize_loop.simps [of acc t] tokenize_loop.simps [of acc t'])

lemma tokenize_loop_lexes: "lexes t toks \<Longrightarrow> tokenize_loop acc t = Some (acc @ significant toks)"
proof (induction arbitrary: acc rule: lexes.induct)
  case (lexes_end t)
  then have "skip_trivia t = t"
    by (simp add: skip_trivia.simps [of t] peek_is_def peek_def byte_at_def at_comment_def)
  with lexes_end show ?case
    by (simp add: tokenize_loop.simps [of acc t] next_token_end mk_token_def mk_lossless_token_def)
next
  case (lexes_step t k t' toks)
  have peek: "peek t = Some (source t ! pos t)" using lexes_step by (simp add: peek_def byte_at_def)
  consider "peek_is is_ascii_whitespace t" | "\<not> peek_is is_ascii_whitespace t" "at_comment t"
    | "\<not> peek_is is_ascii_whitespace t" "\<not> at_comment t" by blast
  then show ?case
  proof cases
    case 1
    then have "k = Whitespace" "t' = consume_whitespace t"
      using lexes_step.hyps(2) peek
      by (auto simp: next_lossless_token_def peek_is_def Let_def mk_lossless_token_def)
    moreover have "tokenize_loop acc t = tokenize_loop acc (consume_whitespace t)"
      by (rule tokenize_loop_skip) (use 1 in \<open>simp add: skip_trivia.simps [of t]\<close>)
    ultimately show ?thesis
      using lexes_step.IH by (simp add: mk_lossless_token_def)
  next
    case 2
    then have "k = LineComment" "t' = consume_line_comment t"
      using lexes_step.hyps(2) peek
      by (auto simp: next_lossless_token_def peek_is_def at_comment_def Let_def mk_lossless_token_def)
    moreover have "tokenize_loop acc t = tokenize_loop acc (consume_line_comment t)"
      by (rule tokenize_loop_skip) (use 2 in \<open>simp add: skip_trivia.simps [of t]\<close>)
    ultimately show ?thesis
      using lexes_step.IH by (simp add: mk_lossless_token_def)
  next
    case 3
    then obtain tok where "next_token t = (tok, t')" "k = Token (kind tok)"
        "span tok = span_new (pos t) (pos t')"
      using lexes_step.hyps(2) peek
      by (auto simp: next_lossless_token_def peek_is_def at_comment_def mk_lossless_token_def
          split: prod.splits)
    moreover have "skip_trivia t = t" using 3 by (simp add: skip_trivia.simps [of t])
    ultimately show ?thesis
      using lexes_step.IH lexes_step.hyps(3)
      by (simp add: tokenize_loop.simps [of acc t] mk_lossless_token_def)
  qed
qed

abbreviation token_text :: "string \<Rightarrow> lossless_token \<Rightarrow> string" where
  "token_text src t \<equiv> subslice (span_start (lspan t)) (span_end (lspan t)) src"

lemma lexes_text: "lexes t toks \<Longrightarrow> aligned t \<Longrightarrow> concat (map (token_text (source t)) toks) = drop (pos t) (source t)"
proof (induction rule: lexes.induct)
  case (lexes_end t)
  then show ?case by (simp add: mk_lossless_token_def span_new_def)
next
  case (lexes_step t k t' toks)
  have le: "pos t \<le> pos t'" "pos t' \<le> length (source t)"
    using lexes_step aligned_pos [of t'] by auto
  have "subslice (pos t) (pos t') (source t) @ drop (pos t') (source t) = drop (pos t) (source t)"
    using subslice_append [OF le, of "source t"] by (simp add: subslice_def)
  with lexes_step show ?case by (simp add: mk_lossless_token_def span_new_def)
qed

lemma lexes_spans:
  "lexes t toks \<Longrightarrow> aligned t \<Longrightarrow> tok \<in> set toks \<Longrightarrow>
   is_boundary (source t) (span_start (lspan tok)) \<and> is_boundary (source t) (span_end (lspan tok))"
proof (induction rule: lexes.induct)
  case (lexes_end t)
  then show ?case by (auto simp: mk_lossless_token_def span_new_def is_boundary_def)
next
  case (lexes_step t k t' toks)
  then show ?case by (auto simp: mk_lossless_token_def span_new_def aligned_def)
qed

lemma lexes_shape:
  "lexes t toks \<Longrightarrow> \<exists>front. toks = front @ [mk_lossless_token (Token Eof) (length (source t)) (length (source t))]
     \<and> (\<forall>tok \<in> set front. lkind tok \<noteq> Token Eof \<and> span_start (lspan tok) < span_end (lspan tok))"
proof (induction rule: lexes.induct)
  case (lexes_end t)
  then show ?case by (intro exI [of _ "[]"]) simp
next
  case (lexes_step t k t' toks)
  then obtain front where "toks = front @ [mk_lossless_token (Token Eof) (length (source t)) (length (source t))]"
    "\<forall>tok \<in> set front. lkind tok \<noteq> Token Eof \<and> span_start (lspan tok) < span_end (lspan tok)" by auto
  with lexes_step show ?case
    by (intro exI [of _ "mk_lossless_token k (pos t) (pos t') # front"])
      (simp add: mk_lossless_token_def span_new_def)
qed

lemma significant_append: "significant (ts @ us) = significant ts @ significant us"
  by (induction ts) (simp_all split: lossless_token_kind.split)

lemma set_significant:
  "tok \<in> set (significant ts) \<Longrightarrow> \<exists>t \<in> set ts. lkind t = Token (kind tok) \<and> lspan t = span tok"
  by (induction ts) (auto split: lossless_token_kind.splits)

lemma tokenizer_new_simps [simp]:
  "source (tokenizer_new src) = src" "pos (tokenizer_new src) = 0"
  by (simp_all add: tokenizer_new_def)

lemma aligned_new: "valid_utf8 src \<Longrightarrow> aligned (tokenizer_new src)"
  by (simp add: aligned_def)

lemma tokenize_lossless_run:
  assumes "valid_utf8 src"
  obtains toks where "lexes (tokenizer_new src) toks" "tokenize_lossless src = Some toks"
    "tokenize src = Some (significant toks)"
  using lexes_exists [OF aligned_new [OF assms]] tokenize_lossless_loop_lexes tokenize_loop_lexes
  unfolding tokenize_lossless_def tokenize_def by (metis append_Nil)


section \<open>Properties of the lexer\<close>

text \<open>
  C3. The lexer returns on every source text: on valid UTF-8 the lossless driver and the driver of the
  compiler both produce a token stream, which ends in exactly one end-of-file token at the end of the
  text, and every other token is non-empty.
\<close>

theorem tokenize_lossless_total:
  assumes "valid_utf8 src"
  shows "(\<exists>front. tokenize_lossless src =
      Some (front @ [mk_lossless_token (Token Eof) (length src) (length src)])
    \<and> (\<forall>tok \<in> set front. lkind tok \<noteq> Token Eof \<and> span_start (lspan tok) < span_end (lspan tok)))
   \<and> (\<exists>front. tokenize src = Some (front @ [mk_token Eof (length src) (length src)])
    \<and> (\<forall>tok \<in> set front. kind tok \<noteq> Eof \<and> span_start (span tok) < span_end (span tok)))"
proof -
  obtain toks where toks: "lexes (tokenizer_new src) toks" "tokenize_lossless src = Some toks"
    "tokenize src = Some (significant toks)" by (rule tokenize_lossless_run [OF assms])
  from lexes_shape [OF toks(1)] obtain front where
    front: "toks = front @ [mk_lossless_token (Token Eof) (length src) (length src)]"
      "\<forall>tok \<in> set front. lkind tok \<noteq> Token Eof \<and> span_start (lspan tok) < span_end (lspan tok)" by auto
  have "significant toks = significant front @ [mk_token Eof (length src) (length src)]"
    by (simp add: front(1) significant_append mk_lossless_token_def mk_token_def)
  moreover have "\<forall>tok \<in> set (significant front). kind tok \<noteq> Eof \<and> span_start (span tok) < span_end (span tok)"
    using front(2) set_significant [of _ front] by fastforce
  ultimately show ?thesis using toks(2,3) front
    by (intro conjI exI [of _ front] exI [of _ "significant front"]) simp_all
qed

theorem tokenize_lossless_total_witness:
  "valid_utf8 ''x += 1'' \<and> (\<exists>front. tokenize_lossless ''x += 1'' =
      Some (front @ [mk_lossless_token (Token Eof) (length ''x += 1'') (length ''x += 1'')])
    \<and> (\<forall>tok \<in> set front. lkind tok \<noteq> Token Eof \<and> span_start (lspan tok) < span_end (lspan tok)))
   \<and> (\<exists>front. tokenize ''x += 1'' = Some (front @ [mk_token Eof (length ''x += 1'') (length ''x += 1'')])
    \<and> (\<forall>tok \<in> set front. kind tok \<noteq> Eof \<and> span_start (span tok) < span_end (span tok)))"
proof -
  have "valid_utf8 ''x += 1''" by (simp add: utf8_eval)
  then show ?thesis using tokenize_lossless_total [of "''x += 1''"] by blast
qed

text \<open>
  C4. Lossless tokenization is a round trip: the texts of the tokens, put together in order, are
  the source.
\<close>

theorem tokenize_lossless_roundtrip:
  assumes "valid_utf8 src" "tokenize_lossless src = Some toks"
  shows "concat (map (token_text src) toks) = src"
proof -
  from assms have "lexes (tokenizer_new src) toks" by (auto elim: tokenize_lossless_run)
  from lexes_text [OF this aligned_new [OF assms(1)]] show ?thesis by simp
qed

theorem tokenize_lossless_roundtrip_witness:
  "\<exists>toks. tokenize_lossless ''a//b'' = Some toks \<and> length toks = 3
    \<and> concat (map (token_text ''a//b'') toks) = ''a//b''"
proof -
  have v: "valid_utf8 ''a//b''" by (simp add: utf8_eval)
  have t: "tokenize_lossless ''a//b'' = Some
      [mk_lossless_token (Token Ident) 0 1, mk_lossless_token LineComment 1 4,
       mk_lossless_token (Token Eof) 4 4]" by code_simp
  show ?thesis using tokenize_lossless_roundtrip [OF v t] t by auto
qed

text \<open>
  C5. Every token span starts and ends at a character boundary of the source, so slicing the
  source text by it never splits a scalar value, error tokens included.
\<close>

theorem tokenize_lossless_boundaries:
  assumes "valid_utf8 src" "tokenize_lossless src = Some toks" "tok \<in> set toks"
  shows "is_boundary src (span_start (lspan tok)) \<and> is_boundary src (span_end (lspan tok))"
proof -
  from assms(1,2) have "lexes (tokenizer_new src) toks" by (auto elim: tokenize_lossless_run)
  from lexes_spans [OF this aligned_new [OF assms(1)] assms(3)] show ?thesis by simp
qed

theorem tokenize_lossless_boundaries_witness:
  "is_boundary [CHR 0xC3, CHR 0xA9] 0 \<and> is_boundary [CHR 0xC3, CHR 0xA9] 2
    \<and> \<not> is_boundary [CHR 0xC3, CHR 0xA9] 1"
proof -
  have v: "valid_utf8 [CHR 0xC3, CHR 0xA9]" by (simp add: utf8_eval)
  have t: "tokenize_lossless [CHR 0xC3, CHR 0xA9] = Some
      [mk_lossless_token (Token (Error (UnexpectedByte (CHR 0xC3)))) 0 2,
       mk_lossless_token (Token Eof) 2 2]" by code_simp
  have "\<not> is_boundary [CHR 0xC3, CHR 0xA9] 1" by code_simp
  then show ?thesis
    using tokenize_lossless_boundaries [OF v t list.set_intros(1)]
    by (simp add: mk_lossless_token_def span_new_def)
qed

text \<open>
  C6. The two drivers agree: the compiler's token stream is the lossless stream without its
  trivia, spans included.
\<close>

theorem tokenize_significant:
  assumes "valid_utf8 src"
  shows "tokenize src = map_option significant (tokenize_lossless src)"
  using tokenize_lossless_run [OF assms] by (metis option.map(2))

theorem tokenize_significant_witness:
  "tokenize ''a  b'' = Some [mk_token Ident 0 1, mk_token Ident 3 4, mk_token Eof 4 4]
    \<and> tokenize ''a  b'' = map_option significant (tokenize_lossless ''a  b'')"
proof -
  have v: "valid_utf8 ''a  b''" by (simp add: utf8_eval)
  have "tokenize ''a  b'' = Some [mk_token Ident 0 1, mk_token Ident 3 4, mk_token Eof 4 4]" by code_simp
  with tokenize_significant [OF v] show ?thesis by simp
qed

end
