(* ===== verification/Nia_Literals.thy ===== *)
theory Nia_Literals
  imports Nia_Lexer
begin

text \<open>
  Literal decoding (\<^verbatim>\<open>crates/nia-literals\<close>). A literal's spelling is a \<open>string\<close>; the numeric functions
  work on its bytes, the escape decoders on its scalars (\<open>chars\<close>), as the source does. A \<^verbatim>\<open>String\<close>
  that holds decoded text is the list of its scalars. \<^verbatim>\<open>u128\<close> and \<^verbatim>\<open>usize\<close> values are \<open>nat\<close> with
  the bounds \<open>2 ^ 128\<close> and \<open>2 ^ 64\<close> checked where the source checks them. Parsing a decimal string
  to \<^verbatim>\<open>f64\<close> is the parameter \<open>parse_f64\<close>.
\<close>

section \<open>Prefixes and suffixes\<close>

definition starts_with :: "string \<Rightarrow> string \<Rightarrow> bool" where
  "starts_with p s \<longleftrightarrow> take (length p) s = p"

definition strip_prefix :: "string \<Rightarrow> string \<Rightarrow> string option" where
  "strip_prefix p s = (if starts_with p s then Some (drop (length p) s) else None)"

definition strip_suffix :: "string \<Rightarrow> string \<Rightarrow> string option" where
  "strip_suffix q s = map_option rev (strip_prefix (rev q) (rev s))"

definition or_else :: "'a option \<Rightarrow> 'a option \<Rightarrow> 'a option" where
  "or_else x y = (case x of Some v \<Rightarrow> Some v | None \<Rightarrow> y)"

lemma strip_prefix_Some [simp]: "strip_prefix p s = Some r \<longleftrightarrow> s = p @ r"
proof
  assume "strip_prefix p s = Some r"
  then show "s = p @ r"
    by (auto simp: strip_prefix_def starts_with_def split: if_splits) (metis append_take_drop_id)
qed (simp add: strip_prefix_def starts_with_def)

lemma strip_suffix_Some [simp]: "strip_suffix q s = Some r \<longleftrightarrow> s = r @ q"
  by (auto simp: strip_suffix_def) (metis rev_append rev_rev_ident)+


section \<open>Numeric literals\<close>

datatype literal_error = InvalidInteger | IntegerOutOfRange | InvalidFloat

definition is_integer_suffix :: "string \<Rightarrow> bool" where
  "is_integer_suffix s \<longleftrightarrow>
     s \<in> set [''i8'', ''i16'', ''i32'', ''i64'', ''i128'', ''isize'',
             ''u8'', ''u16'', ''u32'', ''u64'', ''u128'', ''usize'']"

definition is_float_suffix :: "string \<Rightarrow> bool" where
  "is_float_suffix s \<longleftrightarrow> s \<in> set [''f32'', ''f64'']"

text \<open>The separate \<^verbatim>\<open>digit_value\<close> of this crate; it is the lexer's function.\<close>

definition lit_digit_value :: "char \<Rightarrow> nat option" where
  "lit_digit_value c =
     (if in_range (CHR ''0'') (CHR ''9'') c then Some (byte c - byte (CHR ''0''))
      else if in_range (CHR ''a'') (CHR ''f'') c then Some (byte c - byte (CHR ''a'') + 10)
      else if in_range (CHR ''A'') (CHR ''F'') c then Some (byte c - byte (CHR ''A'') + 10)
      else None)"

definition lit_digit_below :: "nat \<Rightarrow> char option \<Rightarrow> bool" where
  "lit_digit_below radix c \<longleftrightarrow>
     (case Option.bind c lit_digit_value of None \<Rightarrow> False | Some v \<Rightarrow> v < radix)"

definition has_valid_digit_separators :: "string \<Rightarrow> nat \<Rightarrow> bool" where
  "has_valid_digit_separators text radix \<longleftrightarrow>
     list_all (\<lambda>i. text ! i \<noteq> CHR ''_'' \<or>
        ((if 1 \<le> i then lit_digit_below radix (byte_at text (i - 1)) else False)
         \<and> lit_digit_below radix (byte_at text (i + 1))))
       [0..<length text]"

text \<open>\<^verbatim>\<open>while index < bytes.len()\<close> over a class of bytes.\<close>

definition scan_while :: "(char \<Rightarrow> bool) \<Rightarrow> string \<Rightarrow> nat \<Rightarrow> nat" where
  "scan_while p s i = i + length (takeWhile p (drop i s))"

definition non_decimal_radix :: "string \<Rightarrow> bool" where
  "non_decimal_radix text \<longleftrightarrow>
     starts_with ''0x'' text \<or> starts_with ''0X'' text \<or> starts_with ''0b'' text
     \<or> starts_with ''0B'' text \<or> starts_with ''0o'' text \<or> starts_with ''0O'' text"

definition sep_or_digit :: "char \<Rightarrow> bool" where
  "sep_or_digit b \<longleftrightarrow> b = CHR ''_'' \<or> is_ascii_digit b"

definition numeric_suffix_start :: "string \<Rightarrow> nat option" where
  "numeric_suffix_start text =
     (let nd = non_decimal_radix text;
          i0 = scan_while
                 (\<lambda>b. b = CHR ''_'' \<or> (if nd then lit_digit_value b \<noteq> None else is_ascii_digit b))
                 text (if nd then 2 else 0);
          i1 = (if \<not> nd \<and> byte_at text i0 = Some (CHR ''.'')
                then scan_while sep_or_digit text (i0 + 1) else i0);
          i2 = (if \<not> nd \<and> (byte_at text i1 = Some (CHR ''e'') \<or> byte_at text i1 = Some (CHR ''E''))
                then
                  (let j = i1 + 1;
                       j' = (if byte_at text j = Some (CHR ''+'') \<or> byte_at text j = Some (CHR ''-'')
                             then j + 1 else j)
                   in scan_while sep_or_digit text j')
                else i1)
      in if i2 < length text then Some i2 else None)"

definition numeric_literal_body :: "string \<Rightarrow> string" where
  "numeric_literal_body text =
     take (case numeric_suffix_start text of Some i \<Rightarrow> i | None \<Rightarrow> length text) text"

definition numeric_literal_suffix :: "string \<Rightarrow> string option" where
  "numeric_literal_suffix text = map_option (\<lambda>i. drop i text) (numeric_suffix_start text)"

definition radix_split :: "string \<Rightarrow> nat \<times> string" where
  "radix_split text =
     (case or_else (strip_prefix ''0x'' text) (strip_prefix ''0X'' text) of
        Some r \<Rightarrow> (16, r)
      | None \<Rightarrow>
          (case or_else (strip_prefix ''0b'' text) (strip_prefix ''0B'' text) of
             Some r \<Rightarrow> (2, r)
           | None \<Rightarrow>
               (case or_else (strip_prefix ''0o'' text) (strip_prefix ''0O'' text) of
                  Some r \<Rightarrow> (8, r)
                | None \<Rightarrow> (10, text))))"

definition remove_separators :: "string \<Rightarrow> string" where
  "remove_separators = filter (\<lambda>b. b \<noteq> CHR ''_'')"

definition parse_int_literal :: "string \<Rightarrow> (nat, literal_error) rust_result" where
  "parse_int_literal text =
     (if (case numeric_literal_suffix text of None \<Rightarrow> False | Some s \<Rightarrow> \<not> is_integer_suffix s)
      then Err InvalidInteger
      else
        (case radix_split (numeric_literal_body text) of
           (radix, digits) \<Rightarrow>
             if \<not> has_valid_digit_separators digits radix then Err InvalidInteger
             else
               let digits = remove_separators digits
               in if digits = [] then Err InvalidInteger
                  else ok_or (from_str_radix 128 digits radix) IntegerOutOfRange))"

definition eval_int_literal :: "string \<Rightarrow> (nat, literal_error) rust_result" where
  "eval_int_literal text = parse_int_literal text"

definition eval_float_literal :: "(string \<Rightarrow> 'f option) \<Rightarrow> string \<Rightarrow> ('f, literal_error) rust_result" where
  "eval_float_literal parse_f64 text =
     (let body = numeric_literal_body text
      in if \<not> has_valid_digit_separators body 10
            \<or> (case numeric_literal_suffix text of None \<Rightarrow> False | Some s \<Rightarrow> \<not> is_float_suffix s)
         then Err InvalidFloat
         else ok_or (parse_f64 (remove_separators body)) InvalidFloat)"


section \<open>Escapes\<close>

text \<open>Scalar values of the ASCII characters the decoders compare with.\<close>

abbreviation ch :: "char \<Rightarrow> nat" where "ch c \<equiv> of_char c"

text \<open>\<^verbatim>\<open>decode_unicode_escape_scalar(&mut chars)\<close>: the scalar and the characters after the escape.\<close>

definition decode_unicode_escape_scalar :: "nat list \<Rightarrow> (nat \<times> nat list) option" where
  "decode_unicode_escape_scalar cs =
     (case cs of
        [] \<Rightarrow> None
      | c # cs1 \<Rightarrow>
          if c \<noteq> ch (CHR 0x7B) then None
          else
            (case dropWhile (\<lambda>c. c \<noteq> ch (CHR 0x7D)) cs1 of
               [] \<Rightarrow> None
             | _ # cs2 \<Rightarrow>
                 map_option (\<lambda>scalar. (scalar, cs2))
                   (Option.bind
                     (from_str_radix 32 (encode_str (takeWhile (\<lambda>c. c \<noteq> ch (CHR 0x7D)) cs1)) 16)
                     from_u32)))"

definition unicode_escape_byte_len :: "nat list \<Rightarrow> (nat \<times> nat list) option" where
  "unicode_escape_byte_len cs =
     (case cs of
        [] \<Rightarrow> None
      | c # cs1 \<Rightarrow>
          if c \<noteq> ch (CHR 0x7B) then None
          else
            (case dropWhile (\<lambda>c. c \<noteq> ch (CHR 0x7D)) cs1 of
               [] \<Rightarrow> None
             | _ # cs2 \<Rightarrow>
                 (case from_str_radix 32 (encode_str (takeWhile (\<lambda>c. c \<noteq> ch (CHR 0x7D)) cs1)) 16 of
                    None \<Rightarrow> None
                  | Some scalar \<Rightarrow> map_option (\<lambda>s. (len_utf8 s, cs2)) (from_u32 scalar))))"

text \<open>\<^verbatim>\<open>let hi = chars.next()?.to_digit(16)?; let lo = \<dots>; (hi << 4) | lo\<close>\<close>

definition decode_hex_pair :: "nat list \<Rightarrow> (nat \<times> nat list) option" where
  "decode_hex_pair cs =
     (case cs of
        h # l # cs1 \<Rightarrow>
          (case (to_digit16 h, to_digit16 l) of
             (Some hi, Some lo) \<Rightarrow> Some (hi * 16 + lo, cs1)
           | _ \<Rightarrow> None)
      | _ \<Rightarrow> None)"

text \<open>The single-character escapes, shared by the four loops.\<close>

definition simple_escape :: "nat \<Rightarrow> nat option" where
  "simple_escape c =
     (if c = ch (CHR ''n'') then Some 10
      else if c = ch (CHR ''r'') then Some 13
      else if c = ch (CHR ''t'') then Some 9
      else if c = ch backslash then Some 92
      else if c = ch squote then Some 39
      else if c = ch dquote then Some 34
      else if c = ch (CHR ''0'') then Some 0
      else None)"

lemma decode_unicode_escape_scalar_length:
  "decode_unicode_escape_scalar cs = Some (v, cs') \<Longrightarrow> length cs' < length cs"
  using length_dropWhile_le [of "\<lambda>c. c \<noteq> ch (CHR 0x7D)" "tl cs"]
  by (auto simp: decode_unicode_escape_scalar_def split: list.splits if_splits option.splits)

lemma unicode_escape_byte_len_eq:
  "unicode_escape_byte_len cs =
     map_option (\<lambda>(s, cs'). (len_utf8 s, cs')) (decode_unicode_escape_scalar cs)"
  unfolding unicode_escape_byte_len_def decode_unicode_escape_scalar_def from_u32_def
  by (simp split: list.split option.split del: dropWhile_eq_Nil_conv)

lemma decode_hex_pair_length: "decode_hex_pair cs = Some (v, cs') \<Longrightarrow> length cs' < length cs"
  by (auto simp: decode_hex_pair_def split: list.splits option.splits)


section \<open>The decoding loops\<close>

text \<open>
  Each loop is a \<^verbatim>\<open>while let Some(ch) = chars.next()\<close>; the \<^verbatim>\<open>match chars.next()?\<close> on the character
  after a backslash is a definition of its own, which returns what the escape contributes and the
  characters left in the iterator. First \<^verbatim>\<open>decode_byte_literal_inner\<close>.
\<close>

definition decode_byte_escape :: "nat list \<Rightarrow> (string \<times> nat list) option" where
  "decode_byte_escape cs =
     (case cs of
        [] \<Rightarrow> None
      | e # cs1 \<Rightarrow>
          (case simple_escape e of
             Some v \<Rightarrow> Some ([char_of v], cs1)
           | None \<Rightarrow>
               if e = ch (CHR ''x'') then
                 map_option (\<lambda>(v, cs2). ([char_of v], cs2)) (decode_hex_pair cs1)
               else if e = ch (CHR ''u'') then
                 map_option (\<lambda>(v, cs2). (encode_utf8 v, cs2)) (decode_unicode_escape_scalar cs1)
               else None))"

lemma decode_byte_escape_length:
  "decode_byte_escape cs = Some (v, cs') \<Longrightarrow> length cs' < length cs"
  by (auto simp: decode_byte_escape_def split: list.splits option.splits if_splits
      dest!: decode_hex_pair_length decode_unicode_escape_scalar_length)

function decode_byte_chars :: "nat list \<Rightarrow> string option" where
  "decode_byte_chars [] = Some []"
| "decode_byte_chars (c # cs) =
     (if c \<noteq> ch backslash then map_option (\<lambda>bs. encode_utf8 c @ bs) (decode_byte_chars cs)
      else
        (case decode_byte_escape cs of
           None \<Rightarrow> None
         | Some (v, cs1) \<Rightarrow> map_option (\<lambda>bs. v @ bs) (decode_byte_chars cs1)))"
  by pat_completeness auto
termination
  by (relation "measure length") (auto dest: decode_byte_escape_length)

definition decode_byte_literal_inner :: "string \<Rightarrow> string option" where
  "decode_byte_literal_inner text = decode_byte_chars (chars text)"

text \<open>\<^verbatim>\<open>decode_scalar_literal_inner\<close>.\<close>

definition decode_scalar_escape :: "nat list \<Rightarrow> (nat \<times> nat list) option" where
  "decode_scalar_escape cs =
     (case cs of
        [] \<Rightarrow> None
      | e # cs1 \<Rightarrow>
          (case simple_escape e of
             Some v \<Rightarrow> Some (v, cs1)
           | None \<Rightarrow>
               if e = ch (CHR ''x'') then decode_hex_pair cs1
               else if e = ch (CHR ''u'') then decode_unicode_escape_scalar cs1
               else None))"

lemma decode_scalar_escape_length:
  "decode_scalar_escape cs = Some (v, cs') \<Longrightarrow> length cs' < length cs"
  by (auto simp: decode_scalar_escape_def split: list.splits option.splits if_splits
      dest!: decode_hex_pair_length decode_unicode_escape_scalar_length)

function decode_scalar_chars :: "nat list \<Rightarrow> nat list option" where
  "decode_scalar_chars [] = Some []"
| "decode_scalar_chars (c # cs) =
     (if c \<noteq> ch backslash then map_option (\<lambda>ns. c # ns) (decode_scalar_chars cs)
      else
        (case decode_scalar_escape cs of
           None \<Rightarrow> None
         | Some (scalar, cs1) \<Rightarrow>
             (case from_u32 scalar of
                None \<Rightarrow> None
              | Some _ \<Rightarrow> map_option (\<lambda>ns. scalar # ns) (decode_scalar_chars cs1))))"
  by pat_completeness auto
termination
  by (relation "measure length") (auto dest: decode_scalar_escape_length)

definition decode_scalar_literal_inner :: "string \<Rightarrow> nat list option" where
  "decode_scalar_literal_inner text = decode_scalar_chars (chars text)"

text \<open>\<^verbatim>\<open>usize::checked_add\<close>.\<close>

definition fits_usize :: "nat \<Rightarrow> bool" where
  "fits_usize n \<longleftrightarrow> n < 2 ^ 64"

definition checked_add_usize :: "nat \<Rightarrow> nat \<Rightarrow> nat option" where
  "checked_add_usize a b = (if fits_usize (a + b) then Some (a + b) else None)"

text \<open>\<^verbatim>\<open>decoded_byte_len\<close>.\<close>

definition byte_escape_len :: "nat list \<Rightarrow> (nat \<times> nat list) option" where
  "byte_escape_len cs =
     (case cs of
        [] \<Rightarrow> None
      | e # cs1 \<Rightarrow>
          if simple_escape e \<noteq> None then Some (1, cs1)
          else if e = ch (CHR ''x'') then map_option (\<lambda>(_, cs2). (1, cs2)) (decode_hex_pair cs1)
          else if e = ch (CHR ''u'') then unicode_escape_byte_len cs1
          else None)"

lemma byte_escape_len_eq:
  "byte_escape_len cs = map_option (\<lambda>(v, cs'). (length v, cs')) (decode_byte_escape cs)"
  by (auto simp: byte_escape_len_def decode_byte_escape_def unicode_escape_byte_len_eq
      option.map_comp comp_def split_def split: list.splits option.splits)

function decoded_byte_len_loop :: "nat \<Rightarrow> nat list \<Rightarrow> nat option" where
  "decoded_byte_len_loop n [] = Some n"
| "decoded_byte_len_loop n (c # cs) =
     (if c \<noteq> ch backslash then
        (case checked_add_usize n (len_utf8 c) of
           None \<Rightarrow> None | Some n1 \<Rightarrow> decoded_byte_len_loop n1 cs)
      else
        (case byte_escape_len cs of
           None \<Rightarrow> None
         | Some (k, cs1) \<Rightarrow>
             (case checked_add_usize n k of
                None \<Rightarrow> None | Some n1 \<Rightarrow> decoded_byte_len_loop n1 cs1)))"
  by pat_completeness auto
termination
  by (relation "measure (\<lambda>(n, cs). length cs)")
    (auto simp: byte_escape_len_eq dest: decode_byte_escape_length)

definition decoded_byte_len :: "string \<Rightarrow> nat option" where
  "decoded_byte_len inner = decoded_byte_len_loop 0 (chars inner)"

text \<open>\<^verbatim>\<open>decoded_scalar_len\<close>; an escape counts as one scalar.\<close>

definition skip_scalar_escape :: "nat list \<Rightarrow> nat list option" where
  "skip_scalar_escape cs =
     (case cs of
        [] \<Rightarrow> None
      | e # cs1 \<Rightarrow>
          if simple_escape e \<noteq> None then Some cs1
          else if e = ch (CHR ''x'') then
            (case decode_hex_pair cs1 of
               None \<Rightarrow> None
             | Some (v, cs2) \<Rightarrow> (case from_u32 v of None \<Rightarrow> None | Some _ \<Rightarrow> Some cs2))
          else if e = ch (CHR ''u'') then map_option snd (decode_unicode_escape_scalar cs1)
          else None)"

lemma skip_scalar_escape_length: "skip_scalar_escape cs = Some cs' \<Longrightarrow> length cs' < length cs"
  by (auto simp: skip_scalar_escape_def split: list.splits option.splits if_splits
      dest!: decode_hex_pair_length decode_unicode_escape_scalar_length)

function decoded_scalar_len_loop :: "nat \<Rightarrow> nat list \<Rightarrow> nat option" where
  "decoded_scalar_len_loop n [] = Some n"
| "decoded_scalar_len_loop n (c # cs) =
     (if c \<noteq> ch backslash then
        (case checked_add_usize n 1 of
           None \<Rightarrow> None | Some n1 \<Rightarrow> decoded_scalar_len_loop n1 cs)
      else
        (case skip_scalar_escape cs of
           None \<Rightarrow> None
         | Some cs1 \<Rightarrow>
             (case checked_add_usize n 1 of
                None \<Rightarrow> None | Some n1 \<Rightarrow> decoded_scalar_len_loop n1 cs1)))"
  by pat_completeness auto
termination
  by (relation "measure (\<lambda>(n, cs). length cs)") (auto dest: skip_scalar_escape_length)

definition decoded_scalar_len :: "string \<Rightarrow> nat option" where
  "decoded_scalar_len inner = decoded_scalar_len_loop 0 (chars inner)"


section \<open>Literals and literal parts\<close>

text \<open>\<^verbatim>\<open>text.strip_prefix(p)?.strip_suffix(q)?\<close>\<close>

definition strip_quotes :: "string \<Rightarrow> string \<Rightarrow> string \<Rightarrow> string option" where
  "strip_quotes p q text = Option.bind (strip_prefix p text) (strip_suffix q)"

definition decode_char_literal :: "string \<Rightarrow> nat option" where
  "decode_char_literal text =
     Option.bind (strip_quotes [squote] [squote] text) (\<lambda>inner.
     Option.bind (decode_scalar_literal_inner inner) (\<lambda>scalars.
       if length scalars = 1 then Some (scalars ! 0) else None))"

definition decode_byte_char_literal :: "string \<Rightarrow> char option" where
  "decode_byte_char_literal text =
     Option.bind (strip_quotes [CHR ''b'', squote] [squote] text) (\<lambda>inner.
     Option.bind (decode_byte_literal_inner inner) (\<lambda>bytes.
       if length bytes = 1 then Some (bytes ! 0) else None))"

definition decode_string_literal_part :: "string \<Rightarrow> nat list option" where
  "decode_string_literal_part text =
     Option.bind (strip_quotes [dquote] [dquote] text) (\<lambda>inner.
     Option.bind (decode_scalar_literal_inner inner) (\<lambda>scalars.
       those (map from_u32 scalars)))"

definition byte_string_inner :: "string \<Rightarrow> string option" where
  "byte_string_inner text =
     Option.bind (or_else (strip_prefix [CHR ''b'', dquote] text) (strip_prefix [dquote] text))
       (strip_suffix [dquote])"

definition decode_byte_string_literal_part :: "string \<Rightarrow> string option" where
  "decode_byte_string_literal_part text =
     Option.bind (byte_string_inner text) decode_byte_literal_inner"

definition string_literal_part_char_len :: "string \<Rightarrow> nat option" where
  "string_literal_part_char_len text =
     Option.bind (strip_quotes [dquote] [dquote] text) decoded_scalar_len"

definition byte_string_literal_part_len :: "string \<Rightarrow> nat option" where
  "byte_string_literal_part_len text = Option.bind (byte_string_inner text) decoded_byte_len"

fun concat_parts :: "(string \<Rightarrow> 'a list option) \<Rightarrow> 'a list \<Rightarrow> string list \<Rightarrow> 'a list option" where
  "concat_parts f out [] = Some out"
| "concat_parts f out (p # ps) =
     (case f p of None \<Rightarrow> None | Some x \<Rightarrow> concat_parts f (out @ x) ps)"

definition eval_string_literal_parts :: "string list \<Rightarrow> nat list option" where
  "eval_string_literal_parts parts = concat_parts decode_string_literal_part [] parts"

definition eval_byte_string_literal_parts :: "string list \<Rightarrow> string option" where
  "eval_byte_string_literal_parts parts = concat_parts decode_byte_string_literal_part [] parts"

definition decode_string_literal_scalars :: "string list \<Rightarrow> nat list option" where
  "decode_string_literal_scalars parts = eval_string_literal_parts parts"

fun sum_parts :: "(string \<Rightarrow> nat option) \<Rightarrow> nat \<Rightarrow> string list \<Rightarrow> nat option" where
  "sum_parts f n [] = Some n"
| "sum_parts f n (p # ps) =
     (case f p of
        None \<Rightarrow> None
      | Some k \<Rightarrow> (case checked_add_usize n k of None \<Rightarrow> None | Some n' \<Rightarrow> sum_parts f n' ps))"

definition string_literal_char_len :: "string list \<Rightarrow> nat option" where
  "string_literal_char_len parts = sum_parts string_literal_part_char_len 0 parts"

definition byte_string_literal_len :: "string list \<Rightarrow> nat option" where
  "byte_string_literal_len parts = sum_parts byte_string_literal_part_len 0 parts"


section \<open>The counted length is the length of the decoded value\<close>

text \<open>\<open>capped n x\<close>: \<open>n\<close> plus the length of \<open>x\<close> as a \<^verbatim>\<open>usize\<close>, when there is an \<open>x\<close> and it fits.\<close>

definition capped :: "nat \<Rightarrow> 'a list option \<Rightarrow> nat option" where
  "capped n x = (case x of None \<Rightarrow> None | Some xs \<Rightarrow> checked_add_usize n (length xs))"

lemma fits_usize_0 [simp]: "fits_usize 0"
  by (simp add: fits_usize_def)

lemma fits_usize_less: "fits_usize n \<Longrightarrow> m \<le> n \<Longrightarrow> fits_usize m"
  by (simp add: fits_usize_def)

lemma capped_append:
  "capped n (map_option (\<lambda>bs. xs @ bs) y) =
     (case checked_add_usize n (length xs) of None \<Rightarrow> None | Some n1 \<Rightarrow> capped n1 y)"
  by (auto simp: capped_def checked_add_usize_def add.assoc split: option.splits intro: fits_usize_less)

lemma capped_Cons:
  "capped n (map_option (\<lambda>bs. x # bs) y) =
     (case checked_add_usize n 1 of None \<Rightarrow> None | Some n1 \<Rightarrow> capped n1 y)"
  using capped_append [of n "[x]" y] by simp

lemma capped_None [simp]: "capped n None = None"
  by (simp add: capped_def)

lemma capped_Nil: "fits_usize n \<Longrightarrow> capped n (Some []) = Some n"
  by (simp add: capped_def checked_add_usize_def)

lemma checked_add_usize_fits: "checked_add_usize a b = Some c \<Longrightarrow> fits_usize c"
  by (auto simp: checked_add_usize_def split: if_splits)

lemma bind_checked_cong:
  assumes "\<And>n1. fits_usize n1 \<Longrightarrow> f n1 = g n1"
  shows "(case checked_add_usize n k of None \<Rightarrow> None | Some n1 \<Rightarrow> f n1) =
    (case checked_add_usize n k of None \<Rightarrow> None | Some n1 \<Rightarrow> g n1)"
  using assms checked_add_usize_fits [of n k] by (cases "checked_add_usize n k") auto

lemma decoded_byte_len_loop_eq:
  "fits_usize n \<Longrightarrow> decoded_byte_len_loop n cs = capped n (decode_byte_chars cs)"
proof (induction cs arbitrary: n rule: decode_byte_chars.induct)
  case 1
  then show ?case by (simp add: capped_Nil)
next
  case (2 c cs)
  show ?case
  proof (cases "c = ch backslash")
    case False
    have "decoded_byte_len_loop n (c # cs) = (case checked_add_usize n (len_utf8 c) of
        None \<Rightarrow> None | Some n1 \<Rightarrow> decoded_byte_len_loop n1 cs)"
      using False by simp
    also have "\<dots> = (case checked_add_usize n (len_utf8 c) of
        None \<Rightarrow> None | Some n1 \<Rightarrow> capped n1 (decode_byte_chars cs))"
      by (rule bind_checked_cong) (rule "2.IH"(1) [OF False])
    also have "\<dots> = capped n (decode_byte_chars (c # cs))"
      using False by (simp add: capped_append)
    finally show ?thesis .
  next
    case True
    show ?thesis
    proof (cases "decode_byte_escape cs")
      case None
      with True show ?thesis by (simp add: byte_escape_len_eq)
    next
      case (Some r)
      obtain v cs1 where r: "r = (v, cs1)" by (cases r)
      have "decoded_byte_len_loop n (c # cs) = (case checked_add_usize n (length v) of
          None \<Rightarrow> None | Some n1 \<Rightarrow> decoded_byte_len_loop n1 cs1)"
        using True Some r by (simp add: byte_escape_len_eq)
      also have "\<dots> = (case checked_add_usize n (length v) of
          None \<Rightarrow> None | Some n1 \<Rightarrow> capped n1 (decode_byte_chars cs1))"
        by (rule bind_checked_cong, rule "2.IH"(2)) (use True Some r in simp_all)
      also have "\<dots> = capped n (decode_byte_chars (c # cs))"
        using True Some r by (simp add: capped_append)
      finally show ?thesis .
    qed
  qed
qed

lemma decode_hex_pair_value: "decode_hex_pair cs = Some (v, cs') \<Longrightarrow> v < 256"
  by (auto simp: decode_hex_pair_def split: list.splits option.splits dest!: to_digit16_less)

lemma decode_unicode_escape_scalar_value:
  "decode_unicode_escape_scalar cs = Some (v, cs') \<Longrightarrow> is_scalar v"
  by (auto simp: decode_unicode_escape_scalar_def from_u32_def bind_eq_Some_conv
      split: list.splits option.splits if_splits)

lemma simple_escape_value: "simple_escape c = Some v \<Longrightarrow> v < 256"
  by (auto simp: simple_escape_def split: if_splits)

lemma is_scalar_byte: "v < 256 \<Longrightarrow> is_scalar v"
  by (simp add: is_scalar_def)

lemma decode_scalar_escape_value: "decode_scalar_escape cs = Some (v, cs') \<Longrightarrow> is_scalar v"
  by (auto simp: decode_scalar_escape_def split: list.splits option.splits if_splits
      dest: decode_hex_pair_value decode_unicode_escape_scalar_value simple_escape_value
      intro: is_scalar_byte)

lemma decode_scalar_chars_escape:
  "c = ch backslash \<Longrightarrow> decode_scalar_chars (c # cs) =
     (case decode_scalar_escape cs of
        None \<Rightarrow> None
      | Some (v, cs') \<Rightarrow> map_option (\<lambda>ns. v # ns) (decode_scalar_chars cs'))"
  using decode_scalar_escape_value [of cs]
  by (cases "decode_scalar_escape cs") (auto simp: from_u32_def)

lemma skip_scalar_escape_eq: "skip_scalar_escape cs = map_option snd (decode_scalar_escape cs)"
proof (cases cs)
  case (Cons e cs1)
  have "from_u32 v = Some v" if "decode_hex_pair cs1 = Some (v, cs2)" for v cs2
    using is_scalar_byte [OF decode_hex_pair_value [OF that]] by (simp add: from_u32_def)
  with Cons show ?thesis
    by (cases "decode_hex_pair cs1")
      (auto simp: skip_scalar_escape_def decode_scalar_escape_def split: option.split)
qed (simp add: skip_scalar_escape_def decode_scalar_escape_def)

lemma decoded_scalar_len_loop_eq:
  "fits_usize n \<Longrightarrow> decoded_scalar_len_loop n cs = capped n (decode_scalar_chars cs)"
proof (induction n cs rule: decoded_scalar_len_loop.induct)
  case (1 n)
  then show ?case by (simp add: capped_Nil)
next
  case (2 n c cs)
  show ?case
  proof (cases "c = ch backslash")
    case False
    have "decoded_scalar_len_loop n1 cs = capped n1 (decode_scalar_chars cs)"
      if "checked_add_usize n 1 = Some n1" for n1
      using False that checked_add_usize_fits [OF that] by (rule "2.IH"(1))
    with False show ?thesis
      by (cases "checked_add_usize n 1") (simp_all add: capped_Cons)
  next
    case True
    have "decoded_scalar_len_loop n1 cs1 = capped n1 (decode_scalar_chars cs1)"
      if "decode_scalar_escape cs = Some (v, cs1)" "checked_add_usize n 1 = Some n1" for v cs1 n1
      by (rule "2.IH"(2) [OF _ _ that(2) checked_add_usize_fits [OF that(2)]])
        (use True that in \<open>simp_all add: skip_scalar_escape_eq\<close>)
    then show ?thesis
      unfolding decoded_scalar_len_loop.simps decode_scalar_chars_escape [OF True]
      using True
      by (cases "decode_scalar_escape cs"; cases "checked_add_usize n 1")
        (auto simp: capped_Cons skip_scalar_escape_eq)
  qed
qed

lemma decoded_byte_len_eq: "decoded_byte_len s = capped 0 (decode_byte_literal_inner s)"
  by (simp add: decoded_byte_len_def decode_byte_literal_inner_def decoded_byte_len_loop_eq)

lemma decoded_scalar_len_eq: "decoded_scalar_len s = capped 0 (decode_scalar_literal_inner s)"
  by (simp add: decoded_scalar_len_def decode_scalar_literal_inner_def decoded_scalar_len_loop_eq)

lemma concat_parts_length: "concat_parts f out ps = Some r \<Longrightarrow> length out \<le> length r"
  by (induction f out ps rule: concat_parts.induct) (auto split: option.splits)

lemma sum_parts_eq:
  assumes "\<And>p. f p = capped 0 (g p)"
  shows "fits_usize (length out) \<Longrightarrow> sum_parts f (length out) ps = capped 0 (concat_parts g out ps)"
proof (induction ps arbitrary: out)
  case Nil
  then show ?case by (simp add: capped_def checked_add_usize_def)
next
  case (Cons p ps)
  show ?case
  proof (cases "g p")
    case (Some x)
    show ?thesis
    proof (cases "fits_usize (length out + length x)")
      case True
      then have "fits_usize (length x)" by (rule fits_usize_less) simp
      with Some True Cons.IH [of "out @ x"] show ?thesis
        by (simp add: assms capped_def checked_add_usize_def)
    next
      case False
      have "concat_parts g (out @ x) ps = Some r \<Longrightarrow> \<not> fits_usize (length r)" for r
        using False fits_usize_less concat_parts_length [of g "out @ x" ps r] by auto
      with Some False show ?thesis
        by (auto simp: assms capped_def checked_add_usize_def split: option.splits)
    qed
  qed (simp add: assms)
qed

lemma decode_utf8_scalars: "decode_utf8 s = Some ns \<Longrightarrow> n \<in> set ns \<Longrightarrow> is_scalar n"
  using decode_utf8_Some by blast

lemma chars_scalars: "n \<in> set (chars s) \<Longrightarrow> is_scalar n"
  by (cases "decode_utf8 s") (auto simp: chars_def dest: decode_utf8_scalars)

lemma decode_scalar_escape_suffix:
  "decode_scalar_escape cs = Some (v, cs') \<Longrightarrow> set cs' \<subseteq> set cs"
  by (auto simp: decode_scalar_escape_def decode_hex_pair_def decode_unicode_escape_scalar_def
      split: list.splits option.splits if_splits
      dest!: set_dropWhileD [OF _ ] arg_cong [of "dropWhile _ _" _ set])

lemma decode_scalar_chars_scalars:
  assumes "decode_scalar_chars cs = Some ns" "\<forall>c \<in> set cs. is_scalar c"
  shows "\<forall>n \<in> set ns. is_scalar n"
  using assms
proof (induction cs arbitrary: ns rule: decode_scalar_chars.induct)
  case (2 c cs)
  then show ?case
    using decode_scalar_escape_suffix [of cs] decode_scalar_escape_value [of cs]
    by (auto split: if_splits option.splits) blast+
qed simp

lemma decode_scalar_literal_inner_scalars:
  "decode_scalar_literal_inner s = Some ns \<Longrightarrow> those (map from_u32 ns) = Some ns"
proof -
  have "those (map from_u32 ns) = Some ns" if "\<forall>n \<in> set ns. is_scalar n"
    using that by (induction ns) (simp_all add: from_u32_def)
  then show "decode_scalar_literal_inner s = Some ns \<Longrightarrow> those (map from_u32 ns) = Some ns"
    using decode_scalar_chars_scalars chars_scalars unfolding decode_scalar_literal_inner_def by blast
qed

lemma decode_string_literal_part_eq:
  "decode_string_literal_part text =
     Option.bind (strip_quotes [dquote] [dquote] text) decode_scalar_literal_inner"
  by (auto simp: decode_string_literal_part_def Option.bind_eq_None_conv bind_eq_Some_conv
      decode_scalar_literal_inner_scalars intro!: option.expand
      split: Option.bind_split)

lemma string_literal_part_char_len_eq:
  "string_literal_part_char_len p = capped 0 (decode_string_literal_part p)"
  by (cases "strip_quotes [dquote] [dquote] p")
    (simp_all add: string_literal_part_char_len_def decode_string_literal_part_eq decoded_scalar_len_eq)

lemma byte_string_literal_part_len_eq:
  "byte_string_literal_part_len p = capped 0 (decode_byte_string_literal_part p)"
  by (cases "byte_string_inner p")
    (simp_all add: byte_string_literal_part_len_def decode_byte_string_literal_part_def decoded_byte_len_eq)


section \<open>Spellings of integers\<close>

text \<open>
  The digits of an integer literal, with a separator allowed between two digits, and the number
  they spell.
\<close>

inductive digit_run :: "nat \<Rightarrow> string \<Rightarrow> nat \<Rightarrow> bool" for radix where
  run_digit: "to_digit16 (byte c) = Some d \<Longrightarrow> d < radix \<Longrightarrow> digit_run radix [c] d"
| run_snoc: "digit_run radix s v \<Longrightarrow> to_digit16 (byte c) = Some d \<Longrightarrow> d < radix \<Longrightarrow>
     digit_run radix (s @ [c]) (v * radix + d)"
| run_sep: "digit_run radix s v \<Longrightarrow> to_digit16 (byte c) = Some d \<Longrightarrow> d < radix \<Longrightarrow>
     digit_run radix (s @ [CHR ''_'', c]) (v * radix + d)"

definition radix_prefixes :: "(string \<times> nat) list" where
  "radix_prefixes =
     [(''0x'', 16), (''0X'', 16), (''0b'', 2), (''0B'', 2), (''0o'', 8), (''0O'', 8), ([], 10)]"

lemma lit_digit_value_eq: "lit_digit_value c = to_digit16 (byte c)"
  by (auto simp: lit_digit_value_def to_digit16_def in_range_def byte_def)

lemma lit_digit_value_lexer: "lit_digit_value c = digit_value c"
  by (simp add: lit_digit_value_def digit_value_def)

lemma is_digit_ofI: "to_digit16 (byte c) = Some d \<Longrightarrow> d < radix \<Longrightarrow> is_digit_of radix c"
  by (auto simp: is_digit_of_def)

lemma is_digit_of_not_sign: "is_digit_of radix c \<Longrightarrow> c \<noteq> CHR ''_'' \<and> c \<noteq> CHR ''+''"
  by (auto simp: is_digit_of_def to_digit16_def byte_def)

lemma lit_digit_below_eq: "lit_digit_below radix (Some c) \<longleftrightarrow> is_digit_of radix c"
  by (auto simp: lit_digit_below_def is_digit_of_def lit_digit_value_eq split: option.split)

lemma digit_run_remove:
  assumes "digit_run radix s v"
  shows "remove_separators s \<noteq> [] \<and> (\<forall>c \<in> set (remove_separators s). is_digit_of radix c)
    \<and> radix_value radix (remove_separators s) = v"
  using assms
  by induction
    (auto simp: remove_separators_def radix_value_def dest: is_digit_ofI is_digit_of_not_sign)

lemma digit_run_ends:
  assumes "digit_run radix s v"
  shows "s \<noteq> [] \<and> is_digit_of radix (hd s) \<and> is_digit_of radix (last s)
    \<and> (\<forall>c \<in> set s. c = CHR ''_'' \<or> is_digit_of radix c)"
  using assms by induction (auto simp: is_digit_of_def)

text \<open>A separator with a digit on either side, at every index.\<close>

definition separated :: "nat \<Rightarrow> string \<Rightarrow> bool" where
  "separated radix s \<longleftrightarrow>
     (\<forall>i < length s. s ! i = CHR ''_'' \<longrightarrow>
        0 < i \<and> is_digit_of radix (s ! (i - 1)) \<and> Suc i < length s \<and> is_digit_of radix (s ! Suc i))"

lemma has_valid_digit_separators_iff: "has_valid_digit_separators s radix \<longleftrightarrow> separated radix s"
proof -
  have below: "lit_digit_below radix (byte_at s j) \<longleftrightarrow> j < length s \<and> is_digit_of radix (s ! j)" for j
    by (simp add: byte_at_def lit_digit_below_eq) (simp add: lit_digit_below_def)
  have at: "(s ! i \<noteq> CHR ''_'' \<or>
       ((if 1 \<le> i then lit_digit_below radix (byte_at s (i - 1)) else False)
        \<and> lit_digit_below radix (byte_at s (i + 1))))
     \<longleftrightarrow> (s ! i = CHR ''_'' \<longrightarrow>
        0 < i \<and> is_digit_of radix (s ! (i - 1)) \<and> Suc i < length s \<and> is_digit_of radix (s ! Suc i))"
    if "i < length s" for i
    using that by (cases i) (simp_all add: below)
  have "list_all P [0..<length s] \<longleftrightarrow> (\<forall>i < length s. P i)" for P
    by (auto simp: list_all_iff)
  then show ?thesis
    unfolding has_valid_digit_separators_def separated_def using at by presburger
qed

lemma separated_append_digit:
  assumes "separated radix s" "is_digit_of radix c"
  shows "separated radix (s @ [c])"
  using assms is_digit_of_not_sign [OF assms(2)]
  by (auto simp: separated_def nth_append less_Suc_eq)

lemma separated_append_sep:
  assumes "separated radix s" "is_digit_of radix c" "s \<noteq> []" "is_digit_of radix (last s)"
  shows "separated radix (s @ [CHR ''_'', c])"
  unfolding separated_def
proof (intro allI impI)
  fix i assume i: "i < length (s @ [CHR ''_'', c])" and sep: "(s @ [CHR ''_'', c]) ! i = CHR ''_''"
  from i consider "i < length s" | "i = length s" | "i = Suc (length s)" by fastforce
  then show "0 < i \<and> is_digit_of radix ((s @ [CHR ''_'', c]) ! (i - 1))
      \<and> Suc i < length (s @ [CHR ''_'', c]) \<and> is_digit_of radix ((s @ [CHR ''_'', c]) ! Suc i)"
  proof cases
    case 1
    then have "i - 1 < length s" by simp
    with 1 show ?thesis using assms(1) sep by (simp add: separated_def nth_append)
  next
    case 2
    then show ?thesis using assms(2-4) by (simp add: nth_append last_conv_nth)
  next
    case 3
    then show ?thesis using sep is_digit_of_not_sign [OF assms(2)] by (simp add: nth_append)
  qed
qed

lemma digit_run_separated: "digit_run radix s v \<Longrightarrow> separated radix s"
proof (induction rule: digit_run.induct)
  case (run_digit c d)
  from is_digit_of_not_sign [OF is_digit_ofI [OF this]] show ?case by (simp add: separated_def)
next
  case (run_snoc s v c d)
  show ?case
    by (rule separated_append_digit [OF run_snoc.IH is_digit_ofI [OF run_snoc.hyps(2,3)]])
next
  case (run_sep s v c d)
  note ends = digit_run_ends [OF run_sep.hyps(1)]
  show ?case
    by (rule separated_append_sep [OF run_sep.IH is_digit_ofI [OF run_sep.hyps(2,3)]]) (use ends in simp_all)
qed

lemma digit_run_from_str_radix:
  assumes "digit_run radix s v" "0 < radix"
  shows "from_str_radix 128 (remove_separators s) radix = (if v < 2 ^ 128 then Some v else None)"
proof -
  let ?d = "remove_separators s"
  note d = digit_run_remove [OF assms(1)]
  then obtain c cs where cs: "?d = c # cs" by (cases ?d) auto
  with d have "c \<noteq> CHR ''+''" using is_digit_of_not_sign [of radix c] by auto
  with cs have "from_str_radix 128 ?d radix = radix_digits 128 radix 0 ?d"
    by (simp add: from_str_radix_def)
  moreover have "radix_digits 128 radix 0 ?d = Some w \<longleftrightarrow> w = v \<and> v < 2 ^ 128" for w
    using radix_digits_eq_Some [OF assms(2), of 0 128 ?d w] d by (auto simp: radix_value_def)
  ultimately show ?thesis by (cases "radix_digits 128 radix 0 ?d") auto
qed

text \<open>
  A suffix that the digits, the radix prefix, the fraction and the exponent do not absorb.
\<close>

definition stops :: "nat \<Rightarrow> string \<Rightarrow> string \<Rightarrow> bool" where
  "stops radix s suf \<longleftrightarrow>
     (case suf of
        [] \<Rightarrow> True
      | c # _ \<Rightarrow>
          c \<noteq> CHR ''_'' \<and>
          (if radix = 10
           then \<not> is_ascii_digit c \<and> c \<notin> set ''.eE'' \<and> (s = ''0'' \<longrightarrow> c \<notin> set ''xXbBoO'')
           else to_digit16 (byte c) = None))"

lemma scan_while_run:
  assumes "\<forall>c \<in> set s. P c" "suf = [] \<or> \<not> P (hd suf)"
  shows "scan_while P (p @ s @ suf) (length p) = length p + length s"
proof -
  have "takeWhile P (s @ suf) = s"
    using assms by (cases suf) (simp_all add: takeWhile_append2 takeWhile_eq_all_conv)
  then show ?thesis by (simp add: scan_while_def)
qed

lemma is_digit_of_10: "is_digit_of 10 c \<Longrightarrow> is_ascii_digit c"
  by (auto simp: is_digit_of_def to_digit16_def is_ascii_digit_def in_range_def byte_def split: if_splits)

lemma radix_prefixes_cases:
  assumes "(p, radix) \<in> set radix_prefixes"
  obtains "p = []" "radix = 10"
    | "length p = 2" "radix \<noteq> 10" "0 < radix" "\<And>r. non_decimal_radix (p @ r)" "\<And>r. radix_split (p @ r) = (radix, r)"
  using assms
  by (auto simp: radix_prefixes_def non_decimal_radix_def starts_with_def radix_split_def
      strip_prefix_def or_else_def)

lemma starts_with_two: "starts_with [c, d] x \<longleftrightarrow> 1 < length x \<and> x ! 0 = c \<and> x ! 1 = d"
  by (cases x; cases "tl x") (auto simp: starts_with_def)

lemma decimal_not_radix_letter: "c = CHR ''_'' \<or> is_ascii_digit c \<Longrightarrow> c \<notin> set ''xXbBoO''"
  by (auto simp: is_ascii_digit_def in_range_def byte_def)

lemma stops_not_radix_letter: "stops 10 ''0'' (c # cs) \<Longrightarrow> c \<notin> set ''xXbBoO''"
  by (auto simp: stops_def)

lemma decimal_second:
  assumes "digit_run 10 s v" "stops 10 s suf" "r = suf \<or> r = []" "1 < length (s @ r)"
    and "(s @ r) ! 0 = CHR ''0''"
  shows "(s @ r) ! 1 \<notin> set ''xXbBoO''"
proof (cases "1 < length s")
  case True
  then have "s ! 1 \<in> set s" by (rule nth_mem)
  with digit_run_ends [OF assms(1)] have "s ! 1 = CHR ''_'' \<or> is_digit_of 10 (s ! 1)" by blast
  then have "s ! 1 = CHR ''_'' \<or> is_ascii_digit (s ! 1)" using is_digit_of_10 by blast
  with True show ?thesis
    by (simp only: nth_append if_True decimal_not_radix_letter not_False_eq_True)
next
  case False
  moreover have "s \<noteq> []" using digit_run_ends [OF assms(1)] by simp
  ultimately obtain a where "s = [a]" by (cases s) auto
  with assms(5) have s: "s = ''0''" by simp
  with assms(4) obtain c cs where r: "r = c # cs" by (cases r) auto
  with assms(2,3) s have "stops 10 ''0'' (c # cs)" by auto
  from stops_not_radix_letter [OF this] s r show ?thesis by simp
qed

lemma decimal_start:
  assumes "digit_run 10 s v" "stops 10 s suf" "r = suf \<or> r = []"
  shows "\<not> non_decimal_radix (s @ r)" "radix_split (s @ r) = (10, s @ r)"
proof -
  have no: "\<not> starts_with [CHR ''0'', d] (s @ r)" if "d \<in> set ''xXbBoO''" for d
    using that decimal_second [OF assms] unfolding starts_with_two by metis
  note nos = no [of "CHR ''x''"] no [of "CHR ''X''"] no [of "CHR ''b''"]
    no [of "CHR ''B''"] no [of "CHR ''o''"] no [of "CHR ''O''"]
  show "\<not> non_decimal_radix (s @ r)" using nos by (simp add: non_decimal_radix_def)
  show "radix_split (s @ r) = (10, s @ r)"
    using nos by (simp add: radix_split_def strip_prefix_def or_else_def)
qed

lemma byte_at_end: "byte_at (x @ suf) (length x) = (case suf of [] \<Rightarrow> None | c # _ \<Rightarrow> Some c)"
  by (simp add: byte_at_def split: list.split)

lemma stops_decimal:
  assumes "stops 10 s suf"
  shows "byte_at (x @ suf) (length x) \<notin> Some ` set ''.eE''"
    "suf = [] \<or> \<not> (hd suf = CHR ''_'' \<or> is_ascii_digit (hd suf))"
  using assms by (auto simp: byte_at_end stops_def split: list.splits)

lemma stops_radix:
  "stops radix s suf \<Longrightarrow> radix \<noteq> 10 \<Longrightarrow>
     suf = [] \<or> \<not> (hd suf = CHR ''_'' \<or> lit_digit_value (hd suf) \<noteq> None)"
  by (auto simp: stops_def lit_digit_value_eq split: list.splits)

lemma numeric_suffix_start_decimal:
  assumes "digit_run 10 s v" "stops 10 s suf"
  shows "numeric_suffix_start (s @ suf) = (if suf = [] then None else Some (length s))"
proof -
  have nd: "\<not> non_decimal_radix (s @ suf)" using assms by (rule decimal_start) simp
  have "\<forall>c \<in> set s. c = CHR ''_'' \<or> is_ascii_digit c"
    using digit_run_ends [OF assms(1)] is_digit_of_10 by blast
  from scan_while_run [OF this stops_decimal(2) [OF assms(2)], of "[]"]
  have "scan_while (\<lambda>b. b = CHR ''_'' \<or> is_ascii_digit b) (s @ suf) 0 = length s" by simp
  with nd stops_decimal(1) [OF assms(2), of s] show ?thesis
    by (simp add: numeric_suffix_start_def Let_def)
qed

lemma numeric_suffix_start_radix:
  assumes "digit_run radix s v" "stops radix s suf" "radix \<noteq> 10" "length p = 2"
    and "non_decimal_radix (p @ s @ suf)"
  shows "numeric_suffix_start (p @ s @ suf) = (if suf = [] then None else Some (2 + length s))"
proof -
  have "\<forall>c \<in> set s. c = CHR ''_'' \<or> lit_digit_value c \<noteq> None"
    using digit_run_ends [OF assms(1)] by (auto simp: is_digit_of_def lit_digit_value_eq)
  from scan_while_run [OF this stops_radix [OF assms(2,3)], of p]
  have "scan_while (\<lambda>b. b = CHR ''_'' \<or> lit_digit_value b \<noteq> None) (p @ s @ suf) 2 = 2 + length s"
    using assms(4) by simp
  with assms(4,5) show ?thesis
    by (simp add: numeric_suffix_start_def Let_def)
qed

lemma eval_int_literal_run:
  assumes "(p, radix) \<in> set radix_prefixes" "digit_run radix s v" "stops radix s suf"
  shows "eval_int_literal (p @ s @ suf) =
    (if suf \<noteq> [] \<and> \<not> is_integer_suffix suf then Err InvalidInteger
     else if v < 2 ^ 128 then Ok v else Err IntegerOutOfRange)"
proof -
  have radix: "0 < radix" using assms(1) by (auto simp: radix_prefixes_def)
  have start: "numeric_suffix_start (p @ s @ suf) = (if suf = [] then None else Some (length p + length s))"
    and split: "radix_split (p @ s) = (radix, s)"
    using assms(1)
    by (atomize(full), cases rule: radix_prefixes_cases)
      (use assms(2,3) decimal_start(2) [of s v suf "[]"] in
        \<open>simp_all add: numeric_suffix_start_decimal numeric_suffix_start_radix\<close>)
  have sep: "has_valid_digit_separators s radix"
    unfolding has_valid_digit_separators_iff using assms(2) by (rule digit_run_separated)
  have "numeric_literal_suffix (p @ s @ suf) = (if suf = [] then None else Some suf)"
    by (simp add: numeric_literal_suffix_def start)
  moreover have "numeric_literal_body (p @ s @ suf) = p @ s"
    by (simp add: numeric_literal_body_def start)
  ultimately show ?thesis
    using split sep digit_run_remove [OF assms(2)] digit_run_from_str_radix [OF assms(2) radix]
    by (cases "suf = []") (simp_all add: eval_int_literal_def parse_int_literal_def ok_or_def Let_def)
qed

lemma integer_suffix_stops:
  assumes "suf = [] \<or> is_integer_suffix suf" "(p, radix) \<in> set radix_prefixes"
  shows "stops radix s suf"
  using assms by (auto simp: is_integer_suffix_def radix_prefixes_def stops_def is_ascii_digit_def
      in_range_def to_digit16_def byte_def)


section \<open>Properties of literal decoding\<close>

text \<open>
  C9. Every spelling of an integer is read back as the integer it spells: a radix prefix, digits of
  that radix with single separators between digits, and an optional integer type suffix evaluate
  to the number the digits denote, or to the out-of-range error when it does not fit 128 bits.
\<close>

theorem eval_int_literal_value:
  assumes "(p, radix) \<in> set radix_prefixes" "digit_run radix s v"
    and "suf = [] \<or> is_integer_suffix suf"
  shows "eval_int_literal (p @ s @ suf) =
    (if v < 2 ^ 128 then Ok v else Err IntegerOutOfRange)"
  using eval_int_literal_run [OF assms(1,2) integer_suffix_stops [OF assms(3,1)]] assms(3)
  by (auto simp: is_integer_suffix_def)

theorem eval_int_literal_value_witness:
  "(''0x'', 16) \<in> set radix_prefixes \<and> digit_run 16 ''F_f'' 255 \<and> is_integer_suffix ''u8''
   \<and> eval_int_literal ''0xF_fu8'' = Ok 255"
proof -
  have run: "digit_run 16 ''F_f'' 255"
    using run_sep [OF run_digit [of "CHR ''F''" 15 16], of "CHR ''f''" 15]
    by (simp add: to_digit16_def byte_def)
  have p: "(''0x'', 16) \<in> set radix_prefixes" by (simp add: radix_prefixes_def)
  have suf: "is_integer_suffix ''u8''" by (simp add: is_integer_suffix_def)
  show ?thesis
    using eval_int_literal_value [OF p run disjI2 [OF suf]] p run suf by simp
qed

text \<open>
  C10. The lengths computed without decoding are the lengths of the decoded values: the character
  count of string parts and the byte count of byte-string parts exist exactly when the parts decode
  and the total fits a \<^verbatim>\<open>usize\<close>, and are then the number of decoded scalars and bytes.
\<close>

theorem literal_lengths_correct:
  "string_literal_char_len parts =
     (case decode_string_literal_scalars parts of
        None \<Rightarrow> None
      | Some ns \<Rightarrow> if length ns < 2 ^ 64 then Some (length ns) else None)
   \<and> byte_string_literal_len parts =
     (case eval_byte_string_literal_parts parts of
        None \<Rightarrow> None
      | Some bs \<Rightarrow> if length bs < 2 ^ 64 then Some (length bs) else None)"
  unfolding string_literal_char_len_def decode_string_literal_scalars_def eval_string_literal_parts_def
    byte_string_literal_len_def eval_byte_string_literal_parts_def
  using sum_parts_eq [of string_literal_part_char_len decode_string_literal_part "[]" parts]
    sum_parts_eq [of byte_string_literal_part_len decode_byte_string_literal_part "[]" parts]
  by (simp add: string_literal_part_char_len_eq byte_string_literal_part_len_eq capped_def
      checked_add_usize_def fits_usize_def split: option.splits)

end
