(* ===== verification/Nia_Lexer_Literals.thy ===== *)
theory Nia_Lexer_Literals
  imports Nia_Literals
begin

text \<open>
  The lexer (\<^verbatim>\<open>crates/nia-lexer\<close>) and the literal decoders (\<^verbatim>\<open>crates/nia-literals\<close>) are two
  implementations of the same escape and digit syntax: the lexer scans bytes, the decoders read
  the text of a finished token. This theory shows that they agree: the text of every literal
  token the lexer produces is accepted by the decoder of that kind.
\<close>

section \<open>The input that is left\<close>

definition left :: "tokenizer \<Rightarrow> string" where
  "left t = drop (pos t) (source t)"

lemma peek_left: "peek t = (case left t of [] \<Rightarrow> None | c # _ \<Rightarrow> Some c)"
  by (simp add: peek_def byte_at_def left_def drop_Cons' Cons_nth_drop_Suc [symmetric] split: list.split)

lemma left_bumped: "left (bumped t) = tl (left t)"
  by (simp add: left_def bumped_pos drop_Suc tl_drop)

lemma left_bump_while: "left (bump_while p t) = dropWhile p (left t)"
proof (induction p t rule: bump_while.induct)
  case (1 p t)
  show ?case
  proof (cases "left t")
    case Nil
    then show ?thesis by (simp add: bump_while.simps [of p t] peek_is_def peek_left)
  next
    case (Cons c cs)
    with 1 show ?thesis
      by (simp add: bump_while.simps [of p t] peek_is_def peek_left left_bumped)
  qed
qed

lemma left_split:
  assumes "adv t t'" "pos t \<le> length (source t)"
  shows "left t = subslice (pos t) (pos t') (source t) @ left t'"
  using assms by (auto simp: left_def subslice_def adv_def max_def)
    (metis append_take_drop_id drop_drop le_add_diff_inverse2)

text \<open>\<open>reads t cs\<close>: what is left of the input are the scalars \<open>cs\<close>.\<close>

definition reads :: "tokenizer \<Rightarrow> nat list \<Rightarrow> bool" where
  "reads t cs \<longleftrightarrow> left t = encode_str cs \<and> (\<forall>c \<in> set cs. is_scalar c)"

lemma encode_str_simps [simp]:
  "encode_str [] = []" "encode_str (c # cs) = encode_utf8 c @ encode_str cs"
  "encode_str (cs @ ds) = encode_str cs @ encode_str ds"
  by (simp_all add: encode_str_def)

lemma encode_utf8_ascii: "is_ascii b \<Longrightarrow> encode_utf8 (of_char b) = [b]"
  by (simp add: encode_utf8_def is_ascii_def byte_def)

lemma decode_utf8_single: "is_scalar c \<Longrightarrow> decode_utf8 (encode_utf8 c) = Some [c]"
  using decode_utf8_encode [of c "[]"] by simp

lemma ascii_scalar: "is_ascii b \<Longrightarrow> is_scalar (of_char b)"
  by (simp add: is_scalar_def is_ascii_def byte_def)

lemma reads_Cons_ascii:
  assumes "reads t cs" "peek t = Some b" "is_ascii b"
  obtains cs' where "cs = of_char b # cs'" "reads (bumped t) cs'"
proof (cases cs)
  case Nil
  with assms show ?thesis by (simp add: reads_def peek_left)
next
  case (Cons c cs')
  have c: "is_scalar c" "left t = encode_utf8 c @ encode_str cs'" using assms(1) Cons by (auto simp: reads_def)
  then have "hd (encode_utf8 c) = b" using assms(2) by (cases "encode_utf8 c") (auto simp: peek_left)
  then have "len_utf8 c = 1" using ascii_encode assms(3) c(1) by blast
  then have "encode_utf8 c = [b]"
    using length_encode_utf8 [of c] \<open>hd (encode_utf8 c) = b\<close> by (cases "encode_utf8 c") auto
  moreover from this have "c = of_char b"
    using decode_utf8_single [OF c(1)] decode_utf8_single [OF ascii_scalar [OF assms(3)]]
      encode_utf8_ascii [OF assms(3)] by simp
  ultimately show ?thesis
    using that [of cs'] assms(1) Cons by (auto simp: reads_def left_bumped)
qed

lemma reads_bumped_ascii:
  assumes "reads t cs" "peek_is p t" "\<And>b. p b \<Longrightarrow> is_ascii b"
  shows "\<exists>b cs'. p b \<and> peek t = Some b \<and> cs = of_char b # cs' \<and> reads (bumped t) cs'"
proof -
  obtain b where b: "peek t = Some b" "p b" using assms(2) by (auto simp: peek_is_def split: option.splits)
  show ?thesis
    using assms(1) b(1) assms(3) [OF b(2)] by (rule reads_Cons_ascii) (use b in blast)
qed

lemma reads_bump_while:
  assumes "reads t cs" "\<And>b. p b \<Longrightarrow> is_ascii b"
  shows "\<exists>ds cs'. cs = map of_char ds @ cs' \<and> (\<forall>d \<in> set ds. p d) \<and> reads (bump_while p t) cs'
    \<and> pos (bump_while p t) = pos t + length ds"
  using assms
proof (induction p t arbitrary: cs rule: bump_while.induct)
  case (1 p t)
  show ?case
  proof (cases "peek_is p t")
    case False
    with "1.prems" show ?thesis by (intro exI [of _ "[]"] exI [of _ cs]) (simp add: bump_while.simps [of p t])
  next
    case True
    obtain b cs' where b: "p b" "cs = of_char b # cs'" "reads (bumped t) cs'"
      using reads_bumped_ascii [OF "1.prems"(1) True] "1.prems"(2) by blast
    with "1.IH" [OF True b(3)] "1.prems"(2) obtain ds cs'' where "cs' = map of_char ds @ cs''"
      "\<forall>d \<in> set ds. p d" "reads (bump_while p (bumped t)) cs''"
      "pos (bump_while p (bumped t)) = pos (bumped t) + length ds" by blast
    with b True peek_is_less [OF True] show ?thesis
      by (intro exI [of _ "b # ds"] exI [of _ cs'']) (simp add: bump_while.simps [of p t] bumped_pos)
  qed
qed

lemma encode_ascii_list: "(\<forall>d \<in> set ds. is_ascii d) \<Longrightarrow> encode_str (map of_char ds) = ds"
  by (induction ds) (simp_all add: encode_utf8_ascii)


section \<open>Escapes\<close>

text \<open>
  \<open>escapes E v\<close>: the characters \<open>E\<close> after a backslash are one escape for both decoders, whatever
  follows; it stands for the scanned value \<open>v\<close>.
\<close>

definition escapes :: "nat list \<Rightarrow> char_value \<Rightarrow> bool" where
  "escapes E v \<longleftrightarrow>
     (\<forall>zs. decode_scalar_escape (E @ zs) = Some (cv_value v, zs)) \<and>
     (\<exists>bs. length bs = byte_len v
        \<and> (\<forall>zs. decode_byte_escape (E @ zs) = Some (bs, zs)))"

lemma digit_value_hex: "digit_value b = to_digit16 (of_char b)"
  using lit_digit_value_eq [of b] lit_digit_value_lexer [of b] by (simp add: byte_def)

lemma simple_escape_escapes: "simple_escape c = Some v \<Longrightarrow> escapes [c] (one_byte v)"
  by (auto simp: escapes_def one_byte_def decode_scalar_escape_def decode_byte_escape_def)

lemma not_simple_escape [simp]:
  "simple_escape (of_char (CHR ''x'')) = None" "simple_escape (of_char (CHR ''u'')) = None"
  by (simp_all add: simple_escape_def)

lemma hex_escape:
  assumes "digit_value h = Some hi" "digit_value l = Some lo"
  shows "escapes [of_char (CHR ''x''), of_char h, of_char l] (one_byte (hi * 16 + lo))"
  using assms not_simple_escape(1)
  by (auto simp: escapes_def one_byte_def decode_scalar_escape_def decode_byte_escape_def
      decode_hex_pair_def digit_value_hex)

lemma hex_pair_value:
  assumes "digit_value h = Some hi" "digit_value l = Some lo"
  shows "from_str_radix 32 [h, l] 16 = Some (hi * 16 + lo)"
proof -
  have "hi < 16" "lo < 16" using assms by (auto simp: digit_value_hex dest: to_digit16_less)
  moreover have "h \<noteq> CHR ''+''" using assms by (auto simp: digit_value_def in_range_def byte_def)
  ultimately show ?thesis
    using assms by (simp add: from_str_radix_def digit_value_hex byte_def)
qed

lemma unicode_escape:
  assumes "\<forall>d \<in> set ds. digit_value d \<noteq> None"
    and "Option.bind (from_str_radix 32 ds 16) from_u32 = Some v"
  shows "escapes (of_char (CHR ''u'') # of_char (CHR 0x7B) # map of_char ds @ [of_char (CHR 0x7D)])
    \<lparr>cv_value = v, byte_len = len_utf8 v\<rparr>"
proof -
  have ascii: "\<forall>d \<in> set ds. is_ascii d" using assms(1) ascii_classes(4) by blast
  have "\<forall>d \<in> set ds. of_char d \<noteq> (125 :: nat)"
    using assms(1) by (auto simp: digit_value_hex to_digit16_def split: if_splits)
  then have "takeWhile (\<lambda>c. c \<noteq> 125) (map of_char ds @ 125 # zs) = map of_char ds
      \<and> dropWhile (\<lambda>c. c \<noteq> 125) (map of_char ds @ 125 # zs) = 125 # zs" for zs :: "nat list"
    by (induction ds) auto
  then have "decode_unicode_escape_scalar (123 # map of_char ds @ 125 # zs) = Some (v, zs)" for zs
    using assms(2) encode_ascii_list [OF ascii] by (simp add: decode_unicode_escape_scalar_def)
  then show ?thesis
    using not_simple_escape(2)
    by (simp add: escapes_def decode_scalar_escape_def decode_byte_escape_def)
qed

lemma scan_escape_eq:
  "scan_escape t =
     (case peek t of
        None \<Rightarrow> (None, bumped t)
      | Some b \<Rightarrow>
          (case simple_escape (of_char b) of
             Some w \<Rightarrow> (Some (Some (one_byte w)), bumped t)
           | None \<Rightarrow>
               if b = CHR ''x'' then
                 (case consume_exact_hex_digits 2 (bumped t) of (v, t2) \<Rightarrow> (Some (map_option one_byte v), t2))
               else if b = CHR ''u'' then
                 (case scan_unicode_escape (bumped t) of (v, t2) \<Rightarrow> (Some v, t2))
               else (Some None, bumped t)))"
proof (cases "peek t")
  case (Some b)
  show ?thesis
    unfolding scan_escape_def bump_peek Some simple_escape_def of_char_eq_iff prod.case option.case
    by (simp only: if_distrib [of "case_option _ _"] option.case cong: if_cong)
qed (simp add: scan_escape_def bump_peek)

lemma simple_escape_ascii: "simple_escape (of_char b) = Some w \<Longrightarrow> is_ascii b"
  by (auto simp: simple_escape_def is_ascii_def byte_def split: if_splits)

lemma peek_bumpedD: "peek t = Some b \<Longrightarrow> pos (bumped t) = Suc (pos t) \<and> source (bumped t) = source t"
  by (auto simp: bumped_pos peek_def byte_at_def split: if_splits)

lemma subslice_two:
  assumes "peek t = Some h" "peek (bumped t) = Some l"
  shows "subslice (pos t) (pos (bumped (bumped t))) (source t) = [h, l]"
  using peek_bumpedD [OF assms(1)] peek_bumpedD [OF assms(2)] assms
  by (auto simp: peek_def byte_at_def subslice_Cons split: if_splits)

lemma scan_hex_escape:
  assumes "reads t cs" "consume_exact_hex_digits 2 t = (Some w, t')"
  shows "\<exists>h l hi lo cs'. cs = of_char h # of_char l # cs' \<and> reads t' cs' \<and> digit_value h = Some hi
    \<and> digit_value l = Some lo \<and> w = hi * 16 + lo"
proof -
  have "hex_digits_loop 2 t = (True, t')" and w: "from_str_radix 32 (subslice (pos t) (pos t') (source t)) 16 = Some w"
    using assms(2) by (auto simp: consume_exact_hex_digits_def split: prod.splits bool.splits)
  then obtain h l where h: "peek t = Some h" "digit_below 16 h" "peek (bumped t) = Some l" "digit_below 16 l"
    and t': "t' = bumped (bumped t)"
    by (auto simp: numeral_2_eq_2 split: option.splits if_splits)
  obtain hi lo where d: "digit_value h = Some hi" "digit_value l = Some lo"
    using h(2,4) by (auto simp: digit_below_def split: option.splits)
  have "is_ascii h" "is_ascii l" using h(2,4) ascii_classes(5) by blast+
  with assms(1) h(1,3) obtain cs' where "cs = of_char h # of_char l # cs'" "reads t' cs'"
    unfolding t' by (metis reads_Cons_ascii)
  moreover have "w = hi * 16 + lo"
    using w hex_pair_value [OF d] subslice_two [OF h(1,3)] by (simp add: t')
  ultimately show ?thesis using d by blast
qed

lemma scan_unicode_escape_reads:
  assumes "reads t cs" "scan_unicode_escape t = (Some v, t')"
  shows "\<exists>ds cs'. cs = of_char (CHR 0x7B) # map of_char ds @ of_char (CHR 0x7D) # cs' \<and> reads t' cs'
    \<and> (\<forall>d \<in> set ds. digit_value d \<noteq> None)
    \<and> Option.bind (from_str_radix 32 ds 16) from_u32 = Some (cv_value v)
    \<and> byte_len v = len_utf8 (cv_value v)"
proof -
  let ?hex = "\<lambda>b. digit_value b \<noteq> None" and ?t1 = "bumped t"
  let ?t2 = "bump_while ?hex ?t1"
  have open_b: "peek t = Some (CHR 0x7B)" and close_b: "peek ?t2 = Some (CHR 0x7D)" and t': "t' = bumped ?t2"
    and v: "Option.bind (from_str_radix 32 (subslice (pos ?t1) (pos t' - 1) (source t)) 16) from_u32 = Some (cv_value v)"
      "byte_len v = len_utf8 (cv_value v)"
    using assms(2)
    by (auto simp: scan_unicode_escape_def bump_peek Let_def split: if_splits option.splits)
  obtain cs1 where cs1: "cs = of_char (CHR 0x7B) # cs1" "reads ?t1 cs1"
    using assms(1) open_b by (rule reads_Cons_ascii) (simp add: is_ascii_def byte_def)
  obtain ds cs2 where ds: "cs1 = map of_char ds @ cs2" "\<forall>d \<in> set ds. ?hex d" "reads ?t2 cs2"
    "pos ?t2 = pos ?t1 + length ds"
    using reads_bump_while [OF cs1(2), of ?hex] ascii_classes(4) by blast
  obtain cs3 where cs3: "cs2 = of_char (CHR 0x7D) # cs3" "reads t' cs3"
    using ds(3) close_b unfolding t' by (rule reads_Cons_ascii) (simp add: is_ascii_def byte_def)
  have src: "source ?t1 = source t" "pos ?t1 = Suc (pos t)" "pos t < length (source t)"
    using peek_bumpedD [OF open_b] open_b by (auto simp: peek_def byte_at_def split: if_splits)
  have "encode_str (map of_char ds) = ds"
    using ds(2) ascii_classes(4) by (intro encode_ascii_list) blast
  then have "left ?t1 = ds @ encode_str cs2" using cs1(2) ds(1) by (simp add: reads_def)
  then have "subslice (pos ?t1) (pos t' - 1) (source t) = ds"
    using ds(4) peek_bumpedD [OF close_b] src by (simp add: t' left_def subslice_def)
  with v cs1 ds(1,2) cs3 show ?thesis by auto
qed

lemma reads_first:
  "reads t cs \<Longrightarrow> peek t = Some b \<Longrightarrow> is_ascii b \<Longrightarrow> \<exists>cs'. cs = of_char b # cs' \<and> reads (bumped t) cs'"
  by (erule reads_Cons_ascii) blast+

lemma scan_escape_escapes:
  assumes "reads t cs" "scan_escape t = (Some (Some v), t')"
  shows "\<exists>E cs'. cs = E @ cs' \<and> reads t' cs' \<and> escapes E v"
proof -
  obtain b where b: "peek t = Some b"
    using assms(2) by (cases "peek t") (simp_all add: scan_escape_eq)
  note esc = assms(2) [unfolded scan_escape_eq b option.case]
  note first = reads_first [OF assms(1) b]
  show ?thesis
  proof (cases "simple_escape (of_char b)")
    case (Some w)
    with esc have v: "v = one_byte w" "t' = bumped t" by simp_all
    from first [OF simple_escape_ascii [OF Some]] obtain cs1 where "cs = of_char b # cs1" "reads t' cs1"
      unfolding v by blast
    with simple_escape_escapes [OF Some] v show ?thesis
      by (intro exI [of _ "[of_char b]"] exI [of _ cs1]) simp
  next
    case None
    then have esc: "(if b = CHR ''x'' then
          (case consume_exact_hex_digits 2 (bumped t) of (v, t2) \<Rightarrow> (Some (map_option one_byte v), t2))
        else if b = CHR ''u'' then (case scan_unicode_escape (bumped t) of (v, t2) \<Rightarrow> (Some v, t2))
        else (Some None, bumped t)) = (Some (Some v), t')" using esc by simp
    then consider "b = CHR ''x''" | "b = CHR ''u''" "b \<noteq> CHR ''x''" by (auto split: if_splits)
    then show ?thesis
    proof cases
      case 1
      then obtain w where w: "consume_exact_hex_digits 2 (bumped t) = (Some w, t')" "v = one_byte w"
        using esc by (cases "consume_exact_hex_digits 2 (bumped t)") auto
      have "is_ascii b" using 1 by (simp add: is_ascii_def byte_def)
      from first [OF this] obtain cs1 where cs1: "cs = of_char b # cs1" "reads (bumped t) cs1" by blast
      from scan_hex_escape [OF cs1(2) w(1)] obtain h l hi lo cs' where
        h: "cs1 = of_char h # of_char l # cs'" "reads t' cs'" "digit_value h = Some hi"
        "digit_value l = Some lo" "w = hi * 16 + lo" by blast
      show ?thesis
        by (intro exI [of _ "[of_char b, of_char h, of_char l]"] exI [of _ cs'])
          (use hex_escape [OF h(3,4)] cs1 h w 1 in simp)
    next
      case 2
      then have v: "scan_unicode_escape (bumped t) = (Some v, t')"
        using esc by (cases "scan_unicode_escape (bumped t)") auto
      have "is_ascii b" using 2 by (simp add: is_ascii_def byte_def)
      from first [OF this] obtain cs1 where cs1: "cs = of_char b # cs1" "reads (bumped t) cs1" by blast
      from scan_unicode_escape_reads [OF cs1(2) v] obtain ds cs' where
        ds: "cs1 = of_char (CHR 0x7B) # map of_char ds @ of_char (CHR 0x7D) # cs'" "reads t' cs'"
        "\<forall>d \<in> set ds. digit_value d \<noteq> None"
        "Option.bind (from_str_radix 32 ds 16) from_u32 = Some (cv_value v)"
        "byte_len v = len_utf8 (cv_value v)" by blast
      let ?E = "of_char b # of_char (CHR 0x7B) # map of_char ds @ [of_char (CHR 0x7D)]"
      have "escapes ?E v" using unicode_escape [OF ds(3,4)] ds(5) 2 by (simp add: escapes_def)
      then show ?thesis
        by (intro exI [of _ ?E] exI [of _ cs']) (use cs1 ds(1,2) in simp)
    qed
  qed
qed

section \<open>String tokens\<close>

text \<open>\<open>decodes E\<close>: both string decoders accept the characters \<open>E\<close> between the quotes.\<close>

definition decodes :: "nat list \<Rightarrow> bool" where
  "decodes E \<longleftrightarrow> decode_scalar_chars E \<noteq> None \<and> decode_byte_chars E \<noteq> None \<and> (\<forall>c \<in> set E. is_scalar c)"

lemma decodes_Nil [simp]: "decodes []"
  by (simp add: decodes_def)

lemma decodes_Cons: "c \<noteq> of_char backslash \<Longrightarrow> is_scalar c \<Longrightarrow> decodes E \<Longrightarrow> decodes (c # E)"
  by (auto simp: decodes_def)

lemma escapes_scalar: "escapes E v \<Longrightarrow> is_scalar (cv_value v)"
  using decode_scalar_escape_value [of E "cv_value v" "[]"] by (auto simp: escapes_def dest: spec [of _ "[]"])

lemma decode_escape_append:
  assumes "escapes E v"
  shows "decode_scalar_chars (of_char backslash # E @ F) = map_option ((#) (cv_value v)) (decode_scalar_chars F)"
    "\<exists>bs. length bs = byte_len v \<and>
      decode_byte_chars (of_char backslash # E @ F) = map_option ((@) bs) (decode_byte_chars F)"
  using assms escapes_scalar [OF assms] by (auto simp: escapes_def from_u32_def)

lemma decodes_escape:
  assumes "escapes E v" "decodes F" "\<forall>c \<in> set E. is_scalar c"
  shows "decodes (of_char backslash # E @ F)"
  using decode_escape_append [OF assms(1), of F] assms(2,3)
  by (auto simp: decodes_def is_scalar_def)

lemma encode_first:
  assumes "is_scalar c" "encode_utf8 c = b # bs"
  shows "is_ascii b \<Longrightarrow> bs = [] \<and> c = of_char b" "\<forall>w \<in> set bs. \<not> is_ascii w"
proof -
  show "\<forall>w \<in> set bs. \<not> is_ascii w"
    using tl_encode_utf8_cont [of _ c] ascii_not_cont assms(2) by auto
  assume b: "is_ascii b"
  have "len_utf8 c = 1" using ascii_encode [of c] assms b by simp
  then have bs: "bs = []" using length_encode_utf8 [of c] assms(2) by simp
  moreover have "c = of_char b"
    using decode_utf8_single [OF assms(1)] decode_utf8_single [OF ascii_scalar [OF b]]
      encode_utf8_ascii [OF b] assms(2) bs by simp
  ultimately show "bs = [] \<and> c = of_char b" by simp
qed

lemma string_loop_bad: "string_loop start k True t = (tok, t') \<Longrightarrow> kind tok \<in> range Error"
proof (induction start k True t rule: string_loop.induct)
  case (1 start k t)
  note loop = "1.prems" [unfolded string_loop.simps [of start k True t]]
  show ?case
  proof (cases "peek t")
    case None
    with loop show ?thesis by (auto simp: ret_token_def mk_token_def)
  next
    case (Some b)
    with loop 1 show ?thesis
      by (auto simp: ret_token_def mk_token_def split: if_splits prod.splits)
  qed
qed

text \<open>
  The string loop stands inside a character: \<open>ws\<close> are its remaining continuation bytes. When it
  returns the success kind, it has consumed \<open>ws\<close>, decodable characters and the closing quote.
\<close>

lemma string_loop_reads:
  assumes "string_loop start k bad t = (tok, t')" "kind tok = k" "k \<notin> range Error"
    and "left t = ws @ encode_str cs" "\<forall>w \<in> set ws. \<not> is_ascii w" "\<forall>c \<in> set cs. is_scalar c"
  shows "\<not> bad \<and> (\<exists>E. left t = ws @ encode_str E @ dquote # left t' \<and> decodes E)"
  using assms
proof (induction start k bad t arbitrary: ws cs rule: string_loop.induct)
  case (1 start k bad t)
  note loop = "1.prems"(1) [unfolded string_loop.simps [of start k bad t]]
  obtain b where b: "peek t = Some b"
    using loop "1.prems"(2,3) by (cases "peek t") (auto simp: ret_token_def mk_token_def)
  then obtain rs where rs: "left t = b # rs" by (auto simp: peek_left split: list.splits)
  have left1: "left (bumped t) = rs" by (simp add: left_bumped rs)
  show ?case
  proof (cases "is_ascii b")
    case False
    then have ne: "b \<noteq> dquote" "b \<noteq> newline" "b \<noteq> carriage" "b \<noteq> backslash" by auto
    with loop b have loop1: "string_loop start k bad (bumped t) = (tok, t')" by simp
    have "\<exists>ws' cs'. rs = ws' @ encode_str cs' \<and> (\<forall>w \<in> set ws'. \<not> is_ascii w) \<and> (\<forall>c \<in> set cs'. is_scalar c)
      \<and> (\<forall>E. decodes E \<longrightarrow> (\<exists>E'. b # ws' @ encode_str E = ws @ encode_str E' \<and> decodes E'))"
    proof (cases ws)
      case (Cons w ws')
      with "1.prems" rs show ?thesis by auto
    next
      case Nil
      with "1.prems" rs obtain c cs' where cs: "cs = c # cs'" by (cases cs) auto
      with "1.prems"(4,6) rs Nil obtain bs where bs: "encode_utf8 c = b # bs" "rs = bs @ encode_str cs'"
        by (cases "encode_utf8 c") auto
      have c: "is_scalar c" using cs "1.prems"(6) by simp
      have "c \<noteq> of_char backslash"
        using bs(1) False encode_utf8_ascii [of backslash] by (auto simp del: of_char_Char)
      then have "\<forall>E. decodes E \<longrightarrow> decodes (c # E)" using c decodes_Cons by blast
      with bs cs c encode_first(2) [OF c bs(1)] "1.prems"(6) Nil show ?thesis
        by (intro exI [of _ bs] exI [of _ cs']) (auto intro!: exI [of _ "c # _"])
    qed
    then obtain ws' cs' where w: "rs = ws' @ encode_str cs'" "\<forall>w \<in> set ws'. \<not> is_ascii w"
      "\<forall>c \<in> set cs'. is_scalar c"
      and whole: "\<And>E. decodes E \<Longrightarrow> \<exists>E'. b # ws' @ encode_str E = ws @ encode_str E' \<and> decodes E'" by blast
    from "1.IH"(2) [OF b ne(1) _ ne(4) loop1 "1.prems"(2,3) _ w(2,3)] left1 w(1) ne
    obtain E where "\<not> bad" "rs = ws' @ encode_str E @ dquote # left t'" "decodes E" by auto
    with whole [of E] rs show ?thesis by force
  next
    case True
    with "1.prems"(4,5) rs have "ws = []" by (cases ws) auto
    then have "reads t cs" using "1.prems"(4,6) by (simp add: reads_def)
    from reads_first [OF this b True] obtain cs1 where cs: "cs = of_char b # cs1" "reads (bumped t) cs1" by blast
    have b1: "encode_utf8 (of_char b) = [b]" using True by (rule encode_utf8_ascii)
    consider "b = dquote" | "b = newline \<or> b = carriage" | "b = backslash"
      | "b \<noteq> dquote" "\<not> (b = newline \<or> b = carriage)" "b \<noteq> backslash" by blast
    then show ?thesis
    proof cases
      case 1
      with loop b have "tok = mk_token (if bad then Error InvalidStringEscape else k) start (pos (bumped t))"
        "t' = bumped t" by (auto simp: ret_token_def)
      with 1 "1.prems"(2,3) rs left1 \<open>ws = []\<close> show ?thesis
        by (intro conjI exI [of _ "[]"]) (auto simp: mk_token_def split: if_splits)
    next
      case 2
      with loop b "1.prems"(2,3) show ?thesis by (auto simp: ret_token_def mk_token_def)
    next
      case 3
      obtain r t1 where r: "scan_escape (bumped t) = (r, t1)" by fastforce
      with loop b 3 have loop1: "string_loop start k (bad \<or> Option.bind r id = None) t1 = (tok, t')" by simp
      with string_loop_bad "1.prems"(2,3) have ok: "\<not> bad" "Option.bind r id \<noteq> None" by metis+
      then obtain v where v: "r = Some (Some v)" by (auto simp: bind_eq_Some_conv)
      from scan_escape_escapes [OF cs(2) r [unfolded v]] obtain E1 cs2 where
        E1: "cs1 = E1 @ cs2" "reads t1 cs2" "escapes E1 v" by blast
      from "1.IH"(1) [OF b _ _ 3 r [symmetric] loop1 "1.prems"(2,3), of "[]" cs2] E1(2) 3
      obtain F where "left t1 = encode_str F @ dquote # left t'" "decodes F" by (auto simp: reads_def)
      moreover have "decodes (of_char backslash # E1 @ F)"
        using E1 cs \<open>decodes F\<close> by (intro decodes_escape) (auto simp: reads_def)
      ultimately show ?thesis
        using ok(1) E1 cs b1 3 rs left1 \<open>ws = []\<close>
        by (intro conjI exI [of _ "of_char backslash # E1 @ F"]) (auto simp: reads_def)
    next
      case 4
      with loop b have loop1: "string_loop start k bad (bumped t) = (tok, t')" by simp
      from "1.IH"(2) [OF b 4 loop1 "1.prems"(2,3), of "[]" cs1] cs(2)
      obtain F where "\<not> bad" "rs = encode_str F @ dquote # left t'" "decodes F" by (auto simp: reads_def left1)
      moreover have "decodes (of_char b # F)"
        using 4(3) \<open>decodes F\<close> ascii_scalar [OF True] by (intro decodes_Cons) (simp_all only: of_char_eq_iff not_False_eq_True)
      ultimately show ?thesis
        using b1 rs \<open>ws = []\<close> by (intro conjI exI [of _ "of_char b # F"]) simp_all
    qed
  qed
qed

section \<open>Character tokens\<close>

lemma cont_bytes_loop_adv: "cont_bytes_loop n t = (r, t') \<Longrightarrow> source t' = source t \<and> adv t t'"
  using adv_cont_bytes_loop by (auto simp: adv_def)

lemma reads_encode:
  assumes "reads t cs" "left t = encode_utf8 c @ left t'" "is_scalar c"
  shows "\<exists>cs'. cs = c # cs' \<and> reads t' cs'"
proof -
  have "decode_utf8 (left t) = Some cs" using assms(1) by (simp add: reads_def)
  then obtain cs' where cs': "cs = c # cs'" "decode_utf8 (left t') = Some cs'"
    using assms(2,3) by (auto simp: decode_utf8_encode)
  then show ?thesis using decode_utf8_Some [OF cs'(2)] by (auto simp: reads_def)
qed

lemma scan_utf8_codepoint_reads:
  assumes "reads t cs" "scan_utf8_codepoint t = (Value v, t')" "peek t = Some b"
  shows "\<exists>cs'. cs = cv_value v # cs' \<and> reads t' cs' \<and> is_scalar (cv_value v) \<and> byte_len v = len_utf8 (cv_value v)
    \<and> hd (encode_utf8 (cv_value v)) = b"
proof -
  from assms(2,3) cont_bytes_loop_kinds [of "utf8_width b - 1" "bumped t"] obtain
    loop: "cont_bytes_loop (utf8_width b - 1) (bumped t) = (None, t')"
    and dec: "decode_utf8 (subslice (pos t) (pos t') (source t)) = Some [cv_value v]"
    and w: "byte_len v = utf8_width b"
    by (auto simp: scan_utf8_codepoint_def bump_peek Let_def split: if_splits option.splits prod.splits list.splits)
  have c: "is_scalar (cv_value v)" "subslice (pos t) (pos t') (source t) = encode_utf8 (cv_value v)"
    using decode_utf8_Some [OF dec] by simp_all
  have "adv t t'" using adv_bumped cont_bytes_loop_adv [OF loop] adv_trans by blast
  moreover have "pos t \<le> length (source t)" using assms(3) by (auto simp: peek_def byte_at_def split: if_splits)
  ultimately have left: "left t = encode_utf8 (cv_value v) @ left t'" using left_split c(2) by simp
  then have hd: "hd (encode_utf8 (cv_value v)) = b"
    using assms(3) by (cases "encode_utf8 (cv_value v)") (auto simp: peek_left)
  have "byte_len v = len_utf8 (cv_value v)"
    using lead_encode_utf8 [OF c(1)] hd w by (auto dest: utf8_width_lead)
  with reads_encode [OF assms(1) left c(1)] c(1) hd show ?thesis by blast
qed

text \<open>\<open>char_decodes E v\<close>: the characters \<open>E\<close> between the quotes decode to the one value \<open>v\<close>.\<close>

definition char_decodes :: "nat list \<Rightarrow> char_value \<Rightarrow> bool" where
  "char_decodes E v \<longleftrightarrow>
     decode_scalar_chars E = Some [cv_value v] \<and>
     (\<exists>bs. decode_byte_chars E = Some bs \<and> length bs = byte_len v) \<and> (\<forall>c \<in> set E. is_scalar c)"

lemma scan_char_value_reads:
  assumes "reads t cs" "scan_char_value t = (Value v, t')"
  shows "\<exists>E cs'. cs = E @ cs' \<and> reads t' cs' \<and> char_decodes E v"
proof -
  obtain b where b: "peek t = Some b"
    using assms(2) by (cases "peek t") (simp_all add: scan_char_value_def)
  show ?thesis
  proof (cases "b = backslash")
    case True
    with assms(2) b have esc: "scan_escape (bumped t) = (Some (Some v), t')"
      by (auto simp: scan_char_value_def split: prod.splits option.splits)
    from reads_first [OF assms(1) b] True obtain cs1 where
      cs1: "cs = of_char backslash # cs1" "reads (bumped t) cs1" by auto
    from scan_escape_escapes [OF cs1(2) esc] obtain E cs' where
      E: "cs1 = E @ cs'" "reads t' cs'" "escapes E v" by blast
    have "char_decodes (of_char backslash # E) v"
      using decode_escape_append [OF E(3), of "[]"] cs1 E(1) by (auto simp: char_decodes_def reads_def is_scalar_def)
    with cs1 E show ?thesis by (intro exI [of _ "of_char backslash # E"] exI [of _ cs']) simp
  next
    case False
    with assms(2) b have cp: "scan_utf8_codepoint t = (Value v, t')"
      by (auto simp: scan_char_value_def split: if_splits)
    from scan_utf8_codepoint_reads [OF assms(1) cp b] obtain cs' where
      c: "cs = cv_value v # cs'" "reads t' cs'" "is_scalar (cv_value v)"
        "byte_len v = len_utf8 (cv_value v)" "hd (encode_utf8 (cv_value v)) = b" by blast
    have "cv_value v \<noteq> of_char backslash"
      using c(5) False encode_utf8_ascii [of backslash] by (auto simp del: of_char_Char)
    with c have "char_decodes [cv_value v] v" by (simp add: char_decodes_def)
    with c show ?thesis by (intro exI [of _ "[cv_value v]"] exI [of _ cs']) simp
  qed
qed

lemma char_lit_reads:
  assumes "reads t cs" "char_lit start is_byte t = (tok, t')" "kind tok \<notin> range Error"
  shows "\<exists>E v. left t = encode_str E @ squote # left t' \<and> char_decodes E v
    \<and> kind tok = (if is_byte then ByteChar else CharTok) \<and> (is_byte \<longrightarrow> byte_len v = 1)"
proof -
  from assms(2,3) obtain v t1 where v: "scan_char_value t = (Value v, t1)" "peek t1 = Some squote" "t' = bumped t1"
    and k: "kind tok = (if is_byte then ByteChar else CharTok)" "is_byte \<longrightarrow> byte_len v = 1"
    by (auto simp: char_lit_def bump_peek ret_token_def mk_token_def split: prod.splits char_scan.splits if_splits)
  from scan_char_value_reads [OF assms(1) v(1)] obtain E cs' where
    E: "cs = E @ cs'" "reads t1 cs'" "char_decodes E v" by blast
  have "left t1 = squote # left t'" using v(2,3) by (auto simp: left_bumped peek_left split: list.splits)
  with E k assms(1) show ?thesis by (auto simp: reads_def)
qed

section \<open>Integer tokens\<close>

lemma digit_below_run:
  "digit_below radix b \<longleftrightarrow> (\<exists>d. to_digit16 (byte b) = Some d \<and> d < radix)"
  by (auto simp: digit_below_def digit_value_hex byte_def split: option.splits)

lemma digit_below_not_sep: "digit_below radix b \<Longrightarrow> b \<noteq> CHR ''_''"
  by (auto simp: digit_below_run to_digit16_def byte_def)

text \<open>The bytes \<open>D\<close> continue a run of digits, after a digit or at a point where a digit must follow.\<close>

definition continues :: "nat \<Rightarrow> bool \<Rightarrow> string \<Rightarrow> bool" where
  "continues radix prev D \<longleftrightarrow>
     (if prev then \<forall>s v. digit_run radix s v \<longrightarrow> (\<exists>v'. digit_run radix (s @ D) v')
      else D = [] \<or>
        ((\<exists>v'. digit_run radix D v') \<and>
         (\<forall>s v. digit_run radix s v \<longrightarrow> (\<exists>v'. digit_run radix (s @ CHR ''_'' # D) v'))))"

lemma continues_Nil [simp]: "continues radix prev []"
  by (auto simp: continues_def)

lemma continues_digit:
  assumes "digit_below radix b" "continues radix True D"
  shows "continues radix prev (b # D)"
proof -
  obtain d where d: "to_digit16 (byte b) = Some d" "d < radix" using assms(1) by (auto simp: digit_below_run)
  have ext: "digit_run radix s v \<Longrightarrow> \<exists>v'. digit_run radix (s @ D) v'" for s v
    using assms(2) by (auto simp: continues_def)
  show ?thesis
    using ext [OF run_digit [OF d]] ext [OF run_snoc [OF _ d]] ext [OF run_sep [OF _ d]]
    by (auto simp: continues_def)
qed

lemma continues_sep: "continues radix False D \<Longrightarrow> D \<noteq> [] \<Longrightarrow> continues radix True (CHR ''_'' # D)"
  by (auto simp: continues_def)

definition run_ends :: "nat \<Rightarrow> tokenizer \<Rightarrow> bool" where
  "run_ends radix t \<longleftrightarrow>
     \<not> peek_is (\<lambda>b. b = CHR ''_'' \<or> digit_below radix b \<or> (radix \<noteq> 10 \<and> digit_value b \<noteq> None)) t"

lemma left_peek: "peek t = Some b \<Longrightarrow> left t = b # left (bumped t)"
  by (auto simp: peek_left left_bumped split: list.splits)

lemma peek_next_bumped: "peek t = Some b \<Longrightarrow> peek_next t = peek (bumped t)"
  by (auto simp: peek_next_def peek_def bumped_pos byte_at_def split: if_splits)

lemma consume_digits_loop_reads:
  assumes "consume_digits_loop radix prev d bad t = ((d', bad'), t')" "\<not> bad'"
  shows "\<not> bad \<and> run_ends radix t' \<and> (\<exists>D. left t = D @ left t' \<and> continues radix prev D
    \<and> (D = [] \<longrightarrow> t' = t \<and> d' = d))"
  using assms
proof (induction radix prev d bad t rule: consume_digits_loop.induct)
  case (1 radix prev d bad t)
  note loop = "1.prems"(1) [unfolded consume_digits_loop.simps [of radix prev d bad t]]
  show ?case
  proof (cases "peek t")
    case None
    with loop "1.prems"(2) show ?thesis by (auto simp: run_ends_def peek_is_def)
  next
    case (Some b)
    note left = left_peek [OF Some]
    consider "b = CHR ''_''" | "b \<noteq> CHR ''_''" "digit_below radix b"
      | "b \<noteq> CHR ''_''" "\<not> digit_below radix b" "radix \<noteq> 10 \<and> digit_value b \<noteq> None"
      | "b \<noteq> CHR ''_''" "\<not> digit_below radix b" "\<not> (radix \<noteq> 10 \<and> digit_value b \<noteq> None)" by blast
    then show ?thesis
    proof cases
      case 1
      let ?next = "case peek_next t of None \<Rightarrow> False | Some c \<Rightarrow> digit_below radix c"
      from loop Some 1 have "consume_digits_loop radix False d (bad \<or> \<not> prev \<or> \<not> ?next) (bumped t) = ((d', bad'), t')"
        by (simp add: Let_def)
      from "1.IH"(1) [OF Some 1 refl this "1.prems"(2)] obtain D where
        D: "\<not> bad" "prev" "?next" "run_ends radix t'" "left (bumped t) = D @ left t'"
          "continues radix False D" "D = [] \<longrightarrow> t' = bumped t" by auto
      have "D \<noteq> []"
        using D(3,4,7) by (auto simp: peek_next_bumped [OF Some] run_ends_def peek_is_def split: option.splits)
      with D left 1 continues_sep show ?thesis by (intro conjI exI [of _ "CHR ''_'' # D"]) auto
    next
      case 2
      with loop Some have "consume_digits_loop radix True (d + 1) bad (bumped t) = ((d', bad'), t')" by simp
      from "1.IH"(2) [OF Some 2 this "1.prems"(2)] obtain D where
        "\<not> bad" "run_ends radix t'" "left (bumped t) = D @ left t'" "continues radix True D" by blast
      with continues_digit [OF 2(2)] left show ?thesis by (intro conjI exI [of _ "b # D"]) simp_all
    next
      case 3
      with loop Some have "consume_digits_loop radix False d True (bumped t) = ((d', bad'), t')" by simp
      from "1.IH"(3) [OF Some 3 this "1.prems"(2)] show ?thesis by simp
    next
      case 4
      with loop Some "1.prems"(2) show ?thesis by (auto simp: run_ends_def peek_is_def)
    qed
  qed
qed

lemma consume_numeric_suffix_reads:
  "\<exists>suf. left t = suf @ left (consume_numeric_suffix t)
    \<and> (suf = [] \<or> (peek t = Some (hd suf) \<and> is_ident_start (hd suf)))"
proof (cases "peek_is is_ident_start t")
  case True
  then obtain b where b: "peek t = Some b" "is_ident_start b" by (auto simp: peek_is_def split: option.splits)
  with True left_peek [OF b(1)] show ?thesis
    by (intro exI [of _ "b # takeWhile is_ident_continue (left (bumped t))"])
      (simp add: consume_numeric_suffix_def left_bump_while)
qed (auto simp: consume_numeric_suffix_def)

lemma ident_start_not_dot: "is_ident_start c \<Longrightarrow> c \<noteq> CHR ''.''"
  by (auto simp: is_ident_start_def is_ascii_alphabetic_def in_range_def byte_def)

lemma digit_below_10: "digit_below 10 c \<longleftrightarrow> is_ascii_digit c"
  by (auto simp: digit_below_run to_digit16_def is_ascii_digit_def in_range_def byte_def)

text \<open>
  The parts of an integer text: a radix prefix, a run of digits with its value, and the rest, which neither
  the digits nor a longer prefix could absorb.
\<close>

definition int_parts :: "string \<Rightarrow> string \<Rightarrow> nat \<Rightarrow> string \<Rightarrow> nat \<Rightarrow> string \<Rightarrow> bool" where
  "int_parts w p radix s v suf \<longleftrightarrow> (p, radix) \<in> set radix_prefixes \<and> w = p @ s @ suf
     \<and> digit_run radix s v \<and> stops radix s suf"

definition int_text :: "string \<Rightarrow> bool" where
  "int_text w \<longleftrightarrow> (\<exists>p radix s v suf. int_parts w p radix s v suf)"

lemma int_textI:
  "(p, radix) \<in> set radix_prefixes \<Longrightarrow> digit_run radix s v \<Longrightarrow> stops radix s suf \<Longrightarrow> int_text (p @ s @ suf)"
  unfolding int_text_def int_parts_def by blast

lemma radix_number_reads:
  assumes "radix_number start radix t = (tok, t')" "kind tok = Integer" "radix \<noteq> 10"
  shows "\<exists>s v suf. left t = s @ suf @ left t' \<and> digit_run radix s v \<and> stops radix s suf"
proof -
  obtain d t1 where dig: "consume_digits_loop radix False 0 False t = ((d, False), t1)" "d \<noteq> 0"
    and t': "t' = consume_numeric_suffix t1"
    using assms(1,2)
    by (auto simp: radix_number_def consume_digits_def ret_token_def mk_token_def split: prod.splits if_splits)
  from consume_digits_loop_reads [OF dig(1)] obtain D where
    D: "run_ends radix t1" "left t = D @ left t1" "continues radix False D" "D \<noteq> []"
    using dig(2) by auto
  then obtain v where v: "digit_run radix D v" by (auto simp: continues_def)
  obtain suf where suf: "left t1 = suf @ left t'" "suf = [] \<or> peek t1 = Some (hd suf)"
    using consume_numeric_suffix_reads [of t1] t' by blast
  have "stops radix D suf"
    using suf(2) D(1) assms(3)
    by (cases suf) (auto simp: stops_def run_ends_def peek_is_def digit_value_hex byte_def)
  with D suf v show ?thesis by auto
qed

lemma try_scan_exponent_None:
  "try_scan_exponent t = (None, t') \<Longrightarrow> t' = t \<and> peek t \<notin> {Some (CHR ''e''), Some (CHR ''E'')}"
  by (auto simp: try_scan_exponent_def Let_def peek_is_def split: if_splits prod.splits option.splits)

lemma number_decimal_reads:
  assumes "number start t = (tok, t')" "kind tok = Integer" "number_radix start t = None"
    and "byte_at (source t) start = Some b" "is_ascii_digit b"
  shows "\<exists>s v suf. b # left t = s @ suf @ left t' \<and> digit_run 10 s v \<and> stops 10 s suf"
proof -
  obtain d t1 where dig: "consume_digits_loop 10 True 0 False t = ((d, False), t1)"
    and ex: "try_scan_exponent t1 = (None, t1)" and t': "t' = consume_numeric_suffix t1"
    using assms(1,2,3) try_scan_exponent_None
    by (auto simp: number_def consume_digits_def ret_token_def mk_token_def
        split: prod.splits if_splits option.splits)
  from consume_digits_loop_reads [OF dig] obtain D where
    D: "run_ends 10 t1" "left t = D @ left t1" "continues 10 True D" "D = [] \<longrightarrow> t1 = t" by auto
  obtain v where v: "digit_run 10 (b # D) v"
    using continues_digit [OF _ D(3), of b False] assms(5) by (auto simp: continues_def digit_below_10)
  obtain suf where suf: "left t1 = suf @ left t'"
    "suf = [] \<or> (peek t1 = Some (hd suf) \<and> is_ident_start (hd suf))"
    using consume_numeric_suffix_reads [of t1] t' by blast
  have "stops 10 (b # D) suf"
  proof (cases suf)
    case (Cons c cs)
    with suf(2) have c: "peek t1 = Some c" "is_ident_start c" by auto
    have "c \<notin> set ''xXbBoO''" if "b # D = ''0''"
      using that D(4) c(1) assms(3,4) by (auto simp: number_radix_def peek_is_def split: if_splits)
    moreover have "c \<noteq> CHR ''_''" "\<not> is_ascii_digit c"
      using D(1) c(1) by (auto simp: run_ends_def peek_is_def digit_below_10)
    ultimately show ?thesis
      using try_scan_exponent_None [OF ex] c ident_start_not_dot [OF c(2)] Cons by (auto simp: stops_def)
  qed (simp add: stops_def)
  with v D(2) suf(1) show ?thesis by (intro exI [of _ "b # D"]) auto
qed

section \<open>Every literal token\<close>

lemma drop_boundary:
  assumes "\<forall>c \<in> set cs. is_scalar c" "is_boundary (encode_str cs) p"
  shows "\<exists>ds. drop p (encode_str cs) = encode_str ds \<and> (\<forall>c \<in> set ds. is_scalar c)"
  using assms
proof (induction cs arbitrary: p)
  case (Cons c cs)
  show ?case
  proof (cases "len_utf8 c \<le> p")
    case True
    with Cons show ?thesis by (simp add: is_boundary_append)
  next
    case False
    have "p = 0"
    proof (rule ccontr)
      assume p: "p \<noteq> 0"
      have "encode_utf8 c ! p \<in> set (tl (encode_utf8 c))"
        using False p nth_mem [of "p - 1" "tl (encode_utf8 c)"] by (simp add: nth_tl)
      then have "is_cont (encode_utf8 c ! p)" by (rule tl_encode_utf8_cont)
      with Cons.prems(2) False show False by (auto simp: is_boundary_def nth_append)
    qed
    with Cons.prems(1) show ?thesis by (intro exI [of _ "c # cs"]) simp
  qed
qed (auto intro: exI [of _ "[]"])

lemma aligned_reads: "aligned t \<Longrightarrow> \<exists>cs. reads t cs"
  using drop_boundary by (auto simp: aligned_def valid_utf8_iff reads_def left_def)

text \<open>What the decoder of its kind says of the text of a token.\<close>

definition literal_ok :: "token_kind \<Rightarrow> string \<Rightarrow> bool" where
  "literal_ok k w =
     (case k of
        Integer \<Rightarrow> int_text w
      | StringTok \<Rightarrow> decode_string_literal_part w \<noteq> None
      | ByteString \<Rightarrow> decode_byte_string_literal_part w \<noteq> None
      | CharTok \<Rightarrow> decode_char_literal w \<noteq> None
      | ByteChar \<Rightarrow> decode_byte_char_literal w \<noteq> None
      | _ \<Rightarrow> True)"

definition plain :: "token_kind \<Rightarrow> bool" where
  "plain k \<longleftrightarrow> k \<notin> {Integer, StringTok, ByteString, CharTok, ByteChar}"

lemma plain_ok: "plain k \<Longrightarrow> literal_ok k w"
  by (auto simp: plain_def literal_ok_def split: token_kind.split)

lemma chars_encode_str [simp]: "(\<forall>c \<in> set E. is_scalar c) \<Longrightarrow> chars (encode_str E) = E"
  by (simp add: chars_def)

lemma strip_quotes_eq: "strip_quotes p q (p @ w @ q) = Some w"
proof -
  have "strip_prefix p (p @ w @ q) = Some (w @ q)" "strip_suffix q (w @ q) = Some w" by simp_all
  then show ?thesis by (simp add: strip_quotes_def del: strip_prefix_Some strip_suffix_Some)
qed

lemma string_text_ok:
  assumes "decodes E"
  shows "literal_ok StringTok (dquote # encode_str E @ [dquote])"
    and "literal_ok ByteString (CHR ''b'' # dquote # encode_str E @ [dquote])"
proof -
  have E: "chars (encode_str E) = E" "decode_scalar_chars E \<noteq> None" "decode_byte_chars E \<noteq> None"
    using assms by (simp_all add: decodes_def)
  show "literal_ok StringTok (dquote # encode_str E @ [dquote])"
    using strip_quotes_eq [of "[dquote]" "[dquote]" "encode_str E"] E
    by (simp add: literal_ok_def decode_string_literal_part_eq decode_scalar_literal_inner_def)
  have "strip_prefix [CHR ''b'', dquote] (CHR ''b'' # dquote # encode_str E @ [dquote])
      = Some (encode_str E @ [dquote])" by simp
  moreover have "strip_suffix [dquote] (encode_str E @ [dquote]) = Some (encode_str E)" by simp
  ultimately show "literal_ok ByteString (CHR ''b'' # dquote # encode_str E @ [dquote])"
    using E by (simp add: literal_ok_def decode_byte_string_literal_part_def byte_string_inner_def
        or_else_def decode_byte_literal_inner_def del: strip_prefix_Some strip_suffix_Some)
qed

lemma char_text_ok:
  assumes "char_decodes E v"
  shows "literal_ok CharTok (squote # encode_str E @ [squote])"
    and "byte_len v = 1 \<Longrightarrow> literal_ok ByteChar (CHR ''b'' # squote # encode_str E @ [squote])"
  using assms strip_quotes_eq [of "[squote]" "[squote]" "encode_str E"]
    strip_quotes_eq [of "[CHR ''b'', squote]" "[squote]" "encode_str E"]
  by (auto simp: literal_ok_def char_decodes_def decode_char_literal_def decode_byte_char_literal_def
      decode_scalar_literal_inner_def decode_byte_literal_inner_def)

text \<open>The branches of \<open>scan_byte\<close> that return no literal.\<close>

definition plain_result :: "token \<times> tokenizer \<Rightarrow> bool" where
  "plain_result r \<longleftrightarrow> plain (kind (fst r))"

lemma plain_result_ret [simp]: "plain_result (ret_token k s t) \<longleftrightarrow> plain k"
  by (simp add: plain_result_def ret_token_def mk_token_def)

lemma plain_kinds [simp]:
  "plain (Punct p)" "plain (Op q)" "plain (Compound c)" "plain (Error e)" "plain (Keyword w)" "plain Ident"
  by (simp_all add: plain_def)

lemma plain_result_methods:
  "plain_result (ident_or_keyword s t)" "plain_result (scan_dot s t)"
  "plain k \<Longrightarrow> plain k' \<Longrightarrow> plain_result (maybe_eq s k k' t)"
  "(\<And>u. plain_result (f u)) \<Longrightarrow> (\<And>u. plain_result (g u)) \<Longrightarrow> plain_result (if_eat b t f g)"
  by (simp_all add: ident_or_keyword_def Let_def keyword_kind_def scan_dot_def maybe_eq_def if_eat_def
      split: prod.split bool.split option.split)

lemma plain_result_if: "plain_result x \<Longrightarrow> plain_result y \<Longrightarrow> plain_result (if c then x else y)"
  by simp

lemma scan_byte_plain:
  assumes "\<not> (b = CHR ''b'' \<and> peek t = Some dquote)" "\<not> (b = CHR ''b'' \<and> peek t = Some squote)"
    and "\<not> in_range (CHR ''0'') (CHR ''9'') b" "b \<noteq> dquote" "b \<noteq> squote"
  shows "plain_result (scan_byte start b t)"
  unfolding scan_byte_def if_not_P [OF assms(1)] if_not_P [OF assms(2)] if_not_P [OF assms(3)]
    if_not_P [OF assms(4)] if_not_P [OF assms(5)]
  by (intro plain_result_if plain_result_methods) simp_all

lemma string_loop_kind: "string_loop start k bad t = (tok, t') \<Longrightarrow> kind tok = k \<or> plain (kind tok)"
proof (induction start k bad t rule: string_loop.induct)
  case (1 start k bad t)
  note loop = "1.prems" [unfolded string_loop.simps [of start k bad t]]
  show ?case
  proof (cases "peek t")
    case None
    with loop show ?thesis by (auto simp: ret_token_def mk_token_def)
  next
    case (Some b)
    with loop 1 show ?thesis
      by (auto simp: ret_token_def mk_token_def split: if_splits prod.splits)
  qed
qed

lemma string_lit_text:
  assumes "reads t cs" "string_lit start k t = (tok, t')" "\<not> plain (kind tok)"
  shows "kind tok = k \<and> (\<exists>E. left t = encode_str E @ dquote # left t' \<and> decodes E)"
proof -
  have loop: "string_loop start k False t = (tok, t')" using assms(2) by (simp add: string_lit_def)
  have k: "kind tok = k" using string_loop_kind [OF loop] assms(3) by blast
  moreover have "k \<notin> range Error" using assms(3) k by auto
  ultimately show ?thesis
    using string_loop_reads [OF loop k, of "[]" cs] assms(1) by (auto simp: reads_def)
qed

lemma number_text:
  assumes "peek t = Some b" "is_ascii_digit b" "number (pos t) (bumped t) = (tok, t')" "kind tok = Integer"
  shows "\<exists>w. left t = w @ left t' \<and> int_text w"
proof (cases "number_radix (pos t) (bumped t)")
  case None
  have "byte_at (source (bumped t)) (pos t) = Some b"
    using assms(1) peek_bumpedD [OF assms(1)] by (simp add: peek_def)
  from number_decimal_reads [OF assms(3,4) None this assms(2)] obtain s v suf where
    "b # left (bumped t) = s @ suf @ left t'" "digit_run 10 s v" "stops 10 s suf" by blast
  moreover have "([], 10) \<in> set radix_prefixes" by (simp add: radix_prefixes_def)
  ultimately show ?thesis
    using left_peek [OF assms(1)] int_textI [of "[]"] by (intro exI [of _ "s @ suf"]) fastforce
next
  case (Some radix)
  then obtain c where c: "peek (bumped t) = Some c" "b = CHR ''0''" "([b, c], radix) \<in> set radix_prefixes"
      "radix \<noteq> 10"
    using assms(1) peek_bumpedD [OF assms(1)]
    by (auto simp: number_radix_def peek_def peek_is_def radix_prefixes_def split: if_splits option.splits)
  with Some assms(3) have "radix_number (pos t) radix (bumped (bumped t)) = (tok, t')"
    by (simp add: number_def)
  from radix_number_reads [OF this assms(4) c(4)] obtain s v suf where
    "left (bumped (bumped t)) = s @ suf @ left t'" "digit_run radix s v" "stops radix s suf" by blast
  with int_textI [OF c(3)] left_peek [OF assms(1)] left_peek [OF c(1)] show ?thesis
    by (intro exI [of _ "[b, c] @ s @ suf"]) auto
qed

lemma number_kind: "number start t = (tok, t') \<Longrightarrow> kind tok = Integer \<or> plain (kind tok)"
  by (auto simp: number_def radix_number_def ret_token_def mk_token_def plain_def
      split: option.splits prod.splits if_splits)

lemma char_lit_kind: "char_lit start is_byte t = (tok, t') \<Longrightarrow> \<not> plain (kind tok) \<Longrightarrow> kind tok \<notin> range Error"
  by auto

lemma scan_byte_text:
  assumes "aligned t" "peek t = Some b" "is_ascii b" "scan_byte (pos t) b (bumped t) = (tok, t')"
    and "\<not> plain (kind tok)"
  shows "\<exists>w. left t = w @ left t' \<and> literal_ok (kind tok) w"
proof -
  obtain cs where "reads t cs" using aligned_reads [OF assms(1)] by blast
  from reads_first [OF this assms(2,3)] obtain cs1 where cs1: "reads (bumped t) cs1" by blast
  note left = left_peek [OF assms(2)]
  have second: "\<exists>cs2. reads (bumped (bumped t)) cs2 \<and> left t = b # c # left (bumped (bumped t))"
    if "peek (bumped t) = Some c" "is_ascii c" for c
    using reads_first [OF cs1 that] left_peek [OF that(1)] left by auto
  consider "b = CHR ''b'' \<and> peek (bumped t) = Some dquote"
    | "b = CHR ''b'' \<and> peek (bumped t) = Some squote"
    | "in_range (CHR ''0'') (CHR ''9'') b" | "b = dquote" | "b = squote"
    using scan_byte_plain [of b "bumped t" "pos t"] assms(4,5) by (auto simp: plain_result_def)
  then show ?thesis
  proof cases
    case 1
    with assms(4) have lit: "string_lit (pos t) ByteString (bumped (bumped t)) = (tok, t')"
      by (simp add: scan_byte_def)
    from 1 second obtain cs2 where "reads (bumped (bumped t)) cs2"
      "left t = CHR ''b'' # dquote # left (bumped (bumped t))" by fastforce
    with string_lit_text [OF _ lit assms(5)] string_text_ok(2) show ?thesis
      by (metis append_Cons append_Nil append_assoc)
  next
    case 2
    with assms(4) have lit: "char_lit (pos t) True (bumped (bumped t)) = (tok, t')"
      by (simp add: scan_byte_def)
    from 2 second obtain cs2 where "reads (bumped (bumped t)) cs2"
      "left t = CHR ''b'' # squote # left (bumped (bumped t))" by fastforce
    with char_lit_reads [OF _ lit char_lit_kind [OF lit assms(5)]] char_text_ok(2) show ?thesis
      by (metis append_Cons append_Nil append_assoc)
  next
    case 3
    then have "is_ascii_digit b" by (simp add: is_ascii_digit_def)
    moreover have "number (pos t) (bumped t) = (tok, t')"
      using 3 assms(4) by (auto simp: scan_byte_def in_range_def byte_def split: if_splits)
    ultimately show ?thesis
      using number_text [OF assms(2)] number_kind assms(5) by (fastforce simp: literal_ok_def)
  next
    case 4
    with assms(4) have lit: "string_lit (pos t) StringTok (bumped t) = (tok, t')"
      by (simp add: scan_byte_def in_range_def byte_def)
    from string_lit_text [OF cs1 lit assms(5)] string_text_ok(1) left 4 show ?thesis
      by (metis append_Cons append_Nil append_assoc)
  next
    case 5
    with assms(4) have lit: "char_lit (pos t) False (bumped t) = (tok, t')"
      by (simp add: scan_byte_def in_range_def byte_def)
    from char_lit_reads [OF cs1 lit char_lit_kind [OF lit assms(5)]] char_text_ok(1) left 5 show ?thesis
      by (metis append_Cons append_Nil append_assoc)
  qed
qed

lemma next_token_literal:
  assumes "aligned t" "next_token t = (mk_token k (pos t) (pos t'), t')"
  shows "literal_ok k (subslice (pos t) (pos t') (source t))"
proof (cases "plain k")
  case False
  obtain tok t1 where scan: "scan_token t = (tok, t1)" by fastforce
  with assms(2) have k: "kind tok = k" "pos t1 = pos t'" "source t1 = source t'"
    by (auto simp: next_token_def mk_token_def)
  obtain b where b: "peek t = Some b" "scan_byte (pos t) b (bumped t) = (tok, t1)"
    using scan False k by (cases "peek t") (auto simp: scan_token_def bump_peek mk_token_def plain_def literal_ok_def)
  have ascii: "is_ascii b"
  proof (rule ccontr)
    assume "\<not> is_ascii b"
    with b(2) have "kind tok = Error (UnexpectedByte b)"
      by (auto simp: scan_byte_non_ascii ret_token_def mk_token_def)
    with False k(1) show False by (auto simp: plain_def)
  qed
  have "emits (pos t) (bumped t) (scan_byte (pos t) b (bumped t))"
    using ascii lands_bumped_peek [OF b(1) ascii] by (rule emits_scan_byte)
  then have "adv t t1" using b(2) adv_trans [OF adv_bumped] by (auto simp: emits_def ret_token_def)
  then have "left t = subslice (pos t) (pos t') (source t) @ left t1"
    using left_split aligned_pos [OF assms(1)] k(2) by metis
  moreover obtain w where "left t = w @ left t1" "literal_ok (kind tok) w"
    using scan_byte_text [OF assms(1) b(1) ascii b(2)] False k(1) by blast
  ultimately show ?thesis using k(1) by simp
qed (simp add: plain_ok)

lemma next_lossless_token_literal:
  assumes "aligned t" "next_lossless_token t = (mk_lossless_token (Token k) (pos t) (pos t'), t')"
  shows "literal_ok k (subslice (pos t) (pos t') (source t))"
proof (cases "plain k")
  case False
  obtain tok t1 where nt: "next_token t = (tok, t1)" by fastforce
  with assms(2) False have k: "kind tok = k" "span tok = span_new (pos t) (pos t')" "t1 = t'"
    by (auto simp: next_lossless_token_def mk_lossless_token_def Let_def plain_def
        split: option.splits if_splits)
  then have "tok = mk_token k (pos t) (pos t')" by (simp add: mk_token_def)
  with nt k(3) show ?thesis using next_token_literal [OF assms(1)] by simp
qed (simp add: plain_ok)

lemma lexes_literals:
  assumes "lexes t toks" "aligned t" "tok \<in> set toks" "lkind tok = Token k"
  shows "literal_ok k (token_text (source t) tok)"
  using assms
proof (induction rule: lexes.induct)
  case (lexes_end t)
  then show ?case by (auto simp: mk_lossless_token_def plain_def intro: plain_ok)
next
  case (lexes_step t k' t' toks)
  show ?case
  proof (cases "tok = mk_lossless_token k' (pos t) (pos t')")
    case True
    with lexes_step.prems(3) have "k' = Token k" by (simp add: mk_lossless_token_def)
    with next_lossless_token_literal [OF lexes_step.prems(1)] lexes_step.hyps(2) True show ?thesis
      by (simp add: mk_lossless_token_def span_new_def)
  next
    case False
    with lexes_step show ?thesis by auto
  qed
qed


section \<open>Properties of the lexer and the literal decoders together\<close>

text \<open>
  C7. Every string, byte-string, character and byte-character token the lexer produces is accepted
  by the decoder of its kind: no later phase meets a literal token whose text does not decode.
\<close>

theorem lexer_literals_decode:
  assumes "valid_utf8 src" "tokenize_lossless src = Some toks" "tok \<in> set toks"
  shows "(lkind tok = Token StringTok \<longrightarrow> decode_string_literal_part (token_text src tok) \<noteq> None)
    \<and> (lkind tok = Token ByteString \<longrightarrow> decode_byte_string_literal_part (token_text src tok) \<noteq> None)
    \<and> (lkind tok = Token CharTok \<longrightarrow> decode_char_literal (token_text src tok) \<noteq> None)
    \<and> (lkind tok = Token ByteChar \<longrightarrow> decode_byte_char_literal (token_text src tok) \<noteq> None)"
proof -
  have "lexes (tokenizer_new src) toks" using tokenize_lossless_run [OF assms(1)] assms(2) by (metis option.inject)
  from lexes_literals [OF this aligned_new [OF assms(1)] assms(3)] show ?thesis
    by (auto simp: literal_ok_def)
qed

theorem lexer_literals_decode_witness:
  "\<exists>toks. valid_utf8 [dquote, CHR ''a'', backslash, CHR ''n'', dquote]
    \<and> tokenize_lossless [dquote, CHR ''a'', backslash, CHR ''n'', dquote] = Some toks
    \<and> mk_lossless_token (Token StringTok) 0 5 \<in> set toks
    \<and> decode_string_literal_part
        (token_text [dquote, CHR ''a'', backslash, CHR ''n'', dquote] (mk_lossless_token (Token StringTok) 0 5)) \<noteq> None"
proof -
  let ?src = "[dquote, CHR ''a'', backslash, CHR ''n'', dquote]"
    and ?toks = "[mk_lossless_token (Token StringTok) 0 5, mk_lossless_token (Token Eof) 5 5]"
  have v: "valid_utf8 ?src" by (simp add: utf8_eval)
  have t: "tokenize_lossless ?src = Some ?toks" by code_simp
  have m: "mk_lossless_token (Token StringTok) 0 5 \<in> set ?toks" by simp
  show ?thesis
    using lexer_literals_decode [OF v t m] v t m
    by (intro exI [of _ ?toks]) (simp only: mk_lossless_token_def lossless_token.simps simp_thms)
qed

text \<open>
  C8. Every integer token has parts: a radix prefix, the longest run of digits of that radix and a suffix.
  However it is split into such parts, the integer decoder returns the value of the digits, the
  out-of-range error when the value does not fit 128 bits, and the invalid-constant error for a suffix
  that names no integer type.
\<close>

theorem lexer_integers_decode:
  assumes "valid_utf8 src" "tokenize_lossless src = Some toks" "tok \<in> set toks" "lkind tok = Token Integer"
  shows "(\<exists>p radix s v suf. int_parts (token_text src tok) p radix s v suf)
    \<and> (\<forall>p radix s v suf. int_parts (token_text src tok) p radix s v suf \<longrightarrow>
       eval_int_literal (token_text src tok) =
         (if suf \<noteq> [] \<and> \<not> is_integer_suffix suf then Err InvalidInteger
          else if v < 2 ^ 128 then Ok v else Err IntegerOutOfRange))"
proof -
  have "lexes (tokenizer_new src) toks" using tokenize_lossless_run [OF assms(1)] assms(2) by (metis option.inject)
  from lexes_literals [OF this aligned_new [OF assms(1)] assms(3,4)] have "int_text (token_text src tok)"
    by (simp add: literal_ok_def)
  moreover have "eval_int_literal w = (if suf \<noteq> [] \<and> \<not> is_integer_suffix suf then Err InvalidInteger
      else if v < 2 ^ 128 then Ok v else Err IntegerOutOfRange)" if "int_parts w p radix s v suf" for w p radix s v suf
    using that eval_int_literal_run [of p radix s v suf] unfolding int_parts_def by blast
  ultimately show ?thesis unfolding int_text_def by blast
qed

theorem lexer_integers_decode_witness:
  "\<exists>toks. valid_utf8 ''0x1Fu8'' \<and> tokenize_lossless ''0x1Fu8'' = Some toks
    \<and> mk_lossless_token (Token Integer) 0 6 \<in> set toks
    \<and> int_parts ''0x1Fu8'' ''0x'' 16 ''1F'' 31 ''u8'' \<and> eval_int_literal ''0x1Fu8'' = Ok 31"
proof -
  let ?toks = "[mk_lossless_token (Token Integer) 0 6, mk_lossless_token (Token Eof) 6 6]"
  have v: "valid_utf8 ''0x1Fu8''" by (simp add: utf8_eval)
  have t: "tokenize_lossless ''0x1Fu8'' = Some ?toks" by code_simp
  have m: "mk_lossless_token (Token Integer) 0 6 \<in> set ?toks" by simp
  have k: "lkind (mk_lossless_token (Token Integer) 0 6) = Token Integer" by (simp add: mk_lossless_token_def)
  have w: "token_text ''0x1Fu8'' (mk_lossless_token (Token Integer) 0 6) = ''0x1Fu8''"
    by (simp add: mk_lossless_token_def span_new_def subslice_def)
  have run: "digit_run 16 ''1F'' 31"
    using run_snoc [OF run_digit [of "CHR ''1''" 1 16], of "CHR ''F''" 15] by (simp add: to_digit16_def byte_def)
  then have parts: "int_parts ''0x1Fu8'' ''0x'' 16 ''1F'' 31 ''u8''"
    by (simp add: int_parts_def radix_prefixes_def stops_def to_digit16_def byte_def)
  have "is_integer_suffix ''u8''" by (simp add: is_integer_suffix_def)
  with lexer_integers_decode [OF v t m k, unfolded w] parts have "eval_int_literal ''0x1Fu8'' = Ok 31" by fastforce
  with v t m parts show ?thesis by blast
qed

end
