(* ===== verification/Nia_Pattern_Analysis.thy ===== *)
theory Nia_Pattern_Analysis
  imports Nia_Prelude "HOL-Library.Multiset"
begin

text \<open>
  Usefulness and exhaustiveness of typed patterns (\<^verbatim>\<open>crates/nia-pattern-analysis\<close>). Constructor
  identities and types are type variables and the \<^verbatim>\<open>domain\<close> callback is an argument, as in the
  source. An \<^verbatim>\<open>i128\<close> is an \<open>int\<close>: the only arithmetic on it is \<^verbatim>\<open>end + 1\<close> below \<^verbatim>\<open>max\<close> and a
  saturating decrement. The recursion is bounded by fuel; running out of fuel, an index panic and
  an analysis error are different outcomes.
\<close>

section \<open>Patterns, domains and outcomes\<close>

datatype 'c pattern =
    Wildcard
  | Constructor 'c "'c pattern list"
  | ScalarRange int int
  | Opaque

record ('t, 'c) constructor =
  ctor_id :: 'c
  ctor_fields :: "'t list"

datatype ('t, 'c) domain =
    Finite "('t, 'c) constructor list"
  | Open "('t, 'c) constructor list"
  | Scalar int int bool
  | OpaqueDomain

datatype analysis_error =
    MatrixWidth nat nat
  | QueryWidth nat nat
  | UnknownConstructor
  | ConstructorArity nat nat
  | ScalarPatternOutsideScalarDomain

datatype 'a outcome = NoFuel | Panic | Fail analysis_error | Done 'a

fun bind_o :: "'a outcome \<Rightarrow> ('a \<Rightarrow> 'b outcome) \<Rightarrow> 'b outcome" where
  "bind_o NoFuel f = NoFuel"
| "bind_o Panic f = Panic"
| "bind_o (Fail e) f = Fail e"
| "bind_o (Done x) f = f x"

text \<open>\<^verbatim>\<open>for x in xs { if let Some(w) = f(x)? { return Ok(Some(w)); } }\<close> and what follows the loop.\<close>

fun first_some :: "('x \<Rightarrow> 'w option outcome) \<Rightarrow> 'w option outcome \<Rightarrow> 'x list \<Rightarrow> 'w option outcome" where
  "first_some f after [] = after"
| "first_some f after (x # xs) =
     bind_o (f x) (\<lambda>r. case r of Some w \<Rightarrow> Done (Some w) | None \<Rightarrow> first_some f after xs)"

type_synonym 'c matrix = "'c pattern list list"


section \<open>Scalar partitions\<close>

definition clip_range :: "int \<Rightarrow> int \<Rightarrow> int \<Rightarrow> int \<Rightarrow> (int \<times> int) option" where
  "clip_range start end' mn mx =
     (let start = max start mn; end' = min end' mx in if start \<le> end' then Some (start, end') else None)"

text \<open>\<^verbatim>\<open>i128::saturating_sub(1)\<close>\<close>

definition saturating_dec :: "int \<Rightarrow> int" where
  "saturating_dec i = max (- (2 ^ 127)) (i - 1)"

definition scalar_heads :: "'c matrix \<Rightarrow> (int \<times> int) list" where
  "scalar_heads matrix =
     List.map_filter (\<lambda>row. case row of ScalarRange s e # _ \<Rightarrow> Some (s, e) | _ \<Rightarrow> None) matrix"

definition range_boundaries :: "int \<Rightarrow> int \<Rightarrow> int \<times> int \<Rightarrow> int list" where
  "range_boundaries mn mx r =
     (case clip_range (fst r) (snd r) mn mx of
        None \<Rightarrow> []
      | Some (start, end') \<Rightarrow> start # (if end' < mx then [end' + 1] else []))"

fun partition_pairs :: "int \<Rightarrow> int list \<Rightarrow> (int \<times> int) list" where
  "partition_pairs mx [] = []"
| "partition_pairs mx [s] = [(s, mx)]"
| "partition_pairs mx (s # next # rest) = (s, saturating_dec next) # partition_pairs mx (next # rest)"

definition boundaries :: "'c matrix \<Rightarrow> (int \<times> int) option \<Rightarrow> int \<Rightarrow> int \<Rightarrow> int list" where
  "boundaries matrix query mn mx =
     mn # concat (map (range_boundaries mn mx)
       (scalar_heads matrix @ (case query of None \<Rightarrow> [] | Some r \<Rightarrow> [r])))"

definition scalar_partitions :: "'c matrix \<Rightarrow> (int \<times> int) option \<Rightarrow> int \<Rightarrow> int \<Rightarrow> (int \<times> int) list" where
  "scalar_partitions matrix query mn mx =
     (if mn > mx then []
      else partition_pairs mx (remdups_adj (sort (boundaries matrix query mn mx))))"


section \<open>Specialisation\<close>

definition check_arity :: "nat \<Rightarrow> nat \<Rightarrow> unit outcome" where
  "check_arity found expected =
     (if found = expected then Done () else Fail (ConstructorArity expected found))"

definition find_constructor :: "('t, 'c) domain \<Rightarrow> 'c \<Rightarrow> ('t, 'c) constructor outcome" where
  "find_constructor d c =
     (case
        (case d of
           Finite cs \<Rightarrow> Some cs
         | Open cs \<Rightarrow> Some cs
         | Scalar _ _ _ \<Rightarrow> None
         | OpaqueDomain \<Rightarrow> None)
      of
        None \<Rightarrow> Fail UnknownConstructor
      | Some cs \<Rightarrow>
          (case find (\<lambda>k. ctor_id k = c) cs of
             None \<Rightarrow> Fail UnknownConstructor
           | Some k \<Rightarrow> Done k))"

fun specialize_constructor :: "'c matrix \<Rightarrow> 'c \<Rightarrow> nat \<Rightarrow> 'c matrix outcome" where
  "specialize_constructor [] c arity = Done []"
| "specialize_constructor (row # rows) c arity =
     (case row of
        [] \<Rightarrow> Panic
      | p # ps \<Rightarrow>
          (case p of
             Wildcard \<Rightarrow>
               bind_o (specialize_constructor rows c arity) (\<lambda>m. Done ((replicate arity Wildcard @ ps) # m))
           | Constructor c' fs \<Rightarrow>
               if c' = c then
                 bind_o (check_arity (length fs) arity) (\<lambda>_.
                 bind_o (specialize_constructor rows c arity) (\<lambda>m. Done ((fs @ ps) # m)))
               else specialize_constructor rows c arity
           | ScalarRange _ _ \<Rightarrow> specialize_constructor rows c arity
           | Opaque \<Rightarrow> specialize_constructor rows c arity))"

fun specialize_scalar :: "'c matrix \<Rightarrow> int \<Rightarrow> int \<Rightarrow> 'c matrix outcome" where
  "specialize_scalar [] part_start part_end = Done []"
| "specialize_scalar (row # rows) part_start part_end =
     (case row of
        [] \<Rightarrow> Panic
      | p # ps \<Rightarrow>
          bind_o (specialize_scalar rows part_start part_end) (\<lambda>m.
            case p of
              Wildcard \<Rightarrow> Done (ps # m)
            | ScalarRange s e \<Rightarrow> Done (if s \<le> part_start \<and> part_end \<le> e then ps # m else m)
            | _ \<Rightarrow> Done m))"

fun default_matrix :: "'c matrix \<Rightarrow> 'c matrix outcome" where
  "default_matrix [] = Done []"
| "default_matrix (row # rows) =
     (case row of
        [] \<Rightarrow> Panic
      | p # ps \<Rightarrow> bind_o (default_matrix rows) (\<lambda>m. Done (if p = Wildcard then ps # m else m)))"


section \<open>Validation of an uncovered query\<close>

text \<open>
  \<open>validate_wildcard_head\<close> is inlined in the fuel recursion: its only recursive call is the one in
  the loop over the constructors. \<open>active\<close> is the stack \<^verbatim>\<open>active_types\<close>.
\<close>

fun first_true :: "('x \<Rightarrow> bool outcome) \<Rightarrow> 'x list \<Rightarrow> bool outcome" where
  "first_true f [] = Done False"
| "first_true f (x # xs) = bind_o (f x) (\<lambda>b. if b then Done True else first_true f xs)"

definition validate_wildcard_head ::
  "('c pattern list \<Rightarrow> 't list \<Rightarrow> bool outcome) \<Rightarrow> ('t, 'c) domain \<Rightarrow> bool outcome" where
  "validate_wildcard_head rec d =
     (case d of
        Finite cs \<Rightarrow>
          first_true (\<lambda>k. rec (replicate (length (ctor_fields k)) Wildcard) (ctor_fields k)) cs
      | Open _ \<Rightarrow> Done True
      | OpaqueDomain \<Rightarrow> Done True
      | Scalar mn mx _ \<Rightarrow> Done (mn \<le> mx))"

fun validate_empty_query_inner ::
  "nat \<Rightarrow> ('t \<Rightarrow> ('t, 'c) domain) \<Rightarrow> 't list \<Rightarrow> 'c pattern list \<Rightarrow> 't list \<Rightarrow> bool outcome" where
  "validate_empty_query_inner 0 D active query types = NoFuel"
| "validate_empty_query_inner (Suc n) D active query types =
     (case query of
        [] \<Rightarrow> Done True
      | q # qs \<Rightarrow>
          (case types of
             [] \<Rightarrow> Panic
           | t # ts \<Rightarrow>
               bind_o
                 (case q of
                    Constructor c fs \<Rightarrow>
                      bind_o (find_constructor (D t) c) (\<lambda>k.
                      bind_o (check_arity (length fs) (length (ctor_fields k))) (\<lambda>_.
                        validate_empty_query_inner n D active fs (ctor_fields k)))
                  | ScalarRange s e \<Rightarrow>
                      (case D t of
                         Scalar mn mx _ \<Rightarrow> Done (clip_range s e mn mx \<noteq> None)
                       | _ \<Rightarrow> Fail ScalarPatternOutsideScalarDomain)
                  | _ \<Rightarrow>
                      if t \<in> set active then Done False
                      else validate_wildcard_head (validate_empty_query_inner n D (active @ [t])) (D t))
                 (\<lambda>head_result.
                    if \<not> head_result then Done False
                    else validate_empty_query_inner n D active qs ts)))"

definition validate_empty_query ::
  "nat \<Rightarrow> ('t \<Rightarrow> ('t, 'c) domain) \<Rightarrow> 'c pattern list \<Rightarrow> 't list \<Rightarrow> bool outcome" where
  "validate_empty_query n D query types = validate_empty_query_inner n D [] query types"


section \<open>Usefulness\<close>

text \<open>\<^verbatim>\<open>witness.split_off(n)\<close> and the constructor rebuilt around the first part.\<close>

definition rebuild :: "'c \<Rightarrow> nat \<Rightarrow> 'c pattern list \<Rightarrow> 'c pattern list outcome" where
  "rebuild c n witness =
     (if length witness < n then Panic
      else Done (Constructor c (take n witness) # drop n witness))"

definition rebuild_opt :: "'c \<Rightarrow> nat \<Rightarrow> 'c pattern list option \<Rightarrow> 'c pattern list option outcome" where
  "rebuild_opt c n r =
     (case r of None \<Rightarrow> Done None | Some w \<Rightarrow> bind_o (rebuild c n w) (\<lambda>w'. Done (Some w')))"

text \<open>The default matrix is queried with the tail, and the head put back in front of a witness.\<close>

definition useful_default ::
  "('c matrix \<Rightarrow> 'c pattern list option outcome) \<Rightarrow> 'c pattern \<Rightarrow> 'c matrix \<Rightarrow> 'c pattern list option outcome" where
  "useful_default rec head matrix =
     bind_o (default_matrix matrix) (\<lambda>m. bind_o (rec m) (\<lambda>r. Done (map_option ((#) head) r)))"

definition useful_part ::
  "('c matrix \<Rightarrow> 'c pattern list option outcome) \<Rightarrow> 'c matrix \<Rightarrow> int \<times> int \<Rightarrow> 'c pattern list option outcome" where
  "useful_part rec matrix part =
     bind_o (specialize_scalar matrix (fst part) (snd part)) (\<lambda>m.
     bind_o (rec m) (\<lambda>r. Done (map_option ((#) (ScalarRange (fst part) (fst part))) r)))"

definition useful_wildcard ::
  "('c matrix \<Rightarrow> 'c pattern list \<Rightarrow> 't list \<Rightarrow> 'c pattern list option outcome) \<Rightarrow>
   'c matrix \<Rightarrow> 'c pattern list \<Rightarrow> 't list \<Rightarrow> ('t, 'c) domain \<Rightarrow> 'c pattern list option outcome" where
  "useful_wildcard rec matrix tl_q tl_t d =
     (let rest = (\<lambda>m. rec m tl_q tl_t);
          ctor = (\<lambda>k. bind_o (specialize_constructor matrix (ctor_id k) (length (ctor_fields k))) (\<lambda>m.
            bind_o (rec m (replicate (length (ctor_fields k)) Wildcard @ tl_q) (ctor_fields k @ tl_t))
              (rebuild_opt (ctor_id k) (length (ctor_fields k)))))
      in case d of
           Finite cs \<Rightarrow> first_some ctor (Done None) cs
         | Open cs \<Rightarrow> first_some ctor (useful_default rest Wildcard matrix) cs
         | Scalar mn mx complete \<Rightarrow>
             first_some (useful_part rest matrix)
               (if \<not> complete then useful_default rest Wildcard matrix else Done None)
               (scalar_partitions matrix None mn mx)
         | OpaqueDomain \<Rightarrow> useful_default rest Wildcard matrix)"

fun useful_inner ::
  "nat \<Rightarrow> ('t \<Rightarrow> ('t, 'c) domain) \<Rightarrow> 'c matrix \<Rightarrow> 'c pattern list \<Rightarrow> 't list
    \<Rightarrow> 'c pattern list option outcome" where
  "useful_inner 0 D matrix query types = NoFuel"
| "useful_inner (Suc n) D matrix query types =
     (if matrix = [] then
        bind_o (validate_empty_query n D query types) (\<lambda>b. Done (if b then Some query else None))
      else
        (case query of
           [] \<Rightarrow> Done None
         | head # tl_q \<Rightarrow>
             if list_ex (list_all (\<lambda>p. p = Wildcard)) matrix then Done None
             else
               (case types of
                  [] \<Rightarrow> Panic
                | head_ty # tl_t \<Rightarrow>
                    (case head of
                       Constructor c fs \<Rightarrow>
                         bind_o (find_constructor (D head_ty) c) (\<lambda>k.
                         bind_o (check_arity (length fs) (length (ctor_fields k))) (\<lambda>_.
                         bind_o (specialize_constructor matrix c (length (ctor_fields k))) (\<lambda>m.
                         bind_o (useful_inner n D m (fs @ tl_q) (ctor_fields k @ tl_t))
                           (rebuild_opt c (length (ctor_fields k))))))
                     | ScalarRange s e \<Rightarrow>
                         (case D head_ty of
                            Scalar mn mx _ \<Rightarrow>
                              (case clip_range s e mn mx of
                                 None \<Rightarrow> Done None
                               | Some (start, end') \<Rightarrow>
                                   first_some
                                     (\<lambda>part.
                                        if fst part < start \<or> snd part > end' then Done None
                                        else useful_part (\<lambda>m. useful_inner n D m tl_q tl_t) matrix part)
                                     (Done None)
                                     (scalar_partitions matrix (Some (start, end')) mn mx))
                          | _ \<Rightarrow> Fail ScalarPatternOutsideScalarDomain)
                     | Wildcard \<Rightarrow> useful_wildcard (useful_inner n D) matrix tl_q tl_t (D head_ty)
                     | Opaque \<Rightarrow> useful_default (\<lambda>m. useful_inner n D m tl_q tl_t) Opaque matrix))))"

definition validate_widths :: "'c matrix \<Rightarrow> 'c pattern list \<Rightarrow> nat \<Rightarrow> unit outcome" where
  "validate_widths matrix query width =
     (if length query \<noteq> width then Fail (QueryWidth width (length query))
      else
        (case find (\<lambda>row. length row \<noteq> width) matrix of
           Some row \<Rightarrow> Fail (MatrixWidth width (length row))
         | None \<Rightarrow> Done ()))"

definition useful_witness ::
  "nat \<Rightarrow> 'c matrix \<Rightarrow> 'c pattern list \<Rightarrow> 't list \<Rightarrow> ('t \<Rightarrow> ('t, 'c) domain)
    \<Rightarrow> 'c pattern list option outcome" where
  "useful_witness n matrix query types D =
     bind_o (validate_widths matrix query (length types)) (\<lambda>_. useful_inner n D matrix query types)"

text \<open>\<^verbatim>\<open>.and_then(|mut witness| witness.pop())\<close>\<close>

definition pop :: "'a list \<Rightarrow> 'a option" where
  "pop xs = (if xs = [] then None else Some (last xs))"

definition missing_witness ::
  "nat \<Rightarrow> 'c matrix \<Rightarrow> 't \<Rightarrow> ('t \<Rightarrow> ('t, 'c) domain) \<Rightarrow> 'c pattern option outcome" where
  "missing_witness n matrix ty D =
     bind_o (useful_witness n matrix [Wildcard] [ty] D) (\<lambda>r. Done (Option.bind r pop))"

end
