(* ===== verification/Nia_Pattern_Soundness.thy ===== *)
theory Nia_Pattern_Soundness
  imports Nia_Pattern_Analysis
begin

text \<open>
  What the pattern analysis promises. Values of the matched types are given a semantics that is
  independent of the algorithm: constructor values, integers, and values a domain does not
  enumerate. A pattern is compared with a value in two ways: \<open>surely\<close> (an opaque pattern proves
  nothing) for the rows that count as coverage, and \<open>may\<close> (an opaque pattern may match) for the query.
\<close>

section \<open>Values and matching\<close>

datatype 'c val = VCon 'c "'c val list" | VInt int | VOther nat

fun surely :: "'c pattern \<Rightarrow> 'c val \<Rightarrow> bool" where
  "surely Wildcard v = True"
| "surely (Constructor c ps) (VCon d vs) = (c = d \<and> list_all2 surely ps vs)"
| "surely (Constructor c ps) (VInt i) = False"
| "surely (Constructor c ps) (VOther k) = False"
| "surely (ScalarRange s e) (VInt i) = (s \<le> i \<and> i \<le> e)"
| "surely (ScalarRange s e) (VCon d vs) = False"
| "surely (ScalarRange s e) (VOther k) = False"
| "surely Opaque v = False"

fun may :: "'c pattern \<Rightarrow> 'c val \<Rightarrow> bool" where
  "may Wildcard v = True"
| "may (Constructor c ps) (VCon d vs) = (c = d \<and> list_all2 may ps vs)"
| "may (Constructor c ps) (VInt i) = False"
| "may (Constructor c ps) (VOther k) = False"
| "may (ScalarRange s e) (VInt i) = (s \<le> i \<and> i \<le> e)"
| "may (ScalarRange s e) (VCon d vs) = False"
| "may (ScalarRange s e) (VOther k) = False"
| "may Opaque v = True"

definition known :: "('t, 'c) domain \<Rightarrow> ('t, 'c) constructor list" where
  "known d = (case d of Finite cs \<Rightarrow> cs | Open cs \<Rightarrow> cs | _ \<Rightarrow> [])"

definition unlisted :: "('t, 'c) domain \<Rightarrow> bool" where
  "unlisted d = (case d of Finite _ \<Rightarrow> False | Open _ \<Rightarrow> True | Scalar _ _ complete \<Rightarrow> \<not> complete | OpaqueDomain \<Rightarrow> True)"

inductive has_type :: "('t \<Rightarrow> ('t, 'c) domain) \<Rightarrow> 'c val \<Rightarrow> 't \<Rightarrow> bool" for D where
  type_con: "k \<in> set (known (D t)) \<Longrightarrow> list_all2 (has_type D) vs (ctor_fields k) \<Longrightarrow>
     has_type D (VCon (ctor_id k) vs) t"
| type_int: "D t = Scalar mn mx complete \<Longrightarrow> mn \<le> i \<Longrightarrow> i \<le> mx \<Longrightarrow> has_type D (VInt i) t"
| type_other: "unlisted (D t) \<Longrightarrow> has_type D (VOther k) t"

inductive_simps has_type_VCon: "has_type D (VCon c vs) t"
inductive_simps has_type_VInt: "has_type D (VInt i) t"
inductive_simps has_type_VOther: "has_type D (VOther k) t"

lemmas has_type_simps = has_type_VCon has_type_VInt has_type_VOther

text \<open>Constructor identities name one constructor of a domain.\<close>

definition distinct_ctors :: "('t \<Rightarrow> ('t, 'c) domain) \<Rightarrow> bool" where
  "distinct_ctors D \<longleftrightarrow> (\<forall>t. distinct (map ctor_id (known (D t))))"

abbreviation covers :: "'c matrix \<Rightarrow> 'c val list \<Rightarrow> bool" where
  "covers m vs \<equiv> \<exists>r \<in> set m. list_all2 surely r vs"


section \<open>Outcomes\<close>

lemma bind_o_Done [simp]: "bind_o x f = Done y \<longleftrightarrow> (\<exists>z. x = Done z \<and> f z = Done y)"
  by (cases x) auto

lemma check_arity_Done [simp]: "check_arity a b = Done u \<longleftrightarrow> a = b"
  by (simp add: check_arity_def)

lemma first_some_None:
  "first_some f after xs = Done None \<longleftrightarrow> (\<forall>x \<in> set xs. f x = Done None) \<and> after = Done None"
  by (induction xs) (auto split: option.splits)

lemma first_some_Some:
  "first_some f after xs = Done (Some w) \<Longrightarrow>
     (\<exists>x \<in> set xs. f x = Done (Some w)) \<or> after = Done (Some w)"
  by (induction xs) (auto split: option.splits)

lemma first_true_False: "first_true f xs = Done False \<longleftrightarrow> (\<forall>x \<in> set xs. f x = Done False)"
  by (induction xs) (auto split: if_splits)

lemma first_true_True: "first_true f xs = Done True \<Longrightarrow> \<exists>x \<in> set xs. f x = Done True"
  by (induction xs) (auto split: if_splits)

lemma find_constructor_Done:
  "find_constructor d c = Done k \<Longrightarrow> k \<in> set (known d) \<and> ctor_id k = c"
  by (auto simp: find_constructor_def known_def split: domain.splits option.splits dest: find_Some_mem)

lemma distinct_ctorsD:
  "distinct_ctors D \<Longrightarrow> k \<in> set (known (D t)) \<Longrightarrow> k' \<in> set (known (D t)) \<Longrightarrow> ctor_id k = ctor_id k' \<Longrightarrow> k = k'"
  unfolding distinct_ctors_def by (metis distinct_map inj_onD)


section \<open>Specialisation and coverage\<close>

lemma surely_replicate: "length ws = n \<Longrightarrow> list_all2 surely (replicate n Wildcard) ws"
  by (induction ws arbitrary: n) auto

lemma may_replicate: "length ws = n \<Longrightarrow> list_all2 may (replicate n Wildcard) ws"
  by (induction ws arbitrary: n) auto

lemma list_all2_append_len:
  "length ps = length ws \<Longrightarrow> list_all2 P (ps @ qs) (ws @ vs) \<longleftrightarrow> list_all2 P ps ws \<and> list_all2 P qs vs"
  by (rule list_all2_append)

lemma specialize_constructor_covers:
  assumes "specialize_constructor M c n = Done m" "length ws = n"
  shows "covers m (ws @ vs) \<longleftrightarrow> covers M (VCon c ws # vs)"
  using assms
proof (induction M arbitrary: m)
  case (Cons row rows)
  then show ?case
    by (cases row)
      (auto simp: list_all2_append_len surely_replicate split: pattern.splits if_splits dest: list_all2_lengthD)
qed simp

lemma default_matrix_covers:
  assumes "default_matrix M = Done m" "covers m vs"
  shows "covers M (v # vs)"
  using assms
proof (induction M arbitrary: m)
  case step: (Cons row rows)
  then show ?case by (cases row) (auto split: if_splits, blast?)
qed simp

lemma default_matrix_covers_other:
  assumes "default_matrix M = Done m" "covers M (VOther k # vs)"
  shows "covers m vs"
  using assms
proof (induction M arbitrary: m)
  case step: (Cons row rows)
  show ?case
  proof (cases row)
    case (Cons p ps)
    with step show ?thesis by (cases p) (auto split: if_splits, blast+)
  qed (use step in auto)
qed simp

lemma specialize_scalar_covers:
  assumes "specialize_scalar M s e = Done m" "covers m vs" "s \<le> i" "i \<le> e"
  shows "covers M (VInt i # vs)"
  using assms
proof (induction M arbitrary: m)
  case step: (Cons row rows)
  show ?case
  proof (cases row)
    case (Cons p ps)
    with step show ?thesis by (cases p) (auto split: if_splits, blast+)
  qed (use step in auto)
qed simp

text \<open>A part that no scalar head of the matrix divides.\<close>

definition undivided :: "'c matrix \<Rightarrow> int \<Rightarrow> int \<Rightarrow> bool" where
  "undivided M s e \<longleftrightarrow> (\<forall>(a, b) \<in> set (scalar_heads M). a \<le> s \<longrightarrow> s \<le> b \<longrightarrow> e \<le> b)"

lemma scalar_heads_Cons:
  "scalar_heads (row # rows) =
     (case row of ScalarRange a b # _ \<Rightarrow> (a, b) # scalar_heads rows | _ \<Rightarrow> scalar_heads rows)"
  by (simp add: scalar_heads_def List.map_filter_simps split: list.split pattern.split)

lemma specialize_scalar_covers_conv:
  assumes "specialize_scalar M s e = Done m" "covers M (VInt s # vs)" "undivided M s e"
  shows "covers m vs"
  using assms
proof (induction M arbitrary: m)
  case step: (Cons row rows)
  show ?case
  proof (cases row)
    case (Cons p ps)
    with step show ?thesis
      by (cases p) (auto simp: undivided_def scalar_heads_Cons split: if_splits, blast+)
  qed (use step in auto)
qed simp

section \<open>Partitions of a scalar domain\<close>

lemma strict_sorted_remdups_adj: "sorted xs \<Longrightarrow> sorted_wrt (<) (remdups_adj xs)" for xs :: "int list"
  by (induction xs rule: remdups_adj.induct) (auto simp: less_le_trans)

lemma strict_sorted_boundaries: "sorted_wrt (<) (remdups_adj (sort xs))" for xs :: "int list"
  by (rule strict_sorted_remdups_adj) simp

lemma saturating_dec_eq: "- (2 ^ 127) < i \<Longrightarrow> saturating_dec i = i - 1"
  by (simp add: saturating_dec_def)

lemma partition_pairs_cover:
  assumes "sorted_wrt (<) bs" "bs \<noteq> []" "hd bs \<le> i" "i \<le> mx" "\<forall>b \<in> set (tl bs). - (2 ^ 127) < b"
  shows "\<exists>(s, e) \<in> set (partition_pairs mx bs). s \<le> i \<and> i \<le> e"
  using assms
proof (induction mx bs rule: partition_pairs.induct)
  case (3 mx s nxt r)
  show ?case
  proof (cases "i < nxt")
    case True
    with 3 show ?thesis by (simp add: saturating_dec_eq)
  next
    case False
    with 3 show ?thesis by auto
  qed
qed auto

lemma partition_pairs_part:
  assumes "(s, e) \<in> set (partition_pairs mx bs)" "sorted_wrt (<) bs" "\<forall>b \<in> set bs. b \<le> mx"
    "\<forall>b \<in> set (tl bs). - (2 ^ 127) < b"
  shows "s \<in> set bs \<and> s \<le> e \<and> e \<le> mx \<and> (\<forall>b \<in> set bs. \<not> (s < b \<and> b \<le> e))"
  using assms
proof (induction mx bs rule: partition_pairs.induct)
  case (3 mx s' nxt r)
  show ?case
  proof (cases "(s, e) = (s', saturating_dec nxt)")
    case True
    with 3 show ?thesis by (force simp: saturating_dec_eq)
  next
    case False
    with "3.prems"(1) have mem: "(s, e) \<in> set (partition_pairs mx (nxt # r))" by auto
    have rec: "s \<in> set (nxt # r) \<and> s \<le> e \<and> e \<le> mx \<and> (\<forall>b \<in> set (nxt # r). \<not> (s < b \<and> b \<le> e))"
      by (rule "3.IH" [OF mem]) (use "3.prems" in auto)
    then have "s' < s" using "3.prems"(2) by auto
    with rec show ?thesis by auto
  qed
qed auto

definition i128_range :: "int \<Rightarrow> int \<Rightarrow> bool" where
  "i128_range mn mx \<longleftrightarrow> - (2 ^ 127) \<le> mn \<and> mx < 2 ^ 127"

lemma range_boundaries_bounds: "b \<in> set (range_boundaries mn mx r) \<Longrightarrow> mn \<le> b \<and> b \<le> mx"
  by (auto simp: range_boundaries_def clip_range_def Let_def split: if_splits option.splits)

lemma boundaries_bounds: "mn \<le> mx \<Longrightarrow> b \<in> set (boundaries M q mn mx) \<Longrightarrow> mn \<le> b \<and> b \<le> mx"
  by (auto simp: boundaries_def dest: range_boundaries_bounds)

lemma boundaries_hd:
  assumes "mn \<le> mx"
  shows "hd (remdups_adj (sort (boundaries M q mn mx))) = mn" "remdups_adj (sort (boundaries M q mn mx)) \<noteq> []"
proof -
  let ?b = "boundaries M q mn mx"
  show "remdups_adj (sort ?b) \<noteq> []" by (simp add: boundaries_def)
  have "mn \<in> set ?b" by (simp add: boundaries_def)
  then have "hd (sort ?b) \<le> mn"
    by (metis list.set_cases list.sel(1) set_sort sorted_simps(2) sorted_sort order_refl)
  moreover have "hd (sort ?b) \<in> set ?b" using \<open>mn \<in> set ?b\<close> by (metis hd_in_set set_sort empty_iff list.set(1))
  ultimately have "hd (sort ?b) = mn" using boundaries_bounds [OF assms] by (meson antisym)
  then show "hd (remdups_adj (sort ?b)) = mn" by simp
qed

lemma boundaries_tl:
  assumes "mn \<le> mx" "i128_range mn mx"
  shows "\<forall>b \<in> set (tl (remdups_adj (sort (boundaries M q mn mx)))). - (2 ^ 127) < b"
proof -
  let ?bs = "remdups_adj (sort (boundaries M q mn mx))"
  have "\<forall>b \<in> set (tl ?bs). hd ?bs < b"
    using strict_sorted_boundaries [of "boundaries M q mn mx"] by (cases ?bs) auto
  then show ?thesis using boundaries_hd [OF assms(1), of M q] assms(2) by (auto simp: i128_range_def)
qed

lemma scalar_partitions_cover:
  assumes "i128_range mn mx" "mn \<le> i" "i \<le> mx"
  shows "\<exists>(s, e) \<in> set (scalar_partitions M q mn mx). s \<le> i \<and> i \<le> e"
  using partition_pairs_cover [of "remdups_adj (sort (boundaries M q mn mx))" i mx]
    strict_sorted_boundaries [of "boundaries M q mn mx"] boundaries_tl [of mn mx M q]
    boundaries_hd [of mn mx M q] assms by (simp add: scalar_partitions_def)

lemma scalar_partitions_part:
  assumes "(s, e) \<in> set (scalar_partitions M q mn mx)" "i128_range mn mx"
  shows "s \<le> e" "mn \<le> s" "e \<le> mx" "b \<in> set (boundaries M q mn mx) \<Longrightarrow> \<not> (s < b \<and> b \<le> e)"
proof -
  have le: "mn \<le> mx" using assms(1) by (auto simp: scalar_partitions_def split: if_splits)
  have "s \<in> set (boundaries M q mn mx) \<and> s \<le> e \<and> e \<le> mx
      \<and> (\<forall>b \<in> set (boundaries M q mn mx). \<not> (s < b \<and> b \<le> e))"
    using partition_pairs_part [OF _ strict_sorted_boundaries _ boundaries_tl [OF le assms(2)], of s e mx M q]
      assms(1) le boundaries_bounds [OF le, of _ M q] by (simp add: scalar_partitions_def)
  then show "s \<le> e" "mn \<le> s" "e \<le> mx" "b \<in> set (boundaries M q mn mx) \<Longrightarrow> \<not> (s < b \<and> b \<le> e)"
    using boundaries_bounds [OF le] by blast+
qed

lemma boundary_after:
  assumes "(a, b) \<in> set (scalar_heads M @ (case q of None \<Rightarrow> [] | Some r \<Rightarrow> [r]))"
    and "a \<le> i" "i \<le> b" "mn \<le> i" "i \<le> mx"
  shows "max a mn \<in> set (boundaries M q mn mx)" "b < mx \<Longrightarrow> b + 1 \<in> set (boundaries M q mn mx)"
proof -
  have "set (range_boundaries mn mx (a, b)) \<subseteq> set (boundaries M q mn mx)"
    using assms(1) by (auto simp: boundaries_def)
  moreover have "max a mn \<in> set (range_boundaries mn mx (a, b))"
    "b < mx \<Longrightarrow> b + 1 \<in> set (range_boundaries mn mx (a, b))"
    using assms(2-5) by (simp_all add: range_boundaries_def clip_range_def Let_def)
  ultimately show "max a mn \<in> set (boundaries M q mn mx)"
    "b < mx \<Longrightarrow> b + 1 \<in> set (boundaries M q mn mx)" by blast+
qed

lemma scalar_partitions_undivided:
  assumes "(s, e) \<in> set (scalar_partitions M q mn mx)" "i128_range mn mx"
  shows "undivided M s e"
  unfolding undivided_def
proof (clarify, rule ccontr)
  fix a b assume ab: "(a, b) \<in> set (scalar_heads M)" "a \<le> s" "s \<le> b" and "\<not> e \<le> b"
  note part = scalar_partitions_part [OF assms]
  have "b < mx" using \<open>\<not> e \<le> b\<close> part(3) by simp
  then have "b + 1 \<in> set (boundaries M q mn mx)"
    using boundary_after(2) [of a b M q s mn mx] ab part by simp
  from part(4) [OF this] \<open>\<not> e \<le> b\<close> ab(3) show False by simp
qed

lemma scalar_partitions_inside:
  assumes "(s, e) \<in> set (scalar_partitions M (Some (a, b)) mn mx)" "i128_range mn mx"
    and "mn \<le> a" "b \<le> mx" "a \<le> i" "i \<le> b" "s \<le> i" "i \<le> e"
  shows "a \<le> s \<and> e \<le> b"
proof -
  note part = scalar_partitions_part [OF assms(1,2)]
  have "max a mn \<in> set (boundaries M (Some (a, b)) mn mx)"
    "b < mx \<Longrightarrow> b + 1 \<in> set (boundaries M (Some (a, b)) mn mx)"
    using boundary_after [of a b M "Some (a, b)" i mn mx] assms by simp_all
  with part(3) part(4) assms show ?thesis by (smt (verit) max_def)
qed

section \<open>Validation decides inhabitation\<close>

text \<open>
  What an adapter's domains satisfy: constructor identities are unique, scalar bounds are \<^verbatim>\<open>i128\<close>
  values, and an incomplete scalar domain shows a non-empty interval.
\<close>

definition domain_ok :: "('t \<Rightarrow> ('t, 'c) domain) \<Rightarrow> bool" where
  "domain_ok D \<longleftrightarrow> distinct_ctors D
     \<and> (\<forall>t mn mx complete. D t = Scalar mn mx complete \<longrightarrow> i128_range mn mx \<and> (\<not> complete \<longrightarrow> mn \<le> mx))"

lemma size_VCon_less: "w \<in> set ws \<Longrightarrow> size w < size (VCon c ws)"
  by (simp add: less_Suc_eq_le size_list_estimation')

lemma least_value:
  assumes "has_type D v t"
  obtains v0 where "has_type D v0 t" "size v0 \<le> size v" "\<And>w. has_type D w t \<Longrightarrow> size v0 \<le> size w"
  using ex_has_least_nat [of "\<lambda>v. has_type D v t" v size] assms by blast

lemma clip_range_None: "clip_range s e mn mx = None \<Longrightarrow> \<not> (s \<le> i \<and> i \<le> e \<and> mn \<le> i \<and> i \<le> mx)"
  by (auto simp: clip_range_def Let_def split: if_splits)

lemma clip_range_Some:
  "clip_range s e mn mx = Some (a, b) \<longleftrightarrow> a = max s mn \<and> b = min e mx \<and> a \<le> b"
  by (auto simp: clip_range_def Let_def)

abbreviation wildcards :: "'t list \<Rightarrow> 'c pattern list" where
  "wildcards ts \<equiv> replicate (length ts) Wildcard"

text \<open>
  A rejected query has no value, unless an active type has one that is not larger: wildcard
  expansion may skip a type that is being expanded because a smallest value never contains
  another value of its own type.
\<close>

lemma validate_wildcard_False:
  assumes "validate_wildcard_head rec (D t) = Done False" "domain_ok D" "has_type D v t" "size v \<le> h"
    and rec: "\<And>k ws h. k \<in> set (known (D t)) \<Longrightarrow> rec (wildcards (ctor_fields k)) (ctor_fields k) = Done False \<Longrightarrow>
      list_all2 (has_type D) ws (ctor_fields k) \<Longrightarrow> \<forall>w \<in> set ws. size w \<le> h \<Longrightarrow>
      \<exists>a \<in> insert t A. \<exists>w. has_type D w a \<and> size w \<le> h"
  shows "\<exists>a \<in> A. \<exists>w. has_type D w a \<and> size w \<le> h"
proof -
  obtain v0 where v0: "has_type D v0 t" "size v0 \<le> size v" "\<And>w. has_type D w t \<Longrightarrow> size v0 \<le> size w"
    using least_value [OF assms(3)] by blast
  obtain cs where cs: "D t = Finite cs"
    using assms(1,2) v0(1)
    by (cases "D t") (auto simp: validate_wildcard_head_def domain_ok_def has_type.simps known_def unlisted_def)
  then obtain k ws where k: "v0 = VCon (ctor_id k) ws" "k \<in> set (known (D t))" "list_all2 (has_type D) ws (ctor_fields k)"
    using v0(1) by (auto simp: has_type.simps unlisted_def)
  have "rec (wildcards (ctor_fields k)) (ctor_fields k) = Done False"
    using assms(1) k(2) by (auto simp: validate_wildcard_head_def cs known_def first_true_False)
  moreover have "\<forall>w \<in> set ws. size w \<le> size v0 - 1"
    using size_VCon_less [of _ ws "ctor_id k"] k(1) by fastforce
  ultimately obtain a w where a: "a \<in> insert t A" "has_type D w a" "size w \<le> size v0 - 1"
    using rec [OF k(2) _ k(3)] by blast
  have "a \<noteq> t" using v0(3) [of w] a(2,3) k(1) by auto
  with a v0(2) assms(4) show ?thesis by (intro bexI [of _ a] exI [of _ w]) auto
qed

lemma validate_False:
  assumes "domain_ok D" "validate_empty_query_inner n D A q ts = Done False"
    and "list_all2 may q vs" "list_all2 (has_type D) vs ts" "\<forall>v \<in> set vs. size v \<le> h"
  shows "\<exists>a \<in> set A. \<exists>v. has_type D v a \<and> size v \<le> h"
  using assms(2-5)
proof (induction n arbitrary: A q ts vs h)
  case (Suc n)
  obtain p ps t ts' v vs' where eqs: "q = p # ps" "ts = t # ts'" "vs = v # vs'"
    using Suc.prems by (cases q; cases ts; cases vs) auto
  note prems = Suc.prems [unfolded eqs]
  have v: "may p v" "has_type D v t" "size v \<le> h" using prems by simp_all
  let ?head = "case p of
      Constructor c fs \<Rightarrow>
        bind_o (find_constructor (D t) c) (\<lambda>k.
        bind_o (check_arity (length fs) (length (ctor_fields k))) (\<lambda>_.
          validate_empty_query_inner n D A fs (ctor_fields k)))
    | ScalarRange s e \<Rightarrow>
        (case D t of
           Scalar mn mx _ \<Rightarrow> Done (clip_range s e mn mx \<noteq> None)
         | _ \<Rightarrow> Fail ScalarPatternOutsideScalarDomain)
    | _ \<Rightarrow>
        if t \<in> set A then Done False
        else validate_wildcard_head (validate_empty_query_inner n D (A @ [t])) (D t)"
  have "?head = Done False \<or> validate_empty_query_inner n D A ps ts' = Done False"
    using prems(1) by (auto split: if_splits)
  then show ?case
  proof
    assume "validate_empty_query_inner n D A ps ts' = Done False"
    from Suc.IH [OF this, of vs' h] prems(2-4) show ?thesis by simp
  next
    assume head: "?head = Done False"
    have wild: ?thesis if "p = Wildcard \<or> p = Opaque"
    proof (cases "t \<in> set A")
      case False
      with head that have "validate_wildcard_head (validate_empty_query_inner n D (A @ [t])) (D t) = Done False" by auto
      then show ?thesis
      proof (rule validate_wildcard_False [OF _ assms(1) v(2,3)])
        fix k ws h'
        assume "validate_empty_query_inner n D (A @ [t]) (wildcards (ctor_fields k)) (ctor_fields k) = Done False"
          and ws: "list_all2 (has_type D) ws (ctor_fields k)" "\<forall>w \<in> set ws. size w \<le> h'"
        from Suc.IH [OF this(1) may_replicate this(2,3)] list_all2_lengthD [OF ws(1)]
        show "\<exists>a \<in> insert t (set A). \<exists>w. has_type D w a \<and> size w \<le> h'" by simp
      qed
    qed (use v in blast)
    show ?thesis
    proof (cases p)
      case (Constructor c fs)
      with v(1) obtain ws where w: "v = VCon c ws" "list_all2 may fs ws" by (cases v) auto
      from head Constructor obtain k where k: "find_constructor (D t) c = Done k"
        "validate_empty_query_inner n D A fs (ctor_fields k) = Done False" by auto
      from find_constructor_Done [OF k(1)] v(2) w(1) assms(1) have "list_all2 (has_type D) ws (ctor_fields k)"
        by (auto simp: has_type_simps domain_ok_def dest: distinct_ctorsD)
      moreover have "\<forall>w \<in> set ws. size w \<le> h" using size_VCon_less [of _ ws c] w(1) v(3) by fastforce
      ultimately show ?thesis using Suc.IH [OF k(2) w(2)] by blast
    next
      case (ScalarRange s e)
      with head v show ?thesis
        by (cases v) (auto simp: has_type_simps clip_range_def Let_def split: domain.splits if_splits)
    qed (use wild in auto)
  qed
qed simp

section \<open>Exhaustiveness is sound\<close>

definition width :: "nat \<Rightarrow> 'c matrix \<Rightarrow> bool" where
  "width k M \<longleftrightarrow> (\<forall>r \<in> set M. length r = k)"

lemma width_specialize_constructor:
  "specialize_constructor M c n = Done m \<Longrightarrow> width (Suc k) M \<Longrightarrow> width (n + k) m"
proof (induction M arbitrary: m)
  case (Cons row rows)
  then show ?case
    by (cases row) (auto simp: width_def split: pattern.splits if_splits)
qed (simp add: width_def)

lemma width_specialize_scalar:
  "specialize_scalar M s e = Done m \<Longrightarrow> width (Suc k) M \<Longrightarrow> width k m"
proof (induction M arbitrary: m)
  case step: (Cons row rows)
  then obtain p ps where "row = p # ps" by (cases row) auto
  with step show ?case by (cases p) (auto simp: width_def split: if_splits)
qed (simp add: width_def)

lemma width_default_matrix: "default_matrix M = Done m \<Longrightarrow> width (Suc k) M \<Longrightarrow> width k m"
proof (induction M arbitrary: m)
  case (Cons row rows)
  then show ?case by (cases row) (auto simp: width_def split: if_splits)
qed (simp add: width_def)

lemmas width_specialize = width_specialize_constructor width_specialize_scalar width_default_matrix

lemma all_wildcards_cover:
  assumes "list_ex (list_all (\<lambda>p. p = Wildcard)) M" "width (length vs) M"
  shows "covers M vs"
proof -
  obtain r where r: "r \<in> set M" "list_all (\<lambda>p. p = Wildcard) r" using assms(1) by (auto simp: list_ex_iff)
  then have "list_all2 surely r vs"
    using assms(2) by (auto simp: width_def list_all2_conv_all_nth list_all_length)
  with r show ?thesis by blast
qed

lemma rebuild_opt_None: "rebuild_opt c n r = Done None \<longleftrightarrow> r = None"
  by (auto simp: rebuild_opt_def split: option.splits)

lemma useful_default_None:
  "useful_default rec p M = Done None \<longleftrightarrow> (\<exists>m. default_matrix M = Done m \<and> rec m = Done None)"
  by (auto simp: useful_default_def)

lemma useful_part_None:
  "useful_part rec M part = Done None \<longleftrightarrow>
     (\<exists>m. specialize_scalar M (fst part) (snd part) = Done m \<and> rec m = Done None)"
  by (auto simp: useful_part_def)

text \<open>
  The contract of the recursive call, for the tail of a query: a negative answer means coverage of
  the values of that width.
\<close>

definition covers_tail ::
  "('t \<Rightarrow> ('t, 'c) domain) \<Rightarrow> ('c matrix \<Rightarrow> 'c pattern list \<Rightarrow> 't list \<Rightarrow> 'c pattern list option outcome) \<Rightarrow> bool" where
  "covers_tail D rec \<longleftrightarrow>
     (\<forall>m q ts vs. rec m q ts = Done None \<longrightarrow> width (length ts) m \<longrightarrow> list_all2 may q vs \<longrightarrow>
        list_all2 (has_type D) vs ts \<longrightarrow> covers m vs)"

lemma covers_tailD:
  "covers_tail D rec \<Longrightarrow> rec m q ts = Done None \<Longrightarrow> width (length ts) m \<Longrightarrow> list_all2 may q vs \<Longrightarrow>
   list_all2 (has_type D) vs ts \<Longrightarrow> covers m vs"
  unfolding covers_tail_def by blast

lemma ctor_covered:
  assumes "covers_tail D rec" "specialize_constructor M (ctor_id k) (length (ctor_fields k)) = Done m"
    and "rec m (ps @ tl_q) (ctor_fields k @ tl_t) = Done None" "width (Suc (length tl_t)) M"
    and "list_all2 may ps ws" "list_all2 (has_type D) ws (ctor_fields k)"
    and "list_all2 may tl_q vs" "list_all2 (has_type D) vs tl_t"
  shows "covers M (VCon (ctor_id k) ws # vs)"
proof -
  have "covers m (ws @ vs)"
    using assms(1,3)
  proof (rule covers_tailD)
    show "width (length (ctor_fields k @ tl_t)) m"
      using width_specialize_constructor [OF assms(2,4)] by simp
  qed (use assms(5-8) in \<open>simp_all add: list_all2_appendI\<close>)
  with specialize_constructor_covers [OF assms(2)] list_all2_lengthD [OF assms(6)] show ?thesis by simp
qed

lemma default_covered:
  assumes "covers_tail D rec" "useful_default (\<lambda>m. rec m tl_q tl_t) p M = Done None"
    and "width (Suc (length tl_t)) M" "list_all2 may tl_q vs" "list_all2 (has_type D) vs tl_t"
  shows "covers M (v # vs)"
proof -
  obtain m where m: "default_matrix M = Done m" "rec m tl_q tl_t = Done None"
    using assms(2) by (auto simp: useful_default_None)
  have "covers m vs"
    using assms(1) m(2) width_default_matrix [OF m(1) assms(3)] assms(4,5) by (rule covers_tailD)
  with m(1) show ?thesis by (rule default_matrix_covers)
qed

lemma part_covered:
  assumes "covers_tail D rec" "useful_part (\<lambda>m. rec m tl_q tl_t) M (s, e) = Done None"
    and "width (Suc (length tl_t)) M" "list_all2 may tl_q vs" "list_all2 (has_type D) vs tl_t" "s \<le> i" "i \<le> e"
  shows "covers M (VInt i # vs)"
proof -
  obtain m where m: "specialize_scalar M s e = Done m" "rec m tl_q tl_t = Done None"
    using assms(2) by (auto simp: useful_part_None)
  have "covers m vs"
    using assms(1) m(2) width_specialize_scalar [OF m(1) assms(3)] assms(4,5) by (rule covers_tailD)
  with m(1) show ?thesis using assms(6,7) by (rule specialize_scalar_covers)
qed

lemma useful_wildcard_None:
  assumes "domain_ok D" "covers_tail D rec" "useful_wildcard rec M tl_q tl_t (D t) = Done None"
    and "width (Suc (length tl_t)) M" "has_type D v t"
    and tl: "list_all2 may tl_q vs" "list_all2 (has_type D) vs tl_t"
  shows "covers M (v # vs)"
  using assms(5)
proof (cases rule: has_type.cases)
  case (type_con k ws)
  then obtain m where "specialize_constructor M (ctor_id k) (length (ctor_fields k)) = Done m"
    "rec m (wildcards (ctor_fields k) @ tl_q) (ctor_fields k @ tl_t) = Done None"
    using assms(3)
    by (auto simp: useful_wildcard_def Let_def known_def first_some_None rebuild_opt_None split: domain.splits)
  with type_con assms(2,4) tl show ?thesis
    using list_all2_lengthD [of _ ws "ctor_fields k"] by (auto intro: ctor_covered may_replicate)
next
  case (type_int mn mx complete i)
  then obtain s e where "(s, e) \<in> set (scalar_partitions M None mn mx)" "s \<le> i" "i \<le> e"
    using scalar_partitions_cover [of mn mx i M None] assms(1) by (auto simp: domain_ok_def)
  with type_int assms(2-4) tl show ?thesis
    by (auto simp: useful_wildcard_def Let_def first_some_None intro: part_covered)
next
  case (type_other k)
  then have "useful_default (\<lambda>m. rec m tl_q tl_t) Wildcard M = Done None"
    using assms(3) by (auto simp: useful_wildcard_def Let_def unlisted_def first_some_None split: domain.splits if_splits)
  from default_covered [OF assms(2) this assms(4) tl] show ?thesis .
qed

lemma useful_inner_None:
  assumes "domain_ok D"
  shows "covers_tail D (useful_inner n D)"
proof (induction n)
  case 0
  show ?case by (simp add: covers_tail_def)
next
  case (Suc n)
  show ?case
    unfolding covers_tail_def
  proof (intro allI impI)
    fix M q ts vs
    assume use: "useful_inner (Suc n) D M q ts = Done None" and w: "width (length ts) M"
      and may: "list_all2 may q vs" and ty: "list_all2 (has_type D) vs ts"
    show "covers M vs"
    proof (cases "M = []")
      case True
      then have "validate_empty_query_inner n D [] q ts = Done False"
        using use by (auto simp: validate_empty_query_def split: if_splits)
      from validate_False [OF assms this may ty, of "sum_list (map size vs)"] show ?thesis
        by (auto simp: member_le_sum_list)
    next
      case ne: False
      have len: "length ts = length vs" using list_all2_lengthD [OF ty] by simp
      show ?thesis
      proof (cases q)
        case Nil
        with may w len ne show ?thesis by (cases M) (auto simp: width_def)
      next
        case (Cons p tl_q)
        then obtain v vs' t tl_t where eqs: "vs = v # vs'" "ts = t # tl_t" using may ty by (cases vs; cases ts) auto
        show ?thesis
        proof (cases "list_ex (list_all (\<lambda>p. p = Wildcard)) M")
          case True
          then show ?thesis using w len by (intro all_wildcards_cover) simp_all
        next
          case False
          have w': "width (Suc (length tl_t)) M" and tl: "list_all2 may tl_q vs'" "list_all2 (has_type D) vs' tl_t"
            and v: "may p v" "has_type D v t" using w may ty by (simp_all add: eqs Cons)
          note use' = use [unfolded useful_inner.simps eqs Cons, simplified ne False if_False list.case]
          show ?thesis
            unfolding eqs
          proof (cases p)
            case Wildcard
            with use' show "covers M (v # vs')"
              using useful_wildcard_None [OF assms Suc _ w' v(2) tl] by simp
          next
            case (Constructor c fs)
            with v(1) obtain ws where ws: "v = VCon c ws" "list_all2 may fs ws" by (cases v) auto
            from use' Constructor obtain k m where k: "find_constructor (D t) c = Done k"
              "specialize_constructor M c (length (ctor_fields k)) = Done m"
              "useful_inner n D m (fs @ tl_q) (ctor_fields k @ tl_t) = Done None"
              by (auto simp: rebuild_opt_None)
            from find_constructor_Done [OF k(1)] v(2) ws(1) assms have
              kk: "ctor_id k = c" "list_all2 (has_type D) ws (ctor_fields k)"
              by (auto simp: has_type_simps domain_ok_def dest: distinct_ctorsD)
            from ctor_covered [OF Suc k(2) [folded kk(1)] k(3) w' ws(2) kk(2) tl] show "covers M (v # vs')"
              using ws(1) kk(1) by simp
          next
            case (ScalarRange s e)
            with v obtain i mn mx complete where i: "v = VInt i" "s \<le> i" "i \<le> e" "D t = Scalar mn mx complete"
                "mn \<le> i" "i \<le> mx"
              by (cases v) (auto simp: has_type_simps)
            then obtain a b where ab: "clip_range s e mn mx = Some (a, b)" "a \<le> i" "i \<le> b" "mn \<le> a" "b \<le> mx"
              using clip_range_None [of s e mn mx i] by (cases "clip_range s e mn mx") (auto simp: clip_range_Some)
            have i128: "i128_range mn mx" using assms i(4) by (auto simp: domain_ok_def)
            obtain s' e' where part: "(s', e') \<in> set (scalar_partitions M (Some (a, b)) mn mx)" "s' \<le> i" "i \<le> e'"
              using scalar_partitions_cover [OF i128 i(5,6), of M "Some (a, b)"] by blast
            have "a \<le> s' \<and> e' \<le> b" using scalar_partitions_inside [OF part(1) i128 ab(4,5,2,3) part(2,3)] .
            with use' ScalarRange i(4) ab(1) part(1)
            have "useful_part (\<lambda>m. useful_inner n D m tl_q tl_t) M (s', e') = Done None"
              by (fastforce simp: first_some_None)
            from part_covered [OF Suc this w' tl part(2,3)] show "covers M (v # vs')" using i(1) by simp
          next
            case Opaque
            with use' show "covers M (v # vs')"
              using default_covered [OF Suc _ w' tl] by simp
          qed
        qed
      qed
    qed
  qed
qed

section \<open>Witnesses are uncovered values\<close>

fun opaque_free :: "'c pattern \<Rightarrow> bool" where
  "opaque_free Wildcard = True"
| "opaque_free (Constructor c ps) = list_all opaque_free ps"
| "opaque_free (ScalarRange s e) = True"
| "opaque_free Opaque = False"

lemma opaque_free_may: "opaque_free p \<Longrightarrow> may p v \<Longrightarrow> surely p v"
proof (induction p v rule: may.induct)
  case (2 c ps d vs)
  then show ?case by (auto simp: list_all2_conv_all_nth list_all_length)
qed auto

lemma opaque_free_may_list: "list_all opaque_free ps \<Longrightarrow> list_all2 may ps vs \<Longrightarrow> list_all2 surely ps vs"
  by (auto simp: list_all2_conv_all_nth list_all_length opaque_free_may)

lemma opaque_free_wildcards [simp]: "list_all opaque_free (wildcards ts)"
  by (simp add: list_all_iff)

lemma validate_wildcard_True:
  assumes "validate_wildcard_head rec (D t) = Done True"
    and "\<And>k. k \<in> set (known (D t)) \<Longrightarrow> rec (wildcards (ctor_fields k)) (ctor_fields k) = Done True \<Longrightarrow>
      \<exists>ws. list_all2 (has_type D) ws (ctor_fields k)"
  shows "\<exists>v. has_type D v t"
proof (cases "D t")
  case (Finite cs)
  then obtain k where "k \<in> set (known (D t))" "rec (wildcards (ctor_fields k)) (ctor_fields k) = Done True"
    using assms(1) first_true_True by (fastforce simp: validate_wildcard_head_def known_def)
  with assms(2) obtain ws where "list_all2 (has_type D) ws (ctor_fields k)" by blast
  then show ?thesis using type_con [of k D t ws] \<open>k \<in> set (known (D t))\<close> by blast
next
  case (Scalar mn mx complete)
  with assms(1) have "has_type D (VInt mn) t" by (auto simp: validate_wildcard_head_def intro: type_int)
  then show ?thesis by blast
qed (auto simp: unlisted_def intro!: exI [of _ "VOther 0"] type_other)

lemma validate_True:
  assumes "validate_empty_query_inner n D A q ts = Done True" "length q = length ts"
  shows "\<exists>vs. list_all2 may q vs \<and> list_all2 (has_type D) vs ts"
  using assms
proof (induction n arbitrary: A q ts)
  case (Suc n)
  show ?case
  proof (cases q)
    case Nil
    with Suc.prems(2) show ?thesis by simp
  next
    case (Cons p ps)
    with Suc.prems obtain t ts' where ts: "ts = t # ts'" "length ps = length ts'" by (cases ts) auto
    have tail: "validate_empty_query_inner n D A ps ts' = Done True"
      using Suc.prems(1) Cons ts(1) by (auto split: if_splits)
    from Suc.IH [OF tail ts(2)] obtain vs where vs: "list_all2 may ps vs" "list_all2 (has_type D) vs ts'" by blast
    have wild: "\<exists>v. has_type D v t" if "p = Wildcard \<or> p = Opaque"
    proof (rule validate_wildcard_True)
      show "validate_wildcard_head (validate_empty_query_inner n D (A @ [t])) (D t) = Done True"
        using Suc.prems(1) Cons ts(1) that by (auto split: if_splits)
    next
      fix k assume "validate_empty_query_inner n D (A @ [t]) (wildcards (ctor_fields k)) (ctor_fields k) = Done True"
      from Suc.IH [OF this] show "\<exists>ws. list_all2 (has_type D) ws (ctor_fields k)" by auto
    qed
    have "\<exists>v. may p v \<and> has_type D v t"
    proof (cases p)
      case (Constructor c fs)
      with Suc.prems(1) Cons ts(1) obtain k where k: "find_constructor (D t) c = Done k"
        "length fs = length (ctor_fields k)" "validate_empty_query_inner n D A fs (ctor_fields k) = Done True"
        by (auto split: if_splits)
      from Suc.IH [OF k(3,2)] obtain ws where "list_all2 may fs ws" "list_all2 (has_type D) ws (ctor_fields k)" by blast
      with Constructor find_constructor_Done [OF k(1)] type_con [of k D t ws] show ?thesis
        by (intro exI [of _ "VCon c ws"]) auto
    next
      case (ScalarRange s e)
      with Suc.prems(1) Cons ts(1) obtain mn mx complete where d: "D t = Scalar mn mx complete"
        "clip_range s e mn mx \<noteq> None" by (auto split: domain.splits if_splits)
      then have "s \<le> max s mn \<and> max s mn \<le> e \<and> mn \<le> max s mn \<and> max s mn \<le> mx"
        by (auto simp: clip_range_def Let_def split: if_splits)
      with ScalarRange d(1) show ?thesis by (intro exI [of _ "VInt (max s mn)"]) (auto intro: type_int)
    qed (use wild in auto)
    with vs Cons ts show ?thesis by blast
  qed
qed simp

text \<open>\<open>uncovered D w q ts M\<close>: a value of the types that matches the witness and the query and no row.\<close>

definition uncovered ::
  "('t \<Rightarrow> ('t, 'c) domain) \<Rightarrow> 'c pattern list \<Rightarrow> 'c pattern list \<Rightarrow> 't list \<Rightarrow> 'c matrix \<Rightarrow> bool" where
  "uncovered D w q ts M \<longleftrightarrow>
     (\<exists>vs. list_all2 (has_type D) vs ts \<and> list_all2 surely w vs \<and> list_all2 surely q vs \<and> \<not> covers M vs)"

definition witness_tail ::
  "('t \<Rightarrow> ('t, 'c) domain) \<Rightarrow> ('c matrix \<Rightarrow> 'c pattern list \<Rightarrow> 't list \<Rightarrow> 'c pattern list option outcome) \<Rightarrow> bool" where
  "witness_tail D rec \<longleftrightarrow>
     (\<forall>m q ts w. rec m q ts = Done (Some w) \<longrightarrow> length q = length ts \<longrightarrow>
        list_all opaque_free q \<longrightarrow> uncovered D w q ts m)"

lemma witness_tailD:
  "witness_tail D rec \<Longrightarrow> rec m q ts = Done (Some w) \<Longrightarrow> length q = length ts \<Longrightarrow>
   list_all opaque_free q \<Longrightarrow> uncovered D w q ts m"
  unfolding witness_tail_def by blast

lemma rebuild_opt_Some:
  "rebuild_opt c n r = Done (Some w) \<longleftrightarrow>
     (\<exists>w'. r = Some w' \<and> n \<le> length w' \<and> w = Constructor c (take n w') # drop n w')"
  by (auto simp: rebuild_opt_def rebuild_def split: option.splits if_splits)

lemma ctor_uncovered:
  assumes "witness_tail D rec" "specialize_constructor M (ctor_id k) (length (ctor_fields k)) = Done m"
    and "rec m (ps @ tl_q) (ctor_fields k @ tl_t) = Done (Some w')" "k \<in> set (known (D t))"
    and "length ps = length (ctor_fields k)" "length tl_q = length tl_t" "list_all opaque_free (ps @ tl_q)"
    and w: "w = Constructor (ctor_id k) (take (length (ctor_fields k)) w') # drop (length (ctor_fields k)) w'"
    and p: "\<And>ws. list_all2 surely ps ws \<Longrightarrow> surely p (VCon (ctor_id k) ws)"
  shows "uncovered D w (p # tl_q) (t # tl_t) M"
proof -
  let ?n = "length (ctor_fields k)"
  obtain us where us: "list_all2 (has_type D) us (ctor_fields k @ tl_t)" "list_all2 surely w' us"
    "list_all2 surely (ps @ tl_q) us" "\<not> covers m us"
    using witness_tailD [OF assms(1,3) _ assms(7)] assms(5,6) by (auto simp: uncovered_def)
  obtain ws vs where split: "us = ws @ vs" "length ws = ?n"
    using us(3) assms(5) by (metis append_eq_append_conv_if append_take_drop_id length_append list_all2_lengthD
        length_take min_absorb2 le_add1)
  have "list_all2 surely (take ?n w') ws" "list_all2 surely (drop ?n w') vs"
    using us(2) split by (auto simp: list_all2_append2 list_all2_lengthD)
  moreover have "list_all2 (has_type D) ws (ctor_fields k)" "list_all2 (has_type D) vs tl_t"
    "list_all2 surely ps ws" "list_all2 surely tl_q vs"
    using us(1,3) split assms(5) by (simp_all add: list_all2_append_len)
  moreover have "\<not> covers M (VCon (ctor_id k) ws # vs)"
    using us(4) specialize_constructor_covers [OF assms(2) split(2)] split(1) by simp
  ultimately show ?thesis
    unfolding uncovered_def w using type_con [of k D t ws] assms(4) p
    by (intro exI [of _ "VCon (ctor_id k) ws # vs"]) auto
qed

lemma default_uncovered:
  assumes "witness_tail D rec" "useful_default (\<lambda>m. rec m tl_q tl_t) Wildcard M = Done (Some w)"
    and "unlisted (D t)" "length tl_q = length tl_t" "list_all opaque_free tl_q"
  shows "uncovered D w (Wildcard # tl_q) (t # tl_t) M"
proof -
  obtain m w' where m: "default_matrix M = Done m" "rec m tl_q tl_t = Done (Some w')" "w = Wildcard # w'"
    using assms(2) by (auto simp: useful_default_def)
  obtain vs where vs: "list_all2 (has_type D) vs tl_t" "list_all2 surely w' vs" "list_all2 surely tl_q vs" "\<not> covers m vs"
    using witness_tailD [OF assms(1) m(2) assms(4,5)] by (auto simp: uncovered_def)
  have "\<not> covers M (VOther 0 # vs)" using default_matrix_covers_other [OF m(1)] vs(4) by blast
  with vs m(3) type_other [of D t 0, OF assms(3)] show ?thesis
    unfolding uncovered_def by (intro exI [of _ "VOther 0 # vs"]) auto
qed

lemma part_uncovered:
  assumes "witness_tail D rec" "useful_part (\<lambda>m. rec m tl_q tl_t) M (s, e) = Done (Some w)"
    and "D t = Scalar mn mx complete" "i128_range mn mx" "(s, e) \<in> set (scalar_partitions M q mn mx)"
    and "length tl_q = length tl_t" "list_all opaque_free tl_q" "surely p (VInt s)"
  shows "uncovered D w (p # tl_q) (t # tl_t) M"
proof -
  obtain m w' where m: "specialize_scalar M s e = Done m" "rec m tl_q tl_t = Done (Some w')"
    "w = ScalarRange s s # w'" using assms(2) by (auto simp: useful_part_def)
  obtain vs where vs: "list_all2 (has_type D) vs tl_t" "list_all2 surely w' vs" "list_all2 surely tl_q vs" "\<not> covers m vs"
    using witness_tailD [OF assms(1) m(2) assms(6,7)] by (auto simp: uncovered_def)
  have "\<not> covers M (VInt s # vs)"
    using specialize_scalar_covers_conv [OF m(1) _ scalar_partitions_undivided [OF assms(5,4)]] vs(4) by blast
  moreover have "has_type D (VInt s) t"
    using scalar_partitions_part [OF assms(5,4)] assms(3) by (auto intro: type_int)
  ultimately show ?thesis
    using vs m(3) assms(8) unfolding uncovered_def by (intro exI [of _ "VInt s # vs"]) auto
qed

lemma useful_wildcard_Some:
  assumes "domain_ok D" "witness_tail D rec" "useful_wildcard rec M tl_q tl_t (D t) = Done (Some w)"
    and len: "length tl_q = length tl_t" and free: "list_all opaque_free tl_q"
  shows "uncovered D w (Wildcard # tl_q) (t # tl_t) M"
proof -
  let ?ctor = "\<lambda>k. bind_o (specialize_constructor M (ctor_id k) (length (ctor_fields k))) (\<lambda>m.
    bind_o (rec m (wildcards (ctor_fields k) @ tl_q) (ctor_fields k @ tl_t))
      (rebuild_opt (ctor_id k) (length (ctor_fields k))))"
  have ctor: ?thesis if "k \<in> set (known (D t))" "?ctor k = Done (Some w)" for k
    using that ctor_uncovered [OF assms(2) _ _ that(1) _ len, of M _ "wildcards (ctor_fields k)" _ w Wildcard] free
    by (auto simp: rebuild_opt_Some)
  have other: ?thesis if "unlisted (D t)" "useful_default (\<lambda>m. rec m tl_q tl_t) Wildcard M = Done (Some w)"
    using default_uncovered [OF assms(2) that(2,1) len free] .
  show ?thesis
  proof (cases "D t")
    case (Finite cs)
    then obtain k where "k \<in> set (known (D t))" "?ctor k = Done (Some w)"
      using assms(3) first_some_Some [of ?ctor "Done None" cs w] by (auto simp: useful_wildcard_def Let_def known_def)
    then show ?thesis by (rule ctor)
  next
    case (Open cs)
    have "first_some ?ctor (useful_default (\<lambda>m. rec m tl_q tl_t) Wildcard M) cs = Done (Some w)"
      using assms(3) by (simp add: useful_wildcard_def Let_def Open)
    from first_some_Some [OF this] show ?thesis
      using ctor other by (auto simp: Open known_def unlisted_def)
  next
    case (Scalar mn mx complete)
    have i128: "i128_range mn mx" using assms(1) Scalar by (auto simp: domain_ok_def)
    have "first_some (useful_part (\<lambda>m. rec m tl_q tl_t) M)
        (if \<not> complete then useful_default (\<lambda>m. rec m tl_q tl_t) Wildcard M else Done None)
        (scalar_partitions M None mn mx) = Done (Some w)"
      using assms(3) by (simp add: useful_wildcard_def Let_def Scalar)
    from first_some_Some [OF this] show ?thesis
      using part_uncovered [OF assms(2) _ Scalar i128 _ len free] other
      by (auto simp: Scalar unlisted_def split: if_splits)
  next
    case OpaqueDomain
    with assms(3) show ?thesis by (intro other) (simp_all add: useful_wildcard_def Let_def unlisted_def)
  qed
qed

lemma useful_inner_Some:
  assumes "domain_ok D"
  shows "witness_tail D (useful_inner n D)"
proof (induction n)
  case 0
  show ?case by (simp add: witness_tail_def)
next
  case (Suc n)
  show ?case
    unfolding witness_tail_def
  proof (intro allI impI)
    fix M q ts w
    assume use: "useful_inner (Suc n) D M q ts = Done (Some w)" and len: "length q = length ts"
      and free: "list_all opaque_free q"
    show "uncovered D w q ts M"
    proof (cases "M = []")
      case True
      with use have "validate_empty_query_inner n D [] q ts = Done True" "w = q"
        by (auto simp: validate_empty_query_def split: if_splits)
      with validate_True [OF this(1) len] free True opaque_free_may_list show ?thesis
        by (auto simp: uncovered_def)
    next
      case ne: False
      with use obtain p tl_q where q: "q = p # tl_q" by (cases q) auto
      with len obtain t tl_t where ts: "ts = t # tl_t" "length tl_q = length tl_t" by (cases ts) auto
      have nw: "\<not> list_ex (list_all (\<lambda>p. p = Wildcard)) M" using use ne q by auto
      note use' = use [unfolded useful_inner.simps q ts(1), simplified ne nw if_False list.case]
      have free': "list_all opaque_free tl_q" "opaque_free p" using free q by simp_all
      show ?thesis
        unfolding q ts(1)
      proof (cases p)
        case Wildcard
        with use' useful_wildcard_Some [OF assms Suc _ ts(2) free'(1)] show "uncovered D w (p # tl_q) (t # tl_t) M" by simp
      next
        case (Constructor c fs)
        from use' Constructor obtain k m w' where k: "find_constructor (D t) c = Done k"
          "length fs = length (ctor_fields k)" "specialize_constructor M c (length (ctor_fields k)) = Done m"
          "useful_inner n D m (fs @ tl_q) (ctor_fields k @ tl_t) = Done (Some w')"
          "w = Constructor c (take (length (ctor_fields k)) w') # drop (length (ctor_fields k)) w'"
          by (auto simp: rebuild_opt_Some)
        note kk = find_constructor_Done [OF k(1)]
        show "uncovered D w (p # tl_q) (t # tl_t) M"
          by (rule ctor_uncovered [OF Suc _ k(4) _ k(2) ts(2)]) (use k kk free' Constructor in auto)
      next
        case (ScalarRange s e)
        with use' obtain mn mx complete a b where d: "D t = Scalar mn mx complete" "clip_range s e mn mx = Some (a, b)"
          by (auto split: domain.splits option.splits)
        have i128: "i128_range mn mx" using assms d(1) by (auto simp: domain_ok_def)
        from use' ScalarRange d have "first_some
            (\<lambda>part. if fst part < a \<or> snd part > b then Done None
               else useful_part (\<lambda>m. useful_inner n D m tl_q tl_t) M part)
            (Done None) (scalar_partitions M (Some (a, b)) mn mx) = Done (Some w)" by simp
        from first_some_Some [OF this] obtain s' e' where part: "(s', e') \<in> set (scalar_partitions M (Some (a, b)) mn mx)"
          "a \<le> s'" "e' \<le> b" "useful_part (\<lambda>m. useful_inner n D m tl_q tl_t) M (s', e') = Done (Some w)"
          by (auto split: if_splits)
        have "surely p (VInt s')"
          using ScalarRange d(2) part(2,3) scalar_partitions_part(1) [OF part(1) i128] by (auto simp: clip_range_Some)
        with part_uncovered [OF Suc part(4) d(1) i128 part(1) ts(2) free'(1)]
        show "uncovered D w (p # tl_q) (t # tl_t) M" .
      next
        case Opaque
        with free'(2) show "uncovered D w (p # tl_q) (t # tl_t) M" by simp
      qed
    qed
  qed
qed

end
