(* ===== verification/Nia_Pattern_Termination.thy ===== *)
theory Nia_Pattern_Termination
  imports Nia_Pattern_Soundness
begin

text \<open>
  The pattern analysis as a computation: it never panics on a matrix of the right width, more fuel
  never changes an answer, and when no type contains itself it returns, with a bound on the depth
  that depends on the column types only. For a recursive type it need not return.
\<close>

section \<open>No index panic\<close>

lemma bind_o_Panic: "bind_o x f = Panic \<longleftrightarrow> x = Panic \<or> (\<exists>z. x = Done z \<and> f z = Panic)"
  by (cases x) auto

lemma first_some_Panic:
  "first_some f after xs = Panic \<Longrightarrow> (\<exists>x \<in> set xs. f x = Panic) \<or> after = Panic"
  by (induction xs) (auto simp: bind_o_Panic split: option.splits)

lemma first_true_Panic: "first_true f xs = Panic \<Longrightarrow> \<exists>x \<in> set xs. f x = Panic"
  by (induction xs) (auto simp: bind_o_Panic split: if_splits)

lemma check_arity_not_Panic [simp]: "check_arity a b \<noteq> Panic"
  by (simp add: check_arity_def)

lemma find_constructor_not_Panic [simp]: "find_constructor d c \<noteq> Panic"
  by (auto simp: find_constructor_def split: domain.splits option.splits)

lemma specialize_constructor_not_Panic: "width (Suc k) M \<Longrightarrow> specialize_constructor M c n \<noteq> Panic"
proof (induction M)
  case (Cons row rows)
  then show ?case
    by (cases row) (auto simp: width_def bind_o_Panic split: pattern.splits)
qed simp

lemma specialize_scalar_not_Panic: "width (Suc k) M \<Longrightarrow> specialize_scalar M s e \<noteq> Panic"
proof (induction M)
  case (Cons row rows)
  then show ?case
    by (cases row) (auto simp: width_def bind_o_Panic split: pattern.splits if_splits)
qed simp

lemma default_matrix_not_Panic: "width (Suc k) M \<Longrightarrow> default_matrix M \<noteq> Panic"
proof (induction M)
  case (Cons row rows)
  then show ?case by (cases row) (auto simp: width_def bind_o_Panic)
qed simp

lemma validate_not_Panic: "length q = length ts \<Longrightarrow> validate_empty_query_inner n D A q ts \<noteq> Panic"
proof (induction n arbitrary: A q ts)
  case (Suc n)
  show ?case
  proof (cases q)
    case (Cons p ps)
    with Suc.prems obtain t ts' where ts: "ts = t # ts'" "length ps = length ts'" by (cases ts) auto
    have wild: "validate_wildcard_head (validate_empty_query_inner n D (A @ [t])) (D t) \<noteq> Panic"
      using Suc.IH by (auto simp: validate_wildcard_head_def split: domain.splits dest: first_true_Panic)
    with Cons ts Suc.IH show ?thesis
      by (auto simp: bind_o_Panic split: pattern.splits domain.splits if_splits)
  qed simp
qed simp

text \<open>The contract of the recursive call: no panic on matching widths, and a witness of the query's length.\<close>

definition safe_tail ::
  "('c matrix \<Rightarrow> 'c pattern list \<Rightarrow> 't list \<Rightarrow> 'c pattern list option outcome) \<Rightarrow> bool" where
  "safe_tail rec \<longleftrightarrow>
     (\<forall>m q ts. width (length ts) m \<longrightarrow> length q = length ts \<longrightarrow>
        rec m q ts \<noteq> Panic \<and> (\<forall>w. rec m q ts = Done (Some w) \<longrightarrow> length w = length q))"

lemma safe_tailD:
  assumes "safe_tail rec" "width (length ts) m" "length q = length ts"
  shows "rec m q ts \<noteq> Panic" "rec m q ts = Done (Some w) \<Longrightarrow> length w = length q"
  using assms unfolding safe_tail_def by blast+

definition safe_result :: "nat \<Rightarrow> 'c pattern list option outcome \<Rightarrow> bool" where
  "safe_result k r \<longleftrightarrow> r \<noteq> Panic \<and> (\<forall>w. r = Done (Some w) \<longrightarrow> length w = k)"

lemma safe_resultI:
  "r \<noteq> Panic \<Longrightarrow> (\<And>w. r = Done (Some w) \<Longrightarrow> length w = k) \<Longrightarrow> safe_result k r"
  by (simp add: safe_result_def)

lemma safe_Done_None [simp]: "safe_result k (Done None)" "safe_result k (Fail e)" "safe_result k NoFuel"
  by (simp_all add: safe_result_def)

lemma safe_first_some:
  "(\<And>x. x \<in> set xs \<Longrightarrow> safe_result k (f x)) \<Longrightarrow> safe_result k after \<Longrightarrow> safe_result k (first_some f after xs)"
  by (auto simp: safe_result_def dest!: first_some_Panic first_some_Some)

lemma safe_default:
  assumes "safe_tail rec" "width (Suc (length tl_t)) M" "length tl_q = length tl_t"
  shows "safe_result (Suc (length tl_q)) (useful_default (\<lambda>m. rec m tl_q tl_t) p M)"
  using safe_tailD [OF assms(1) _ assms(3)] width_default_matrix [OF _ assms(2)] default_matrix_not_Panic [OF assms(2)]
  by (auto simp: safe_result_def useful_default_def bind_o_Panic)

lemma safe_part:
  assumes "safe_tail rec" "width (Suc (length tl_t)) M" "length tl_q = length tl_t"
  shows "safe_result (Suc (length tl_q)) (useful_part (\<lambda>m. rec m tl_q tl_t) M part)"
  using safe_tailD [OF assms(1) _ assms(3)] width_specialize_scalar [OF _ assms(2)]
    specialize_scalar_not_Panic [OF assms(2)]
  by (auto simp: safe_result_def useful_part_def bind_o_Panic) blast

lemma safe_ctor:
  assumes "safe_tail rec" "width (Suc (length tl_t)) M" "length tl_q = length tl_t" "length ps = length fts"
  shows "safe_result (Suc (length tl_q)) (bind_o (specialize_constructor M c (length fts)) (\<lambda>m.
    bind_o (rec m (ps @ tl_q) (fts @ tl_t)) (rebuild_opt c (length fts))))"
proof (cases "specialize_constructor M c (length fts)")
  case (Done m)
  have w: "width (length (fts @ tl_t)) m" using width_specialize_constructor [OF Done assms(2)] by simp
  have len: "length (ps @ tl_q) = length (fts @ tl_t)" using assms(3,4) by simp
  note rec = safe_tailD [OF assms(1) w len]
  show ?thesis
  proof (cases "rec m (ps @ tl_q) (fts @ tl_t)")
    case result: (Done r)
    show ?thesis
    proof (cases r)
      case (Some wit)
      with result rec(2) assms(4) have "length wit = length fts + length tl_q" by simp
      with Done result Some show ?thesis by (simp add: safe_result_def rebuild_opt_def rebuild_def)
    qed (use Done result in \<open>simp add: rebuild_opt_def\<close>)
  qed (use Done rec(1) in simp_all)
qed (use specialize_constructor_not_Panic [OF assms(2)] in simp_all)

lemma safe_wildcard:
  assumes "safe_tail rec" "width (Suc (length tl_t)) M" "length tl_q = length tl_t"
  shows "safe_result (Suc (length tl_q)) (useful_wildcard rec M tl_q tl_t d)"
  using safe_default [OF assms] safe_part [OF assms] safe_ctor [OF assms]
  by (cases d) (auto simp: useful_wildcard_def Let_def intro!: safe_first_some)

lemma useful_inner_safe: "safe_tail (useful_inner n D)"
proof (induction n)
  case 0
  show ?case by (simp add: safe_tail_def)
next
  case (Suc n)
  have "safe_result (length q) (useful_inner (Suc n) D M q ts)"
    if w: "width (length ts) M" and len: "length q = length ts" for M q ts
  proof (cases q)
    case Nil
    then show ?thesis
      using validate_not_Panic [OF len, of n D "[]"]
      by (auto simp: safe_result_def bind_o_Panic validate_empty_query_def split: if_splits)
  next
    case (Cons p tl_q)
    with len obtain t tl_t where ts: "ts = t # tl_t" "length tl_q = length tl_t" by (cases ts) auto
    have w': "width (Suc (length tl_t)) M" using w ts by simp
    note safe = safe_default [OF Suc w' ts(2)] safe_part [OF Suc w' ts(2)] safe_wildcard [OF Suc w' ts(2)]
    have ctor: "safe_result (Suc (length tl_q)) (bind_o (find_constructor (D t) c) (\<lambda>k.
        bind_o (check_arity (length fs) (length (ctor_fields k))) (\<lambda>_.
        bind_o (specialize_constructor M c (length (ctor_fields k))) (\<lambda>m.
        bind_o (useful_inner n D m (fs @ tl_q) (ctor_fields k @ tl_t)) (rebuild_opt c (length (ctor_fields k)))))))" for c fs
    proof (cases "find_constructor (D t) c")
      case (Done k)
      show ?thesis
      proof (cases "length fs = length (ctor_fields k)")
        case True
        from safe_ctor [OF Suc w' ts(2) True, of c] show ?thesis by (simp add: Done check_arity_def True)
      qed (simp add: Done check_arity_def)
    qed simp_all
    have empty: "safe_result (length q) (bind_o (validate_empty_query n D q ts) (\<lambda>b. Done (if b then Some q else None)))"
      using validate_not_Panic [OF len, of n D "[]"]
      by (auto simp: safe_result_def bind_o_Panic validate_empty_query_def split: if_splits)
    have scalar: "safe_result (Suc (length tl_q)) (case D t of
        Scalar mn mx _ \<Rightarrow>
          (case clip_range s e mn mx of
             None \<Rightarrow> Done None
           | Some (start, end') \<Rightarrow>
               first_some
                 (\<lambda>part. if fst part < start \<or> snd part > end' then Done None
                    else useful_part (\<lambda>m. useful_inner n D m tl_q tl_t) M part)
                 (Done None) (scalar_partitions M (Some (start, end')) mn mx))
      | _ \<Rightarrow> Fail ScalarPatternOutsideScalarDomain)" for s e
    proof (cases "D t")
      case (Scalar mn mx complete)
      show ?thesis
      proof (cases "clip_range s e mn mx")
        case (Some r)
        obtain a b where r: "r = (a, b)" by (cases r)
        show ?thesis
          unfolding Scalar Some r domain.case option.case prod.case
          by (rule safe_first_some) (use safe(2) in simp_all)
      qed (simp add: Scalar)
    qed simp_all
    have q: "length q = Suc (length tl_q)" using Cons by simp
    show ?thesis
    proof (cases "M = [] \<or> list_ex (list_all (\<lambda>p. p = Wildcard)) M")
      case True
      with empty Cons show ?thesis by auto
    next
      case False
      then have "M \<noteq> []" "\<not> list_ex (list_all (\<lambda>p. p = Wildcard)) M" by simp_all
      note step = if_not_P [OF this(1)] if_not_P [OF this(2)]
      show ?thesis
        unfolding q Cons ts(1) useful_inner.simps step list.case
        by (cases p) (simp_all only: pattern.case length_Cons safe ctor scalar)
    qed
  qed
  then show ?case unfolding safe_tail_def safe_result_def by blast
qed

section \<open>More fuel never changes an answer\<close>

definition le_o :: "'a outcome \<Rightarrow> 'a outcome \<Rightarrow> bool" where
  "le_o x y \<longleftrightarrow> x = NoFuel \<or> x = y"

named_theorems fuel_mono \<open>combinators that are monotone in the fuel of the recursive call\<close>

lemma le_o_refl [simp, fuel_mono]: "le_o x x"
  by (simp add: le_o_def)

lemma le_o_NoFuel [simp]: "le_o NoFuel x"
  by (simp add: le_o_def)

lemma le_o_trans: "le_o x y \<Longrightarrow> le_o y z \<Longrightarrow> le_o x z"
  by (auto simp: le_o_def)

lemma le_o_bind [fuel_mono]:
  assumes "le_o x y" "\<And>z. le_o (f z) (g z)"
  shows "le_o (bind_o x f) (bind_o y g)"
proof (cases x)
  case (Done a)
  with assms(1) have "y = Done a" by (simp add: le_o_def)
  with Done assms(2) show ?thesis by simp
qed (use assms(1) in \<open>auto simp: le_o_def\<close>)

lemma le_o_case_list [fuel_mono]:
  "le_o a b \<Longrightarrow> (\<And>x xs. le_o (f x xs) (g x xs)) \<Longrightarrow> le_o (case_list a f l) (case_list b g l)"
  by (cases l) simp_all

lemma le_o_case_option [fuel_mono]:
  "le_o a b \<Longrightarrow> (\<And>x. le_o (f x) (g x)) \<Longrightarrow> le_o (case_option a f r) (case_option b g r)"
  by (cases r) simp_all

lemma le_o_case_prod [fuel_mono]:
  "(\<And>x y. le_o (f x y) (g x y)) \<Longrightarrow> le_o (case_prod f r) (case_prod g r)"
  by (cases r) simp_all

lemma le_o_case_pattern [fuel_mono]:
  "le_o a a' \<Longrightarrow> (\<And>c fs. le_o (f c fs) (f' c fs)) \<Longrightarrow> (\<And>s e. le_o (g s e) (g' s e)) \<Longrightarrow> le_o b b' \<Longrightarrow>
   le_o (case_pattern a f g b p) (case_pattern a' f' g' b' p)"
  by (cases p) simp_all

lemma le_o_case_domain [fuel_mono]:
  "(\<And>cs. le_o (f cs) (f' cs)) \<Longrightarrow> (\<And>cs. le_o (g cs) (g' cs)) \<Longrightarrow> (\<And>a b c. le_o (h a b c) (h' a b c)) \<Longrightarrow>
   le_o b b' \<Longrightarrow> le_o (case_domain f g h b d) (case_domain f' g' h' b' d)"
  by (cases d) simp_all

lemma le_o_first_some [fuel_mono]:
  "(\<And>x. le_o (f x) (g x)) \<Longrightarrow> le_o a b \<Longrightarrow> le_o (first_some f a xs) (first_some g b xs)"
  by (induction xs) (auto intro!: le_o_bind split: option.split)

lemma le_o_first_true [fuel_mono]: "(\<And>x. le_o (f x) (g x)) \<Longrightarrow> le_o (first_true f xs) (first_true g xs)"
  by (induction xs) (auto intro!: le_o_bind)

lemma le_o_if [fuel_mono]: "le_o a c \<Longrightarrow> le_o b d \<Longrightarrow> le_o (if p then a else b) (if p then c else d)"
  by simp

lemma le_o_wildcard_head [fuel_mono]:
  "(\<And>q ts. le_o (f q ts) (g q ts)) \<Longrightarrow> le_o (validate_wildcard_head f d) (validate_wildcard_head g d)"
  by (cases d) (auto simp: validate_wildcard_head_def intro!: fuel_mono)

lemma le_o_default [fuel_mono]:
  "(\<And>m. le_o (f m) (g m)) \<Longrightarrow> le_o (useful_default f p M) (useful_default g p M)"
  unfolding useful_default_def by (intro fuel_mono)

lemma le_o_part [fuel_mono]: "(\<And>m. le_o (f m) (g m)) \<Longrightarrow> le_o (useful_part f M part) (useful_part g M part)"
  unfolding useful_part_def by (intro fuel_mono)

lemma le_o_wildcard [fuel_mono]:
  assumes "\<And>m q ts. le_o (f m q ts) (g m q ts)"
  shows "le_o (useful_wildcard f M tl_q tl_t d) (useful_wildcard g M tl_q tl_t d)"
  unfolding useful_wildcard_def Let_def by (intro fuel_mono assms)

lemma validate_step:
  assumes "\<And>A q ts. le_o (validate_empty_query_inner n D A q ts) (validate_empty_query_inner m D A q ts)"
  shows "le_o (validate_empty_query_inner (Suc n) D A q ts) (validate_empty_query_inner (Suc m) D A q ts)"
  unfolding validate_empty_query_inner.simps(2) by (intro fuel_mono assms)

lemma validate_le: "n \<le> m \<Longrightarrow> le_o (validate_empty_query_inner n D A q ts) (validate_empty_query_inner m D A q ts)"
proof (induction n arbitrary: m A q ts)
  case (Suc n)
  then obtain k where "m = Suc k" "n \<le> k" by (cases m) auto
  with Suc.IH show ?case by (simp only: validate_step)
qed simp

lemma useful_step:
  assumes "\<And>M q ts. le_o (useful_inner n D M q ts) (useful_inner m D M q ts)" "n \<le> m"
  shows "le_o (useful_inner (Suc n) D M q ts) (useful_inner (Suc m) D M q ts)"
  unfolding useful_inner.simps(2) validate_empty_query_def
  by (intro fuel_mono assms validate_le)

lemma useful_le: "n \<le> m \<Longrightarrow> le_o (useful_inner n D M q ts) (useful_inner m D M q ts)"
proof (induction n arbitrary: m M q ts)
  case (Suc n)
  then obtain k where "m = Suc k" "n \<le> k" by (cases m) auto
  with Suc.IH show ?case by (simp only: useful_step)
qed simp


section \<open>Termination on types that do not contain themselves\<close>

definition field_rel :: "('t \<Rightarrow> ('t, 'c) domain) \<Rightarrow> ('t \<times> 't) set" where
  "field_rel D = {(f, t). \<exists>k \<in> set (known (D t)). f \<in> set (ctor_fields k)}"

lemma bind_o_NoFuel: "bind_o x f = NoFuel \<longleftrightarrow> x = NoFuel \<or> (\<exists>z. x = Done z \<and> f z = NoFuel)"
  by (cases x) auto

lemma first_some_NoFuel:
  "first_some f after xs = NoFuel \<Longrightarrow> (\<exists>x \<in> set xs. f x = NoFuel) \<or> after = NoFuel"
  by (induction xs) (auto simp: bind_o_NoFuel split: option.splits)

lemma first_true_NoFuel: "first_true f xs = NoFuel \<Longrightarrow> \<exists>x \<in> set xs. f x = NoFuel"
  by (induction xs) (auto simp: bind_o_NoFuel split: if_splits)

lemma le_o_not_NoFuel: "le_o x y \<Longrightarrow> x \<noteq> NoFuel \<Longrightarrow> y \<noteq> NoFuel"
  by (auto simp: le_o_def)

lemma fueled [simp]:
  "check_arity a b \<noteq> NoFuel" "find_constructor d c \<noteq> NoFuel" "rebuild_opt c n r \<noteq> NoFuel"
  by (auto simp: check_arity_def find_constructor_def rebuild_opt_def rebuild_def bind_o_NoFuel
      split: domain.splits option.splits if_splits)

lemma fueled_matrix [simp]:
  "specialize_constructor M c n \<noteq> NoFuel" "specialize_scalar M s e \<noteq> NoFuel" "default_matrix M \<noteq> NoFuel"
proof -
  show "specialize_constructor M c n \<noteq> NoFuel"
    by (induction M) (auto simp: bind_o_NoFuel split: list.splits pattern.splits if_splits)
  show "specialize_scalar M s e \<noteq> NoFuel"
    by (induction M) (auto simp: bind_o_NoFuel split: list.splits pattern.splits if_splits)
  show "default_matrix M \<noteq> NoFuel"
    by (induction M) (auto simp: bind_o_NoFuel split: list.splits if_splits)
qed

lemma fields_less: "k \<in> set (known (D t)) \<Longrightarrow> (mset (ctor_fields k @ ts), mset (t # ts)) \<in> mult (field_rel D)"
  using one_step_implies_mult [of "{#t#}" "mset (ctor_fields k)" "field_rel D" "mset ts"]
  by (auto simp: field_rel_def add.commute)

lemma fields_only_less: "k \<in> set (known (D t)) \<Longrightarrow> (mset (ctor_fields k), mset (t # ts)) \<in> mult (field_rel D)"
  using one_step_implies_mult [of "mset (t # ts)" "mset (ctor_fields k)" "field_rel D" "{#}"]
  by (auto simp: field_rel_def)

lemma tail_less: "(mset ts, mset (t # ts)) \<in> mult (field_rel D)"
  using one_step_implies_mult [of "{#t#}" "{#}" "field_rel D" "mset ts"] by simp

text \<open>A bound for each constructor gives one for all of them.\<close>

lemma common_bound:
  assumes "\<And>k. k \<in> set ks \<Longrightarrow> \<exists>n :: nat. \<forall>m \<ge> n. P k m"
  shows "\<exists>n. \<forall>m \<ge> n. \<forall>k \<in> set ks. P k m"
  using assms
proof (induction ks)
  case (Cons k ks)
  then obtain n1 n2 where "\<forall>m \<ge> n1. P k m" "\<forall>m \<ge> n2. \<forall>k \<in> set ks. P k m" by (metis list.set_intros)
  then show ?case by (intro exI [of _ "max n1 n2"]) auto
qed simp

lemma validate_returns:
  assumes "wf (field_rel D)"
  shows "\<exists>n. \<forall>m \<ge> n. \<forall>A q. validate_empty_query_inner m D A q ts \<noteq> NoFuel"
  using wf_mult [OF assms]
proof (induction "mset ts" arbitrary: ts rule: wf_induct_rule)
  case less
  show ?case
  proof (cases ts)
    case Nil
    have "validate_empty_query_inner m D A q ts \<noteq> NoFuel" if "m \<ge> 1" for m A q
      using that Nil by (cases m) (auto split: list.split)
    then show ?thesis by blast
  next
    case (Cons t tl_t)
    have "\<exists>n. \<forall>m \<ge> n. \<forall>A q. validate_empty_query_inner m D A q (ctor_fields k) \<noteq> NoFuel"
      if "k \<in> set (known (D t))" for k
      using less [of "ctor_fields k"] fields_only_less [of k D t tl_t] that Cons by simp
    from common_bound [of "known (D t)" "\<lambda>k m. \<forall>A q. validate_empty_query_inner m D A q (ctor_fields k) \<noteq> NoFuel", OF this]
    obtain n1 where n1: "\<And>m k A q. m \<ge> n1 \<Longrightarrow> k \<in> set (known (D t)) \<Longrightarrow>
        validate_empty_query_inner m D A q (ctor_fields k) \<noteq> NoFuel" by blast
    obtain n2 where n2: "\<And>m A q. m \<ge> n2 \<Longrightarrow> validate_empty_query_inner m D A q tl_t \<noteq> NoFuel"
      using less [of tl_t] tail_less [of tl_t t D] unfolding Cons by blast
    have "validate_empty_query_inner (Suc m) D A q ts \<noteq> NoFuel" if m: "m \<ge> max n1 n2" for m A q
    proof (cases q)
      case q: (Cons p ps)
      have wild: "validate_wildcard_head (validate_empty_query_inner m D (A @ [t])) (D t) \<noteq> NoFuel"
        using n1 m by (auto simp: validate_wildcard_head_def known_def split: domain.splits dest!: first_true_NoFuel)
      have ctor: "bind_o (find_constructor (D t) c) (\<lambda>k.
          bind_o (check_arity (length fs) (length (ctor_fields k))) (\<lambda>_.
            validate_empty_query_inner m D A fs (ctor_fields k))) \<noteq> NoFuel" for c fs
        using n1 m by (auto simp: bind_o_NoFuel dest!: find_constructor_Done)
      have tail: "validate_empty_query_inner m D A ps tl_t \<noteq> NoFuel" using n2 m by simp
      show ?thesis
        unfolding validate_empty_query_inner.simps q Cons list.case bind_o_NoFuel
        using wild ctor tail by (cases p; cases "D t") auto
    qed simp
    then have "\<forall>m \<ge> Suc (max n1 n2). \<forall>A q. validate_empty_query_inner m D A q ts \<noteq> NoFuel"
      by (metis Suc_le_D Suc_le_mono)
    then show ?thesis by blast
  qed
qed

lemma default_fueled: "(\<And>m. rec m \<noteq> NoFuel) \<Longrightarrow> useful_default rec p M \<noteq> NoFuel"
  by (auto simp: useful_default_def bind_o_NoFuel)

lemma part_fueled: "(\<And>m. rec m \<noteq> NoFuel) \<Longrightarrow> useful_part rec M part \<noteq> NoFuel"
  by (auto simp: useful_part_def bind_o_NoFuel)

lemma wildcard_fueled:
  assumes "\<And>k m. k \<in> set (known d) \<Longrightarrow> rec m (wildcards (ctor_fields k) @ tl_q) (ctor_fields k @ tl_t) \<noteq> NoFuel"
    and "\<And>m. rec m tl_q tl_t \<noteq> NoFuel"
  shows "useful_wildcard rec M tl_q tl_t d \<noteq> NoFuel"
  using assms default_fueled [of "\<lambda>m. rec m tl_q tl_t"] part_fueled [of "\<lambda>m. rec m tl_q tl_t"]
  by (cases d) (auto simp: useful_wildcard_def Let_def known_def bind_o_NoFuel split: if_splits dest!: first_some_NoFuel)

lemma useful_returns:
  assumes "wf (field_rel D)"
  shows "\<exists>n. \<forall>m \<ge> n. \<forall>M q. useful_inner m D M q ts \<noteq> NoFuel"
  using wf_mult [OF assms]
proof (induction "mset ts" arbitrary: ts rule: wf_induct_rule)
  case less
  obtain n0 where n0: "\<And>m A q. m \<ge> n0 \<Longrightarrow> validate_empty_query_inner m D A q ts \<noteq> NoFuel"
    using validate_returns [OF assms, of ts] by blast
  have empty: "bind_o (validate_empty_query m D q ts) (\<lambda>b. Done (if b then Some q else None)) \<noteq> NoFuel"
    if "m \<ge> n0" for m q using n0 [OF that] by (simp add: validate_empty_query_def bind_o_NoFuel)
  show ?case
  proof (cases ts)
    case Nil
    have "useful_inner (Suc m) D M q ts \<noteq> NoFuel" if "m \<ge> n0" for m M q
      using empty [OF that] Nil by (auto split: list.split)
    then have "\<forall>m \<ge> Suc n0. \<forall>M q. useful_inner m D M q ts \<noteq> NoFuel" by (metis Suc_le_D Suc_le_mono)
    then show ?thesis by blast
  next
    case (Cons t tl_t)
    have "\<exists>n. \<forall>m \<ge> n. \<forall>M q. useful_inner m D M q (ctor_fields k @ tl_t) \<noteq> NoFuel"
      if "k \<in> set (known (D t))" for k
      using less [of "ctor_fields k @ tl_t"] fields_less [of k D t tl_t] that Cons by simp
    from common_bound [of "known (D t)" "\<lambda>k m. \<forall>M q. useful_inner m D M q (ctor_fields k @ tl_t) \<noteq> NoFuel", OF this]
    obtain n1 where n1: "\<And>m k M q. m \<ge> n1 \<Longrightarrow> k \<in> set (known (D t)) \<Longrightarrow>
        useful_inner m D M q (ctor_fields k @ tl_t) \<noteq> NoFuel" by blast
    obtain n2 where n2: "\<And>m M q. m \<ge> n2 \<Longrightarrow> useful_inner m D M q tl_t \<noteq> NoFuel"
      using less [of tl_t] tail_less [of tl_t t D] unfolding Cons by blast
    have "useful_inner (Suc m) D M q ts \<noteq> NoFuel" if m: "m \<ge> max n0 (max n1 n2)" for m M q
    proof (cases q)
      case Nil
      then show ?thesis using empty m by simp
    next
      case q: (Cons p tl_q)
      have tail: "useful_inner m D M tl_q tl_t \<noteq> NoFuel" for M using n2 m by simp
      have wild: "useful_wildcard (useful_inner m D) M tl_q tl_t (D t) \<noteq> NoFuel"
        using n1 n2 m by (intro wildcard_fueled) simp_all
      have ctor: "bind_o (find_constructor (D t) c) (\<lambda>k.
          bind_o (check_arity (length fs) (length (ctor_fields k))) (\<lambda>_.
          bind_o (specialize_constructor M c (length (ctor_fields k))) (\<lambda>m'.
          bind_o (useful_inner m D m' (fs @ tl_q) (ctor_fields k @ tl_t))
            (rebuild_opt c (length (ctor_fields k)))))) \<noteq> NoFuel" for c fs
        using n1 m by (auto simp: bind_o_NoFuel dest!: find_constructor_Done)
      have scalar: "first_some
          (\<lambda>part. if fst part < a \<or> snd part > b then Done None
             else useful_part (\<lambda>m'. useful_inner m D m' tl_q tl_t) M part) (Done None) parts \<noteq> NoFuel" for a b parts
        using part_fueled [OF tail] by (auto dest!: first_some_NoFuel split: if_splits)
      show ?thesis
        unfolding useful_inner.simps q Cons list.case
        using empty [of m q] m default_fueled [OF tail] wild ctor scalar q Cons
        by (auto split: pattern.split domain.split option.split)
    qed
    then have "\<forall>m \<ge> Suc (max n0 (max n1 n2)). \<forall>M q. useful_inner m D M q ts \<noteq> NoFuel"
      by (metis Suc_le_D Suc_le_mono)
    then show ?thesis by blast
  qed
qed

section \<open>Properties of the pattern analysis\<close>

text \<open>
  The domains of the test types \<^verbatim>\<open>OptionBool\<close> and \<^verbatim>\<open>Bool\<close> of the crate (types 0 and 1), and of a list
  of booleans whose tail is held by value (types 0 and 1).
\<close>

definition option_bool :: "nat \<Rightarrow> (nat, nat) domain" where
  "option_bool t =
     (if t = 0 then Finite [\<lparr>ctor_id = 0, ctor_fields = []\<rparr>, \<lparr>ctor_id = 1, ctor_fields = [1]\<rparr>]
      else Scalar 0 1 True)"

definition bool_list :: "nat \<Rightarrow> (nat, nat) domain" where
  "bool_list t =
     (if t = 0 then Finite [\<lparr>ctor_id = 0, ctor_fields = []\<rparr>, \<lparr>ctor_id = 1, ctor_fields = [1, 0]\<rparr>]
      else Scalar 0 1 True)"

lemma option_bool_ok: "domain_ok option_bool"
  by (auto simp: domain_ok_def distinct_ctors_def option_bool_def known_def i128_range_def)

lemma useful_witness_width:
  assumes "useful_witness n M q ts D = Done r"
  shows "useful_inner n D M q ts = Done r" "width (length ts) M" "length q = length ts"
  using assms
  by (auto simp: useful_witness_def validate_widths_def width_def find_None_iff split: if_splits option.splits)

text \<open>
  C11. A negative answer means coverage: when the analysis finds no witness for a query, every tuple of
  values of the column types that the query may match is matched by a row of the matrix. Hence an arm
  reported unreachable is never the first to match.
\<close>

theorem useful_witness_none_covers:
  assumes "domain_ok D" "useful_witness n M q ts D = Done None"
    and "list_all2 (has_type D) vs ts" "list_all2 may q vs"
  shows "\<exists>r \<in> set M. list_all2 surely r vs"
  using covers_tailD [OF useful_inner_None [OF assms(1)] useful_witness_width(1,2) [OF assms(2)] assms(4,3)] .

theorem useful_witness_none_covers_witness:
  "\<exists>r \<in> set [[Constructor 1 [Wildcard]], [Constructor 0 []]]. list_all2 surely r [VCon (1 :: nat) [VInt 1]]"
proof -
  have use: "useful_witness 4 [[Constructor 1 [Wildcard]], [Constructor 0 []]] [Wildcard] [0] option_bool = Done None"
    by code_simp
  have "list_all2 (has_type option_bool) [VInt 1] [1]"
    using type_int [of option_bool 1 0 1 True 1] by (simp add: option_bool_def)
  then have ty: "list_all2 (has_type option_bool) [VCon 1 [VInt 1]] [0]"
    using type_con [of "\<lparr>ctor_id = 1, ctor_fields = [1]\<rparr>" option_bool 0 "[VInt 1]"]
    by (simp add: option_bool_def known_def)
  show ?thesis
    by (rule useful_witness_none_covers [OF option_bool_ok use ty]) simp
qed

text \<open>
  C12. A match is exhaustive when no missing case is reported: then every value of the matched type is
  matched by an arm, whatever the opaque patterns among the arms do.
\<close>

theorem missing_witness_none_exhaustive:
  assumes "domain_ok D" "missing_witness n M ty D = Done None" "has_type D v ty"
  shows "\<exists>r \<in> set M. list_all2 surely r [v]"
proof -
  obtain r where r: "useful_witness n M [Wildcard] [ty] D = Done r" "Option.bind r pop = None"
    using assms(2) by (auto simp: missing_witness_def)
  have "r = None"
  proof (cases r)
    case (Some w)
    with safe_tailD(2) [OF useful_inner_safe useful_witness_width(2,3) [OF r(1)]] useful_witness_width(1) [OF r(1)]
    have "length w = 1" by simp
    with r(2) Some show ?thesis by (auto simp: pop_def split: if_splits)
  qed
  with r(1) have "useful_witness n M [Wildcard] [ty] D = Done None" by simp
  from covers_tailD [OF useful_inner_None [OF assms(1)] useful_witness_width(1,2) [OF this], of "[v]"] assms(3)
  show ?thesis by simp
qed

theorem missing_witness_none_exhaustive_witness:
  "\<exists>r \<in> set [[Constructor 1 [ScalarRange 0 0]], [Constructor 0 []], [Constructor 1 [ScalarRange 1 5]]].
     list_all2 surely r [VCon (0 :: nat) []]"
proof -
  have use: "missing_witness 4 [[Constructor 1 [ScalarRange 0 0]], [Constructor 0 []], [Constructor 1 [ScalarRange 1 5]]]
      0 option_bool = Done None" by code_simp
  have "has_type option_bool (VCon 0 []) 0"
    using type_con [of "\<lparr>ctor_id = 0, ctor_fields = []\<rparr>" option_bool 0 "[]"] by (simp add: option_bool_def known_def)
  from missing_witness_none_exhaustive [OF option_bool_ok use this] show ?thesis .
qed

text \<open>
  C13. A reported witness is real: for a query without opaque patterns there are values of the column
  types that match the witness and the query and that no row matches.
\<close>

theorem useful_witness_some_uncovered:
  assumes "domain_ok D" "useful_witness n M q ts D = Done (Some w)" "list_all opaque_free q"
  shows "\<exists>vs. list_all2 (has_type D) vs ts \<and> list_all2 surely w vs \<and> list_all2 surely q vs
    \<and> \<not> (\<exists>r \<in> set M. list_all2 surely r vs)"
  using witness_tailD [OF useful_inner_Some [OF assms(1)] useful_witness_width(1,3) [OF assms(2)] assms(3)]
  by (simp add: uncovered_def)

theorem useful_witness_some_uncovered_witness:
  "useful_witness 4 [[Constructor 1 [ScalarRange 0 0]], [Constructor 0 []]] [Wildcard] [0] option_bool
     = Done (Some [Constructor 1 [ScalarRange 1 1]])
   \<and> (\<exists>vs. list_all2 (has_type option_bool) vs [0] \<and> list_all2 surely [Constructor 1 [ScalarRange 1 1]] vs
       \<and> \<not> (\<exists>r \<in> set [[Constructor 1 [ScalarRange 0 0]], [Constructor 0 []]]. list_all2 surely r vs))"
proof -
  have use: "useful_witness 4 [[Constructor 1 [ScalarRange 0 0]], [Constructor 0 []]] [Wildcard] [0] option_bool
     = Done (Some [Constructor 1 [ScalarRange 1 1]])" by code_simp
  have "list_all opaque_free [Wildcard]" by simp
  from useful_witness_some_uncovered [OF option_bool_ok use this] use show ?thesis by blast
qed

text \<open>
  C14. The analysis never panics: once the widths are validated, no index into a row, a query or a type
  list is out of range and no witness is split past its end, on any matrix, query and domain.
\<close>

theorem useful_witness_no_panic: "useful_witness n M q ts D \<noteq> Panic"
proof (cases "validate_widths M q (length ts)")
  case (Done u)
  then have "width (length ts) M" "length q = length ts"
    by (auto simp: validate_widths_def width_def find_None_iff split: if_splits option.splits)
  from safe_tailD(1) [OF useful_inner_safe this] show ?thesis by (simp add: useful_witness_def Done)
qed (auto simp: useful_witness_def validate_widths_def split: if_splits option.splits)

text \<open>
  C15. The analysis terminates on types that do not contain themselves: when no type is reachable from
  itself through constructor fields, there is a recursion depth, depending only on the column types,
  within which every query returns, and more depth does not change the answer.
\<close>

theorem useful_witness_terminates:
  assumes "wf (field_rel D)"
  shows "\<exists>n. \<forall>m \<ge> n. \<forall>M q. useful_witness m M q ts D \<noteq> NoFuel \<and> useful_witness m M q ts D = useful_witness n M q ts D"
proof -
  obtain n where n: "\<And>m M q. m \<ge> n \<Longrightarrow> useful_inner m D M q ts \<noteq> NoFuel"
    using useful_returns [OF assms, of ts] by blast
  have same: "useful_inner m D M q ts = useful_inner n D M q ts" if "m \<ge> n" for m M q
    using useful_le [OF that, of D M q ts] n [of n M q] by (auto simp: le_o_def)
  have widths: "validate_widths M q (length ts) \<noteq> NoFuel" for M q
    by (auto simp: validate_widths_def split: option.split)
  have "useful_witness m M q ts D \<noteq> NoFuel \<and> useful_witness m M q ts D = useful_witness n M q ts D"
    if "m \<ge> n" for m M q
    unfolding useful_witness_def using same [OF that, of M q] n [OF that, of M q] widths [of M q]
    by (simp add: bind_o_NoFuel)
  then show ?thesis by blast
qed

theorem useful_witness_terminates_witness:
  "\<exists>n. \<forall>m \<ge> n. useful_witness m [[Constructor 0 []]] [Wildcard] [0] option_bool \<noteq> NoFuel"
proof -
  have "field_rel option_bool = {(1, 0)}"
    by (auto simp: field_rel_def option_bool_def known_def split: if_splits)
  then have "wf (field_rel option_bool)" by (simp add: wf_insert)
  from useful_witness_terminates [OF this, of "[0]"] show ?thesis by blast
qed

text \<open>
  C16. For a type that contains itself the analysis need not return: on lists whose tail is held by
  value, the two rows \<open>(_, false)\<close> and \<open>(_, true)\<close> cover every pair of a list and a boolean, none of
  them is all wildcards, and the query \<open>(_, _)\<close> expands the list forever.
\<close>

theorem useful_witness_recursive_type_diverges:
  "useful_witness n [[Wildcard, ScalarRange 0 0], [Wildcard, ScalarRange 1 1]] [Wildcard, Wildcard] [0, 1] bool_list = NoFuel"
proof -
  have p1: "scalar_partitions [[ScalarRange 0 0], [ScalarRange 1 1]] None 0 1 = [(0, 0), (1, 1)]"
    by code_simp
  have p2: "scalar_partitions [[Wildcard, Wildcard, ScalarRange 0 0], [Wildcard, Wildcard, ScalarRange 1 1]] None 0 1 = [(0, 1)]"
    by code_simp
  have "useful_inner n bool_list [[Wildcard, ScalarRange 0 0], [Wildcard, ScalarRange 1 1]] [Wildcard, Wildcard] [0, 1] = NoFuel"
  proof (induction n rule: less_induct)
    case (less n)
    let ?M = "[[Wildcard, ScalarRange 0 0], [Wildcard, ScalarRange 1 1]] :: nat matrix"
    have nil: "useful_inner (Suc m) bool_list [[ScalarRange 0 0], [ScalarRange 1 1]] [Wildcard] [1] \<in> {NoFuel, Done None}" for m
      by (cases m) (simp_all add: bool_list_def useful_wildcard_def useful_part_def p1)
    have unroll: "useful_inner (Suc (Suc m)) bool_list ?M [Wildcard, Wildcard] [0, 1] = NoFuel"
      if m: "useful_inner m bool_list ?M [Wildcard, Wildcard] [0, 1] = NoFuel" for m
    proof -
      have "useful_inner (Suc m) bool_list [[Wildcard, Wildcard, ScalarRange 0 0], [Wildcard, Wildcard, ScalarRange 1 1]]
          [Wildcard, Wildcard, Wildcard] [1, 0, 1] = NoFuel"
        unfolding useful_inner.simps(2) [of m] using m
        by (simp add: bool_list_def useful_wildcard_def useful_part_def p2 del: useful_inner.simps)
      with nil [of m] show ?thesis
        unfolding useful_inner.simps(2) [of "Suc m"]
        by (auto simp: bool_list_def useful_wildcard_def Let_def rebuild_opt_def simp del: useful_inner.simps)
    qed
    consider "n = 0" | "n = 1" | m where "n = Suc (Suc m)" by (metis One_nat_def not0_implies_Suc)
    then show ?case
    proof cases
      case 2
      then show ?thesis by (simp add: bool_list_def useful_wildcard_def Let_def)
    next
      case 3
      with unroll [OF less [of m]] show ?thesis by simp
    qed simp
  qed
  then show ?thesis by (simp add: useful_witness_def validate_widths_def)
qed

end
