(* ===== verification/Nia_Types.thy ===== *)
theory Nia_Types
  imports Nia_Prelude
begin

unbundle bit_operations_syntax

text \<open>
  The scalar types of the language and its integer constants (\<^verbatim>\<open>nia-ty/src/lib.rs\<close>). An integer
  constant is 128 raw bits with a signedness flag; \<open>int_value\<close> is the number it denotes. Machine
  integers of type \<^verbatim>\<open>i128\<close> and \<^verbatim>\<open>u128\<close> are \<open>int\<close> with their ranges written out.
\<close>

section \<open>Primitive types\<close>

datatype primitive_ty =
    I8 | I16 | I32 | I64 | I128 | Isize
  | U8 | U16 | U32 | U64 | U128 | Usize
  | F32 | F64 | Bool | Char | Never

definition all_primitives :: "primitive_ty list" where
  "all_primitives = [I8, I16, I32, I64, I128, Isize, U8, U16, U32, U64, U128, Usize, F32, F64, Bool, Char, Never]"

fun name :: "primitive_ty \<Rightarrow> string" where
  "name I8 = ''i8''" | "name I16 = ''i16''" | "name I32 = ''i32''" | "name I64 = ''i64''"
| "name I128 = ''i128''" | "name Isize = ''isize''" | "name U8 = ''u8''" | "name U16 = ''u16''"
| "name U32 = ''u32''" | "name U64 = ''u64''" | "name U128 = ''u128''" | "name Usize = ''usize''"
| "name F32 = ''f32''" | "name F64 = ''f64''" | "name Bool = ''bool''" | "name Char = ''char''"
| "name Never = ''!''"

definition from_name :: "string \<Rightarrow> primitive_ty option" where
  "from_name s =
     (if s = ''i8'' then Some I8 else if s = ''i16'' then Some I16 else if s = ''i32'' then Some I32
      else if s = ''i64'' then Some I64 else if s = ''i128'' then Some I128 else if s = ''isize'' then Some Isize
      else if s = ''u8'' then Some U8 else if s = ''u16'' then Some U16 else if s = ''u32'' then Some U32
      else if s = ''u64'' then Some U64 else if s = ''u128'' then Some U128 else if s = ''usize'' then Some Usize
      else if s = ''f32'' then Some F32 else if s = ''f64'' then Some F64 else if s = ''bool'' then Some Bool
      else if s = ''char'' then Some Char else if s = ''!'' then Some Never else None)"

definition is_vector_element :: "primitive_ty \<Rightarrow> bool" where
  "is_vector_element p \<longleftrightarrow> p \<notin> {Char, Never}"

definition vector_element_from_name :: "string \<Rightarrow> primitive_ty option" where
  "vector_element_from_name s =
     (case from_name s of Some p \<Rightarrow> if is_vector_element p then Some p else None | None \<Rightarrow> None)"

definition is_signed_integer :: "primitive_ty \<Rightarrow> bool" where
  "is_signed_integer p \<longleftrightarrow> p \<in> {I8, I16, I32, I64, I128, Isize}"

definition is_integer :: "primitive_ty \<Rightarrow> bool" where
  "is_integer p \<longleftrightarrow> p \<in> {I8, I16, I32, I64, I128, Isize, U8, U16, U32, U64, U128, Usize}"

definition is_float :: "primitive_ty \<Rightarrow> bool" where
  "is_float p \<longleftrightarrow> p \<in> {F32, F64}"

fun integer_bits :: "primitive_ty \<Rightarrow> nat \<Rightarrow> nat option" where
  "integer_bits p pointer_width =
     (case p of
        I8 \<Rightarrow> Some 8 | U8 \<Rightarrow> Some 8 | I16 \<Rightarrow> Some 16 | U16 \<Rightarrow> Some 16 | I32 \<Rightarrow> Some 32 | U32 \<Rightarrow> Some 32
      | I64 \<Rightarrow> Some 64 | U64 \<Rightarrow> Some 64 | I128 \<Rightarrow> Some 128 | U128 \<Rightarrow> Some 128
      | Isize \<Rightarrow> Some pointer_width | Usize \<Rightarrow> Some pointer_width | _ \<Rightarrow> None)"

datatype range_ty_kind = Exclusive | Inclusive | From | To | ToInclusive | Full

definition has_start_bound :: "range_ty_kind \<Rightarrow> bool" where
  "has_start_bound k \<longleftrightarrow> k \<in> {Exclusive, Inclusive, From}"

definition has_end_bound :: "range_ty_kind \<Rightarrow> bool" where
  "has_end_bound k \<longleftrightarrow> k \<in> {Exclusive, Inclusive, To, ToInclusive}"

text \<open>The two spelling tables are inverse to each other.\<close>

lemma from_name_name [simp]: "from_name (name p) = Some p"
  by (cases p) (simp_all add: from_name_def)

lemma from_name_eq_Some: "from_name s = Some p \<longleftrightarrow> s = name p"
proof
  assume "from_name s = Some p"
  then show "s = name p" by (auto simp: from_name_def split: if_splits)
qed simp

lemma integer_bits_is_integer: "is_integer p \<longleftrightarrow> integer_bits p w \<noteq> None"
  by (cases p) (simp_all add: is_integer_def)


section \<open>Integer constants\<close>

record int_const =
  bits :: "128 word"
  is_signed :: bool

definition signed_bits :: "128 word \<Rightarrow> int_const" where
  "signed_bits b = \<lparr>bits = b, is_signed = True\<rparr>"

definition from_i128 :: "int \<Rightarrow> int_const" where
  "from_i128 value = signed_bits (word_of_int value)"

definition unsigned_const :: "128 word \<Rightarrow> int_const" where
  "unsigned_const b = \<lparr>bits = b, is_signed = False\<rparr>"

definition as_i128 :: "int_const \<Rightarrow> int option" where
  "as_i128 c =
     (if is_signed c then Some (sint (bits c))
      else if uint (bits c) < 2 ^ 127 then Some (uint (bits c)) else None)"

text \<open>\<^verbatim>\<open>u128::try_from(value: i128).ok()\<close>\<close>

definition i128_to_u128 :: "int \<Rightarrow> int option" where
  "i128_to_u128 v = (if 0 \<le> v then Some v else None)"

definition fits_primitive_int :: "int_const \<Rightarrow> primitive_ty \<Rightarrow> nat \<Rightarrow> bool" where
  "fits_primitive_int c primitive pointer_width =
     (case integer_bits primitive pointer_width of None \<Rightarrow> False
      | Some w \<Rightarrow>
          if \<not> (1 \<le> w \<and> w \<le> 128) then False
          else if is_signed_integer primitive then
            (case as_i128 c of None \<Rightarrow> False
             | Some v \<Rightarrow> w = 128 \<or> (- (2 ^ (w - 1)) \<le> v \<and> v \<le> 2 ^ (w - 1) - 1))
          else
            (case (if is_signed c then Option.bind (as_i128 c) i128_to_u128 else Some (uint (bits c))) of
               None \<Rightarrow> False
             | Some v \<Rightarrow> w = 128 \<or> v < 2 ^ w))"

definition integer_mask :: "nat \<Rightarrow> 128 word" where
  "integer_mask w = (if 128 \<le> w then - 1 else push_bit w 1 - 1)"

definition cast_to_primitive_int :: "int_const \<Rightarrow> primitive_ty \<Rightarrow> nat \<Rightarrow> int_const option" where
  "cast_to_primitive_int c primitive pointer_width =
     (case integer_bits primitive pointer_width of None \<Rightarrow> None
      | Some w \<Rightarrow>
          let b = bits c AND integer_mask w
          in if is_signed_integer primitive then Some (signed_bits b) else Some (unsigned_const b))"


section \<open>The numbers the constants denote\<close>

definition int_value :: "int_const \<Rightarrow> int" where
  "int_value c = (if is_signed c then sint (bits c) else uint (bits c))"

definition int_range :: "bool \<Rightarrow> nat \<Rightarrow> int set" where
  "int_range sgned w = (if sgned then {- (2 ^ (w - 1)) ..< 2 ^ (w - 1)} else {0 ..< 2 ^ w})"

lemma int_range_iff:
  "v \<in> int_range True w \<longleftrightarrow> - (2 ^ (w - 1)) \<le> v \<and> v < 2 ^ (w - 1)"
  "v \<in> int_range False w \<longleftrightarrow> 0 \<le> v \<and> v < 2 ^ w"
  by (auto simp: int_range_def)

lemma int_range_mono: "1 \<le> w \<Longrightarrow> w \<le> w' \<Longrightarrow> int_range s w \<subseteq> int_range s w'"
proof -
  assume w: "1 \<le> w" "w \<le> w'"
  have "(2 :: int) ^ (w - 1) \<le> 2 ^ (w' - 1)" "(2 :: int) ^ w \<le> 2 ^ w'"
    using w by (auto intro: power_increasing)
  then show ?thesis by (auto simp: int_range_def)
qed

lemma sint_128: "- (2 ^ 127) \<le> sint (b :: 128 word)" "sint (b :: 128 word) < 2 ^ 127"
  using sint_ge [of b] sint_lt [of b] by simp_all

lemma uint_128: "0 \<le> uint (b :: 128 word)" "uint (b :: 128 word) < 2 ^ 128"
  using uint_lt2p [of b] by simp_all

lemma int_value_range: "int_value c \<in> int_range (is_signed c) 128"
  using sint_128 [of "bits c"] uint_128 [of "bits c"] by (auto simp: int_value_def int_range_def)

lemma sint_of_int: "- (2 ^ 127) \<le> v \<Longrightarrow> v < 2 ^ 127 \<Longrightarrow> sint (word_of_int v :: 128 word) = v"
  by (simp add: sint_sbintrunc' signed_take_bit_int_eq_self)

lemma uint_of_int: "0 \<le> v \<Longrightarrow> v < 2 ^ 128 \<Longrightarrow> uint (word_of_int v :: 128 word) = v"
  by (simp add: uint_word_of_int)

lemma int_value_from_i128 [simp]: "v \<in> int_range True 128 \<Longrightarrow> int_value (from_i128 v) = v"
  by (simp add: int_range_iff from_i128_def signed_bits_def int_value_def sint_of_int)

lemma int_value_unsigned [simp]: "int_value (unsigned_const b) = uint b"
  by (simp add: unsigned_const_def int_value_def)

lemma int_value_signed_bits [simp]: "int_value (signed_bits b) = sint b"
  by (simp add: signed_bits_def int_value_def)

lemma is_signed_simps [simp]:
  "is_signed (from_i128 v)" "\<not> is_signed (unsigned_const b)" "is_signed (signed_bits b)"
  by (simp_all add: from_i128_def signed_bits_def unsigned_const_def)

lemma as_i128_value: "as_i128 c = (if int_value c < 2 ^ 127 then Some (int_value c) else None)"
  using sint_128(2) [of "bits c"] by (simp add: as_i128_def int_value_def)

lemma int_value_eqI: "is_signed c = is_signed d \<Longrightarrow> int_value c = int_value d \<Longrightarrow> c = d"
  by (rule int_const.equality) (auto simp: int_value_def split: if_splits intro: signed_word_eqI unsigned_word_eqI)

lemma fits_primitive_int_range:
  assumes "integer_bits p pw = Some w"
  shows "fits_primitive_int c p pw \<longleftrightarrow> 1 \<le> w \<and> w \<le> 128 \<and> int_value c \<in> int_range (is_signed_integer p) w"
proof (cases "1 \<le> w \<and> w \<le> 128")
  case True
  then have p127: "(2 :: int) ^ (w - 1) \<le> 2 ^ 127" by (intro power_increasing) auto
  have lo: "- (2 ^ 127) \<le> int_value c"
    using sint_128(1) [of "bits c"] order_trans [OF _ uint_128(1) [of "bits c"], of "- (2 ^ 127)"]
    by (simp add: int_value_def)
  have hi: "int_value c < 2 ^ 128"
    using sint_128(2) [of "bits c"] uint_128(2) [of "bits c"] by (auto simp: int_value_def)
  show ?thesis
  proof (cases "is_signed_integer p")
    case s: True
    show ?thesis
    proof (cases "int_value c < 2 ^ 127")
      case True
      with s assms \<open>1 \<le> w \<and> w \<le> 128\<close> lo p127 show ?thesis
        by (auto simp: fits_primitive_int_def as_i128_value int_range_iff simp del: integer_bits.simps)
    next
      case False
      with s assms \<open>1 \<le> w \<and> w \<le> 128\<close> p127 show ?thesis
        by (auto simp: fits_primitive_int_def as_i128_value int_range_iff simp del: integer_bits.simps)
    qed
  next
    case u: False
    have nonneg: "0 \<le> int_value c" if "\<not> is_signed c" using that by (simp add: int_value_def)
    have small: "int_value c < 2 ^ 127" if "is_signed c" using that sint_128(2) by (simp add: int_value_def)
    show ?thesis
    proof (cases "is_signed c")
      case True
      with u assms \<open>1 \<le> w \<and> w \<le> 128\<close> small [OF True] hi show ?thesis
        by (auto simp: fits_primitive_int_def as_i128_value i128_to_u128_def int_range_iff simp del: integer_bits.simps)
    next
      case False
      moreover have "uint (bits c) = int_value c" using False by (simp add: int_value_def)
      ultimately show ?thesis using u assms \<open>1 \<le> w \<and> w \<le> 128\<close> nonneg [OF False] hi
        by (auto simp: fits_primitive_int_def int_range_iff simp del: integer_bits.simps)
    qed
  qed
next
  case False
  with assms show ?thesis by (auto simp: fits_primitive_int_def simp del: integer_bits.simps)
qed

lemma and_integer_mask: "(b :: 128 word) AND integer_mask w = take_bit w b"
proof (cases "128 \<le> w")
  case True
  then show ?thesis by (simp add: integer_mask_def take_bit_word_eq_self)
next
  case False
  have "push_bit w 1 - 1 = (mask w :: 128 word)" by (simp add: mask_eq_exp_minus_1 push_bit_eq_mult)
  with False show ?thesis by (simp add: integer_mask_def take_bit_eq_mask)
qed

lemma uint_take_bit_128: "uint (take_bit w (b :: 128 word)) = uint b mod 2 ^ w"
  by (simp add: unsigned_take_bit_eq flip: take_bit_eq_mod)

lemma mod_int_value: "w \<le> 128 \<Longrightarrow> uint (bits c) mod 2 ^ w = int_value c mod 2 ^ w"
proof -
  assume w: "w \<le> 128"
  have "uint (bits c) = sint (bits c) mod 2 ^ 128" using uint_sint [of "bits c"] by (simp add: take_bit_eq_mod)
  moreover have "(2 :: int) ^ w dvd 2 ^ 128" using w by (intro le_imp_power_dvd) auto
  ultimately show ?thesis by (auto simp: int_value_def mod_mod_cancel)
qed

section \<open>Properties of the scalar types\<close>

text \<open>
  C23. The spelling tables of the primitive types are inverse: printing and parsing give the type back,
  parsing accepts nothing but the printed spellings, and every type is in the canonical registry.
\<close>

theorem primitive_names_roundtrip:
  "from_name (name p) = Some p \<and> (from_name s = Some p \<longrightarrow> s = name p)
   \<and> set all_primitives = UNIV \<and> distinct (map name all_primitives)"
proof -
  have "set all_primitives = UNIV"
  proof (intro equalityI subsetI UNIV_I)
    fix q show "q \<in> set all_primitives" by (cases q) (simp_all add: all_primitives_def)
  qed
  then show ?thesis by (simp add: from_name_eq_Some all_primitives_def)
qed

theorem primitive_names_roundtrip_witness: "from_name ''usize'' = Some Usize \<and> ''usize'' = name Usize"
  using primitive_names_roundtrip [of Usize "''usize''"] by (simp add: from_name_def)

text \<open>
  C20. An integer constant fits a primitive integer type exactly when the number it denotes lies in the
  range of that type, at any pointer width; no constant fits a type of width zero or above 128 bits.
\<close>

theorem fits_primitive_int_is_range:
  assumes "integer_bits p pointer_width = Some w"
  shows "fits_primitive_int c p pointer_width
    \<longleftrightarrow> 1 \<le> w \<and> w \<le> 128 \<and> int_value c \<in> int_range (is_signed_integer p) w"
  by (rule fits_primitive_int_range [OF assms])

theorem fits_primitive_int_is_range_witness:
  "fits_primitive_int (unsigned_const 255) U8 64 \<and> \<not> fits_primitive_int (unsigned_const 256) U8 64
   \<and> \<not> fits_primitive_int (unsigned_const 0) Usize 0"
  using fits_primitive_int_is_range [of U8 64 8 "unsigned_const 255"]
    fits_primitive_int_is_range [of U8 64 8 "unsigned_const 256"]
    fits_primitive_int_is_range [of Usize 0 0 "unsigned_const 0"]
  by (simp add: int_range_iff is_signed_integer_def)

lemma cast_value:
  assumes "integer_bits p pw = Some w" "w < 128"
  shows "\<exists>d. cast_to_primitive_int c p pw = Some d \<and> is_signed d = is_signed_integer p
    \<and> int_value d = int_value c mod 2 ^ w"
proof -
  let ?b = "bits c AND integer_mask w"
  have u: "uint ?b = int_value c mod 2 ^ w"
    using assms(2) mod_int_value [of w c] by (simp add: and_integer_mask uint_take_bit_128)
  have "int_value c mod 2 ^ w < 2 ^ w" by simp
  also have "\<dots> \<le> 2 ^ 127" using assms(2) by (intro power_increasing) simp_all
  finally have "word_of_int (int_value c mod 2 ^ w) = ?b" "int_value c mod 2 ^ w < 2 ^ 127"
    using u by (metis word_of_int_uint, simp)
  then have "sint ?b = int_value c mod 2 ^ w"
    using sint_of_int [of "int_value c mod 2 ^ w"] order_trans [of "- (2 ^ 127)" 0 "int_value c mod 2 ^ w"] by simp
  with u assms(1) show ?thesis by (auto simp: cast_to_primitive_int_def Let_def simp del: integer_bits.simps)
qed

lemma cast_value_128:
  assumes "integer_bits p pw = Some 128" "int_value c \<in> int_range (is_signed_integer p) 128"
  shows "\<exists>d. cast_to_primitive_int c p pw = Some d \<and> int_value d = int_value c"
proof -
  have b: "bits c AND integer_mask 128 = bits c" by (simp add: and_integer_mask take_bit_word_eq_self)
  have c: "word_of_int (int_value c) = bits c" by (simp add: int_value_def)
  have "(if is_signed_integer p then sint (bits c) else uint (bits c)) = int_value c"
    using assms(2) sint_of_int [of "int_value c", unfolded c] uint_of_int [of "int_value c", unfolded c]
    by (cases "is_signed_integer p") (simp_all add: int_range_iff)
  with b assms(1) show ?thesis
    by (auto simp: cast_to_primitive_int_def Let_def int_value_def signed_bits_def unsigned_const_def simp del: integer_bits.simps)
qed

text \<open>
  C19. Casting a constant that fits a type to that type keeps the low bits without extending the sign. At
  128 bits the number is unchanged. At every smaller width \<open>w\<close> the result denotes the number modulo \<open>2 ^ w\<close>,
  so it fits the type exactly when the number is not negative: a negative constant of a signed type below
  128 bits no longer fits the type it was cast to.
\<close>

theorem cast_drops_sign:
  assumes "integer_bits p pointer_width = Some w" "fits_primitive_int c p pointer_width"
  shows "\<exists>d. cast_to_primitive_int c p pointer_width = Some d
    \<and> int_value d = (if w = 128 then int_value c else int_value c mod 2 ^ w)
    \<and> (fits_primitive_int d p pointer_width \<longleftrightarrow> w = 128 \<or> 0 \<le> int_value c)"
proof (cases "w = 128")
  case True
  with assms cast_value_128 [of p pointer_width c] show ?thesis
    by (auto simp: fits_primitive_int_range [OF assms(1)])
next
  case False
  have w128: "w < 128" using False assms(2) by (simp add: fits_primitive_int_range [OF assms(1)])
  obtain d where d: "cast_to_primitive_int c p pointer_width = Some d" "int_value d = int_value c mod 2 ^ w"
    using cast_value [OF assms(1) w128] by blast
  let ?v = "int_value c"
  have w: "1 \<le> w" and r: "?v \<in> int_range (is_signed_integer p) w"
    using assms(2) by (simp_all add: fits_primitive_int_range [OF assms(1)])
  have two: "(2 :: int) ^ w = 2 * 2 ^ (w - 1)" using w by (cases w) simp_all
  have "?v mod 2 ^ w \<in> int_range (is_signed_integer p) w \<longleftrightarrow> 0 \<le> ?v"
  proof (cases "0 \<le> ?v")
    case True
    moreover have "?v < 2 ^ w" using r two by (cases "is_signed_integer p") (auto simp: int_range_iff)
    ultimately show ?thesis using r by simp
  next
    case neg: False
    then have s: "is_signed_integer p" using r by (cases "is_signed_integer p") (auto simp: int_range_iff)
    have lo: "0 \<le> ?v + 2 ^ w" "?v + 2 ^ w < 2 ^ w" using r s neg two by (simp_all add: int_range_iff)
    have "?v mod 2 ^ w = (?v + 2 ^ w) mod 2 ^ w" by simp
    also have "\<dots> = ?v + 2 ^ w" using lo by (rule mod_pos_pos_trivial)
    finally have "?v mod 2 ^ w = ?v + 2 ^ w" .
    with r s neg two show ?thesis by (auto simp: int_range_iff)
  qed
  with d w w128 show ?thesis by (simp add: fits_primitive_int_range [OF assms(1)])
qed

theorem cast_drops_sign_witness:
  "fits_primitive_int (signed_bits (- 1)) I32 64
   \<and> (\<exists>d. cast_to_primitive_int (signed_bits (- 1)) I32 64 = Some d \<and> int_value d = 4294967295
        \<and> \<not> fits_primitive_int d I32 64)
   \<and> (\<exists>d. cast_to_primitive_int (signed_bits (- 1)) I128 64 = Some d \<and> int_value d = - 1
        \<and> fits_primitive_int d I128 64)"
proof -
  have fits: "fits_primitive_int (signed_bits (- 1)) I32 64"
    by (simp add: fits_primitive_int_range [of I32 64 32] int_range_iff is_signed_integer_def)
  have fits128: "fits_primitive_int (signed_bits (- 1)) I128 64"
    by (simp add: fits_primitive_int_range [of I128 64 128] int_range_iff is_signed_integer_def)
  from cast_drops_sign [of I32 64 32, OF _ fits] cast_drops_sign [of I128 64 128, OF _ fits128] fits
  show ?thesis by auto
qed

end
