(* ===== verification/Nia_Const_Numeric.thy ===== *)
theory Nia_Const_Numeric
  imports Nia_Types "HOL-Library.Signed_Division"
begin

unbundle bit_operations_syntax

text \<open>
  Integer arithmetic of compile-time evaluation (\<^verbatim>\<open>nia-const-eval/src/numeric.rs\<close> and the shift
  helpers of \<^verbatim>\<open>literals.rs\<close>): each operation runs on 128-bit host integers and its result is then
  checked against the width of the source type. Host values of type \<^verbatim>\<open>i128\<close> and \<^verbatim>\<open>u128\<close> are \<open>int\<close>;
  every checked operation tests the range it would overflow. Errors are the source's messages.
\<close>

section \<open>Host integers\<close>

definition checked_i128 :: "int \<Rightarrow> int option" where
  "checked_i128 v = (if - (2 ^ 127) \<le> v \<and> v < 2 ^ 127 then Some v else None)"

definition checked_u128 :: "int \<Rightarrow> int option" where
  "checked_u128 v = (if 0 \<le> v \<and> v < 2 ^ 128 then Some v else None)"

text \<open>\<^verbatim>\<open>i128::checked_div\<close> and \<^verbatim>\<open>i128::checked_rem\<close>: truncating, \<^verbatim>\<open>None\<close> on zero and on \<^verbatim>\<open>MIN / -1\<close>.\<close>

definition checked_div_i128 :: "int \<Rightarrow> int \<Rightarrow> int option" where
  "checked_div_i128 a b = (if b = 0 \<or> a = - (2 ^ 127) \<and> b = - 1 then None else Some (a sdiv b))"

definition checked_rem_i128 :: "int \<Rightarrow> int \<Rightarrow> int option" where
  "checked_rem_i128 a b = (if b = 0 \<or> a = - (2 ^ 127) \<and> b = - 1 then None else Some (a smod b))"

definition try_u32 :: "int \<Rightarrow> nat option" where
  "try_u32 v = (if 0 \<le> v \<and> v < 2 ^ 32 then Some (nat v) else None)"


section \<open>Shifts\<close>

definition shift_range_message :: string where
  "shift_range_message = ''shift count is out of range in const expression''"

definition checked_signed_left_shift :: "int \<Rightarrow> nat \<Rightarrow> nat \<Rightarrow> int option" where
  "checked_signed_left_shift lhs rhs w =
     (if \<not> (1 \<le> w \<and> w \<le> 128) \<or> rhs \<ge> w then None
      else let negative_limit = 2 ^ (w - 1);
               magnitude_limit = drop_bit rhs (if lhs < 0 then negative_limit else negative_limit - 1)
           in if \<bar>lhs\<bar> > magnitude_limit then None else Some (signed_take_bit 127 (push_bit rhs lhs)))"

definition checked_unsigned_left_shift :: "int \<Rightarrow> nat \<Rightarrow> nat \<Rightarrow> int option" where
  "checked_unsigned_left_shift lhs rhs w =
     (if \<not> (1 \<le> w \<and> w \<le> 128) \<or> rhs \<ge> w then None
      else let msk = (if w = 128 then 2 ^ 128 - 1 else 2 ^ w - 1)
           in if lhs > msk \<or> lhs > drop_bit rhs msk then None else Some (take_bit 128 (push_bit rhs lhs)))"

definition checked_shift :: "int \<Rightarrow> int \<Rightarrow> bool \<Rightarrow> (int, string) rust_result" where
  "checked_shift lhs rhs is_left =
     (case try_u32 rhs of None \<Rightarrow> Err shift_range_message
      | Some rhs \<Rightarrow>
          if rhs \<ge> 128 then Err shift_range_message
          else if is_left then ok_or (checked_signed_left_shift lhs rhs 128) ''integer overflow in const left shift''
          else Ok (drop_bit rhs lhs))"

definition checked_shift_u128 :: "int \<Rightarrow> int \<Rightarrow> bool \<Rightarrow> (int, string) rust_result" where
  "checked_shift_u128 lhs rhs is_left =
     (case try_u32 rhs of None \<Rightarrow> Err shift_range_message
      | Some rhs \<Rightarrow>
          if rhs \<ge> 128 then Err shift_range_message
          else if is_left then ok_or (checked_unsigned_left_shift lhs rhs 128) ''integer overflow in const left shift''
          else Ok (drop_bit rhs lhs))"


section \<open>Operations without a source type\<close>

datatype const_binary_op =
    Mul | Div | Rem | Add | Sub | Shl | Shr | Lt | Le | Gt | Ge | Eq | Ne | BitAnd | BitXor | BitOr | And | Or

fun debug_op :: "const_binary_op \<Rightarrow> string" where
  "debug_op Mul = ''Mul''" | "debug_op Div = ''Div''" | "debug_op Rem = ''Rem''" | "debug_op Add = ''Add''"
| "debug_op Sub = ''Sub''" | "debug_op Shl = ''Shl''" | "debug_op Shr = ''Shr''" | "debug_op Lt = ''Lt''"
| "debug_op Le = ''Le''" | "debug_op Gt = ''Gt''" | "debug_op Ge = ''Ge''" | "debug_op Eq = ''Eq''"
| "debug_op Ne = ''Ne''" | "debug_op BitAnd = ''BitAnd''" | "debug_op BitXor = ''BitXor''"
| "debug_op BitOr = ''BitOr''" | "debug_op And = ''And''" | "debug_op Or = ''Or''"

definition unsupported_op :: "const_binary_op \<Rightarrow> string" where
  "unsupported_op op = ''unsupported binary operator in const expression: '' @ debug_op op"

definition int_to_i128 :: "int_const \<Rightarrow> string \<Rightarrow> (int, string) rust_result" where
  "int_to_i128 value ctx = ok_or (as_i128 value) (''integer value is too large for '' @ ctx)"

definition int_to_u128 :: "int_const \<Rightarrow> string \<Rightarrow> (int, string) rust_result" where
  "int_to_u128 value ctx =
     (if is_signed value
      then ok_or (Option.bind (as_i128 value) i128_to_u128) (''integer value is negative in unsigned '' @ ctx)
      else Ok (uint (bits value)))"

definition eval_binary_uint :: "int \<Rightarrow> const_binary_op \<Rightarrow> int \<Rightarrow> (int, string) rust_result" where
  "eval_binary_uint lhs op rhs =
     (case op of
        Mul \<Rightarrow> ok_or (checked_u128 (lhs * rhs)) ''integer overflow in const multiplication''
      | Div \<Rightarrow> if rhs = 0 then Err ''division by zero in const expression'' else Ok (lhs div rhs)
      | Rem \<Rightarrow> if rhs = 0 then Err ''remainder by zero in const expression'' else Ok (lhs mod rhs)
      | Add \<Rightarrow> ok_or (checked_u128 (lhs + rhs)) ''integer overflow in const addition''
      | Sub \<Rightarrow> ok_or (checked_u128 (lhs - rhs)) ''integer overflow in const subtraction''
      | Shl \<Rightarrow> checked_shift_u128 lhs rhs True
      | Shr \<Rightarrow> checked_shift_u128 lhs rhs False
      | BitAnd \<Rightarrow> Ok (lhs AND rhs)
      | BitXor \<Rightarrow> Ok (lhs XOR rhs)
      | BitOr \<Rightarrow> Ok (lhs OR rhs)
      | _ \<Rightarrow> Err (unsupported_op op))"

definition unsigned_of :: "int \<Rightarrow> int_const" where
  "unsigned_of v = unsigned_const (word_of_int v)"

definition eval_binary_int :: "int_const \<Rightarrow> const_binary_op \<Rightarrow> int_const \<Rightarrow> (int_const, string) rust_result" where
  "eval_binary_int lhs op rhs =
     (if \<not> is_signed lhs \<and> \<not> is_signed rhs
      then map_sum id unsigned_of (eval_binary_uint (uint (bits lhs)) op (uint (bits rhs)))
      else
        bind_r (int_to_i128 lhs ''const operation'') (\<lambda>lhs.
        bind_r (int_to_i128 rhs ''const operation'') (\<lambda>rhs.
        map_sum id from_i128
          (case op of
             Mul \<Rightarrow> ok_or (checked_i128 (lhs * rhs)) ''integer overflow in const multiplication''
           | Div \<Rightarrow> if rhs = 0 then Err ''division by zero in const expression''
                    else ok_or (checked_div_i128 lhs rhs) ''integer overflow in const division''
           | Rem \<Rightarrow> if rhs = 0 then Err ''remainder by zero in const expression''
                    else ok_or (checked_rem_i128 lhs rhs) ''integer overflow in const remainder''
           | Add \<Rightarrow> ok_or (checked_i128 (lhs + rhs)) ''integer overflow in const addition''
           | Sub \<Rightarrow> ok_or (checked_i128 (lhs - rhs)) ''integer overflow in const subtraction''
           | Shl \<Rightarrow> checked_shift lhs rhs True
           | Shr \<Rightarrow> checked_shift lhs rhs False
           | BitAnd \<Rightarrow> Ok (lhs AND rhs)
           | BitXor \<Rightarrow> Ok (lhs XOR rhs)
           | BitOr \<Rightarrow> Ok (lhs OR rhs)
           | _ \<Rightarrow> Err (unsupported_op op)))))"


section \<open>Operations at the width of the source type\<close>

record const_integer_semantics =
  width_bits :: nat
  is_signed_type :: bool

definition signed_value_fits :: "int \<Rightarrow> nat \<Rightarrow> bool" where
  "signed_value_fits value w =
     (if 1 \<le> w \<and> w \<le> 127 then let magnitude = 2 ^ (w - 1) in value \<ge> - magnitude \<and> value < magnitude
      else w = 128)"

definition unsigned_value_fits :: "int \<Rightarrow> nat \<Rightarrow> bool" where
  "unsigned_value_fits value w = (if 1 \<le> w \<and> w \<le> 127 then value < 2 ^ w else w = 128)"

definition integer_overflow_message :: "const_binary_op \<Rightarrow> string" where
  "integer_overflow_message op =
     ''integer overflow in const '' @
     (case op of Mul \<Rightarrow> ''multiplication'' | Div \<Rightarrow> ''division'' | Rem \<Rightarrow> ''remainder'' | Add \<Rightarrow> ''addition''
      | Sub \<Rightarrow> ''subtraction'' | Shl \<Rightarrow> ''left shift'' | _ \<Rightarrow> ''operation'')"

definition typed_shift_count :: "int \<Rightarrow> nat \<Rightarrow> (nat, string) rust_result" where
  "typed_shift_count value w = ok_or (filter_opt (\<lambda>count. count < w) (try_u32 value)) shift_range_message"

text \<open>
  The two tails of \<^verbatim>\<open>eval_typed_binary_int\<close>: an operation's optional value is filtered by the width and
  becomes the result or the overflow error.
\<close>

definition fit_signed :: "const_binary_op \<Rightarrow> nat \<Rightarrow> int option \<Rightarrow> (int_const, string) rust_result" where
  "fit_signed op w value =
     map_sum id from_i128 (ok_or (filter_opt (\<lambda>v. signed_value_fits v w) value) (integer_overflow_message op))"

definition fit_unsigned :: "const_binary_op \<Rightarrow> nat \<Rightarrow> int option \<Rightarrow> (int_const, string) rust_result" where
  "fit_unsigned op w value =
     map_sum id unsigned_of (ok_or (filter_opt (\<lambda>v. unsigned_value_fits v w) value) (integer_overflow_message op))"

definition eval_typed_signed :: "int \<Rightarrow> const_binary_op \<Rightarrow> int \<Rightarrow> nat \<Rightarrow> (int_const, string) rust_result" where
  "eval_typed_signed lhs op rhs w =
     (case op of
        Mul \<Rightarrow> fit_signed op w (checked_i128 (lhs * rhs))
      | Div \<Rightarrow> if rhs = 0 then Err ''division by zero in const expression''
               else fit_signed op w (checked_div_i128 lhs rhs)
      | Rem \<Rightarrow> if rhs = 0 then Err ''remainder by zero in const expression''
               else fit_signed op w (checked_rem_i128 lhs rhs)
      | Add \<Rightarrow> fit_signed op w (checked_i128 (lhs + rhs))
      | Sub \<Rightarrow> fit_signed op w (checked_i128 (lhs - rhs))
      | Shl \<Rightarrow> bind_r (typed_shift_count rhs w)
                 (\<lambda>count. fit_signed op w (checked_signed_left_shift lhs count w))
      | Shr \<Rightarrow> bind_r (typed_shift_count rhs w) (\<lambda>count. Ok (from_i128 (drop_bit count lhs)))
      | _ \<Rightarrow> eval_binary_int (from_i128 lhs) op (from_i128 rhs))"

definition eval_typed_unsigned :: "int \<Rightarrow> const_binary_op \<Rightarrow> int \<Rightarrow> nat \<Rightarrow> (int_const, string) rust_result" where
  "eval_typed_unsigned lhs op rhs w =
     (case op of
        Mul \<Rightarrow> fit_unsigned op w (checked_u128 (lhs * rhs))
      | Div \<Rightarrow> if rhs = 0 then Err ''division by zero in const expression''
               else fit_unsigned op w (Some (lhs div rhs))
      | Rem \<Rightarrow> if rhs = 0 then Err ''remainder by zero in const expression''
               else fit_unsigned op w (Some (lhs mod rhs))
      | Add \<Rightarrow> fit_unsigned op w (checked_u128 (lhs + rhs))
      | Sub \<Rightarrow> fit_unsigned op w (checked_u128 (lhs - rhs))
      | Shl \<Rightarrow> bind_r (typed_shift_count rhs w)
                 (\<lambda>count. fit_unsigned op w (checked_unsigned_left_shift lhs count w))
      | Shr \<Rightarrow> bind_r (typed_shift_count rhs w) (\<lambda>count. Ok (unsigned_of (drop_bit count lhs)))
      | _ \<Rightarrow> map_sum id unsigned_of (eval_binary_uint lhs op rhs))"

definition eval_typed_binary_int ::
  "int_const \<Rightarrow> const_binary_op \<Rightarrow> int_const \<Rightarrow> const_integer_semantics \<Rightarrow> (int_const, string) rust_result" where
  "eval_typed_binary_int lhs op rhs sem =
     (if \<not> (1 \<le> width_bits sem \<and> width_bits sem \<le> 128)
      then Err ''invalid integer width in const operation semantics''
      else if is_signed_type sem
      then bind_r (int_to_i128 lhs ''const operation'') (\<lambda>lhs.
           bind_r (int_to_i128 rhs ''const operation'') (\<lambda>rhs. eval_typed_signed lhs op rhs (width_bits sem)))
      else bind_r (int_to_u128 lhs ''const operation'') (\<lambda>lhs.
           bind_r (int_to_u128 rhs ''const operation'') (\<lambda>rhs. eval_typed_unsigned lhs op rhs (width_bits sem))))"


section \<open>Negation, complement, comparison and lengths\<close>

definition neg_overflow :: string where
  "neg_overflow = ''integer overflow in const negation''"

definition eval_typed_int_neg ::
  "int_const \<Rightarrow> const_integer_semantics option \<Rightarrow> (int_const, string) rust_result" where
  "eval_typed_int_neg value sem =
     bind_r
       (ok_or
         (if is_signed value then map_option from_i128 (Option.bind (as_i128 value) (\<lambda>v. checked_i128 (- v)))
          else if uint (bits value) \<le> 2 ^ 127 then Some (signed_bits (0 - bits value))
          else None)
         neg_overflow)
       (\<lambda>value.
         case sem of None \<Rightarrow> Ok value
         | Some sem \<Rightarrow>
             if \<not> is_signed_type sem
                \<or> \<not> (case as_i128 value of None \<Rightarrow> False | Some v \<Rightarrow> signed_value_fits v (width_bits sem))
             then Err neg_overflow else Ok value)"

definition const_bit_not :: "int_const \<Rightarrow> int_const" where
  "const_bit_not value =
     (if is_signed value
      then from_i128 (NOT (case as_i128 value of Some v \<Rightarrow> v | None \<Rightarrow> sint (bits value)))
      else unsigned_const (NOT (bits value)))"

definition const_typed_bit_not ::
  "int_const \<Rightarrow> const_integer_semantics option \<Rightarrow> (int_const, string) rust_result" where
  "const_typed_bit_not value sem =
     (case sem of None \<Rightarrow> Ok (const_bit_not value)
      | Some sem \<Rightarrow>
          let w = width_bits sem
          in if \<not> (1 \<le> w \<and> w \<le> 128) then Err ''invalid integer width in const bitwise not semantics''
             else let msk = (if w = 128 then - 1 else push_bit w 1 - 1); b = NOT (bits value) AND msk
                  in if is_signed_type sem
                     then Ok (from_i128 (drop_bit (128 - w) (sint (push_bit (128 - w) b))))
                     else Ok (unsigned_const b))"

datatype ordering = Less | Equal | Greater

definition cmp :: "int \<Rightarrow> int \<Rightarrow> ordering" where
  "cmp a b = (if a < b then Less else if a = b then Equal else Greater)"

definition compare_int_values :: "int_const \<Rightarrow> int_const \<Rightarrow> ordering" where
  "compare_int_values lhs rhs =
     (case (is_signed lhs, is_signed rhs) of
        (False, False) \<Rightarrow> cmp (uint (bits lhs)) (uint (bits rhs))
      | (True, True) \<Rightarrow> cmp (sint (bits lhs)) (sint (bits rhs))
      | (True, False) \<Rightarrow>
          let lhs = sint (bits lhs) in if lhs < 0 then Less else cmp lhs (uint (bits rhs))
      | (False, True) \<Rightarrow>
          let rhs = sint (bits rhs) in if rhs < 0 then Greater else cmp (uint (bits lhs)) rhs)"

definition eval_binary_int_compare :: "int_const \<Rightarrow> const_binary_op \<Rightarrow> int_const \<Rightarrow> (bool, string) rust_result" where
  "eval_binary_int_compare lhs op rhs =
     (let ord = compare_int_values lhs rhs
      in case op of Lt \<Rightarrow> Ok (ord = Less) | Le \<Rightarrow> Ok (ord \<noteq> Greater) | Gt \<Rightarrow> Ok (ord = Greater)
         | Ge \<Rightarrow> Ok (ord \<noteq> Less) | _ \<Rightarrow> Err ''non-comparison operator routed to integer comparison'')"

definition int_values_equal :: "int_const \<Rightarrow> int_const \<Rightarrow> bool" where
  "int_values_equal lhs rhs =
     (case (as_i128 lhs, as_i128 rhs) of
        (Some l, Some r) \<Rightarrow> l = r | (None, None) \<Rightarrow> bits lhs = bits rhs | _ \<Rightarrow> False)"

definition int_to_array_len :: "int_const \<Rightarrow> (nat, string) rust_result" where
  "int_to_array_len value =
     (case as_i128 value of None \<Rightarrow> Err ''array length is too large''
      | Some v \<Rightarrow>
          if v < 0 then Err ''array length must be non-negative''
          else if v < 2 ^ 64 then Ok (nat v) else Err ''array length is too large'')"

section \<open>The trap rules of the language\<close>

text \<open>
  The language reference states when an integer operation traps at run time and that constant
  evaluation reports an error in the same cases. \<open>op_result\<close> is the mathematical result, \<open>traps\<close> the
  rule for a type of width \<open>w\<close>.
\<close>

fun op_result :: "const_binary_op \<Rightarrow> int \<Rightarrow> int \<Rightarrow> int" where
  "op_result Mul a b = a * b"
| "op_result Div a b = a sdiv b"
| "op_result Rem a b = a smod b"
| "op_result Add a b = a + b"
| "op_result Sub a b = a - b"
| "op_result Shl a b = a * 2 ^ nat b"
| "op_result Shr a b = a div 2 ^ nat b"
| "op_result BitAnd a b = (a AND b)"
| "op_result BitXor a b = (a XOR b)"
| "op_result BitOr a b = (a OR b)"
| "op_result _ a b = 0"

definition min_over_minus_one :: "bool \<Rightarrow> nat \<Rightarrow> int \<Rightarrow> int \<Rightarrow> bool" where
  "min_over_minus_one s w a b \<longleftrightarrow> s \<and> a = - (2 ^ (w - 1)) \<and> b = - 1"

fun traps :: "bool \<Rightarrow> nat \<Rightarrow> const_binary_op \<Rightarrow> int \<Rightarrow> int \<Rightarrow> bool" where
  "traps s w Div a b \<longleftrightarrow> b = 0 \<or> min_over_minus_one s w a b"
| "traps s w Rem a b \<longleftrightarrow> b = 0 \<or> min_over_minus_one s w a b"
| "traps s w Shl a b \<longleftrightarrow> b < 0 \<or> int w \<le> b \<or> op_result Shl a b \<notin> int_range s w"
| "traps s w Shr a b \<longleftrightarrow> b < 0 \<or> int w \<le> b"
| "traps s w op a b \<longleftrightarrow> op \<in> {Mul, Add, Sub} \<and> op_result op a b \<notin> int_range s w"

definition arithmetic :: "const_binary_op \<Rightarrow> bool" where
  "arithmetic op \<longleftrightarrow> op \<in> {Mul, Div, Rem, Add, Sub, Shl, Shr, BitAnd, BitXor, BitOr}"

definition typed_const :: "bool \<Rightarrow> int \<Rightarrow> int_const" where
  "typed_const s v = (if s then from_i128 v else unsigned_of v)"

lemma int_value_typed_const: "v \<in> int_range s 128 \<Longrightarrow> int_value (typed_const s v) = v"
  by (auto simp: typed_const_def unsigned_of_def int_range_iff uint_of_int)

lemma is_signed_typed_const [simp]: "is_signed (typed_const s v) = s"
  by (simp add: typed_const_def unsigned_of_def)


subsection \<open>Width checks\<close>

lemma int_range_128: "1 \<le> w \<Longrightarrow> w \<le> 128 \<Longrightarrow> v \<in> int_range s w \<Longrightarrow> v \<in> int_range s 128"
  using int_range_mono [of w 128 s] by auto

lemma signed_value_fits_range:
  assumes "1 \<le> w" "w \<le> 128" "v \<in> int_range True 128"
  shows "signed_value_fits v w \<longleftrightarrow> v \<in> int_range True w"
  using assms by (cases "w = 128") (auto simp: signed_value_fits_def int_range_iff Let_def)

lemma unsigned_value_fits_range:
  assumes "1 \<le> w" "w \<le> 128" "0 \<le> v" "v < 2 ^ 128"
  shows "unsigned_value_fits v w \<longleftrightarrow> v \<in> int_range False w"
  using assms by (cases "w = 128") (auto simp: unsigned_value_fits_def int_range_iff)

lemma fit_signed_Some:
  assumes "1 \<le> w" "w \<le> 128" "v \<in> int_range True 128"
  shows "fit_signed op w (Some v)
    = (if v \<in> int_range True w then Ok (typed_const True v) else Err (integer_overflow_message op))"
  by (simp add: fit_signed_def signed_value_fits_range [OF assms] typed_const_def)

lemma fit_signed_checked:
  assumes "1 \<le> w" "w \<le> 128"
  shows "fit_signed op w (checked_i128 v)
    = (if v \<in> int_range True w then Ok (typed_const True v) else Err (integer_overflow_message op))"
proof (cases "v \<in> int_range True 128")
  case True
  then have "checked_i128 v = Some v" by (simp add: checked_i128_def int_range_iff)
  with fit_signed_Some [OF assms True] show ?thesis by simp
next
  case False
  then have "checked_i128 v = None" by (auto simp: checked_i128_def int_range_iff)
  with False int_range_128 [OF assms] show ?thesis by (auto simp: fit_signed_def)
qed

lemma fit_unsigned_Some:
  assumes "1 \<le> w" "w \<le> 128" "v \<in> int_range False 128"
  shows "fit_unsigned op w (Some v)
    = (if v \<in> int_range False w then Ok (typed_const False v) else Err (integer_overflow_message op))"
proof -
  have "0 \<le> v" "v < 2 ^ 128" using assms(3) by (simp_all add: int_range_iff)
  then show ?thesis by (simp add: fit_unsigned_def unsigned_value_fits_range [OF assms(1,2)] typed_const_def)
qed

lemma fit_unsigned_checked:
  assumes "1 \<le> w" "w \<le> 128"
  shows "fit_unsigned op w (checked_u128 v)
    = (if v \<in> int_range False w then Ok (typed_const False v) else Err (integer_overflow_message op))"
proof (cases "v \<in> int_range False 128")
  case True
  then have "checked_u128 v = Some v" by (simp add: checked_u128_def int_range_iff)
  with fit_unsigned_Some [OF assms True] show ?thesis by simp
next
  case False
  then have "checked_u128 v = None" by (auto simp: checked_u128_def int_range_iff)
  with False int_range_128 [OF assms] show ?thesis by (auto simp: fit_unsigned_def)
qed


subsection \<open>Shifts\<close>

lemma shift_limit: "(m :: int) \<le> drop_bit r L \<longleftrightarrow> m * 2 ^ r \<le> L"
proof
  assume "m \<le> drop_bit r L"
  then have "m * 2 ^ r \<le> (L div 2 ^ r) * 2 ^ r" by (simp add: drop_bit_eq_div)
  also have "\<dots> \<le> L" by (simp add: minus_mod_eq_div_mult [symmetric])
  finally show "m * 2 ^ r \<le> L" .
next
  assume "m * 2 ^ r \<le> L"
  then have "m * 2 ^ r div 2 ^ r \<le> L div 2 ^ r" by (intro zdiv_mono1) simp_all
  then show "m \<le> drop_bit r L" by (simp add: drop_bit_eq_div)
qed

lemma checked_signed_left_shift_eq:
  assumes "1 \<le> w" "w \<le> 128" "r < w"
  shows "checked_signed_left_shift a r w = (if a * 2 ^ r \<in> int_range True w then Some (a * 2 ^ r) else None)"
proof -
  define L :: int where "L = (if a < 0 then 2 ^ (w - 1) else 2 ^ (w - 1) - 1)"
  have "checked_signed_left_shift a r w
      = (if \<bar>a\<bar> > drop_bit r L then None else Some (signed_take_bit 127 (push_bit r a)))"
    using assms by (simp add: checked_signed_left_shift_def Let_def L_def)
  moreover have "\<bar>a\<bar> > drop_bit r L \<longleftrightarrow> \<not> \<bar>a\<bar> * 2 ^ r \<le> L" using shift_limit [of "\<bar>a\<bar>" r L] by linarith
  moreover have "\<bar>a\<bar> * 2 ^ r \<le> L \<longleftrightarrow> a * 2 ^ r \<in> int_range True w"
  proof (cases "a < 0")
    case True
    then have "a * 2 ^ r < 0" by (simp add: mult_neg_pos)
    also have "\<dots> \<le> 2 ^ (w - 1)" by simp
    finally show ?thesis using True by (auto simp: L_def int_range_iff)
  next
    case False
    then have "0 \<le> a * 2 ^ r" by simp
    moreover have "- (2 ^ (w - 1)) \<le> (0 :: int)" by simp
    ultimately have "- (2 ^ (w - 1)) \<le> a * 2 ^ r" by linarith
    with False show ?thesis by (auto simp: L_def int_range_iff)
  qed
  moreover have "signed_take_bit 127 (push_bit r a) = a * 2 ^ r" if "a * 2 ^ r \<in> int_range True w"
    using int_range_128 [OF assms(1,2) that] by (simp add: push_bit_eq_mult int_range_iff signed_take_bit_int_eq_self)
  ultimately show ?thesis by simp
qed

lemma checked_unsigned_left_shift_eq:
  assumes "1 \<le> w" "w \<le> 128" "r < w" "0 \<le> a"
  shows "checked_unsigned_left_shift a r w = (if a * 2 ^ r \<in> int_range False w then Some (a * 2 ^ r) else None)"
proof -
  define M :: int where "M = 2 ^ w - 1"
  have M: "(if w = 128 then 2 ^ 128 - 1 else 2 ^ w - 1) = M" by (simp add: M_def)
  have lim: "a > drop_bit r M \<longleftrightarrow> \<not> a * 2 ^ r \<le> M" using shift_limit [of a r M] by linarith
  have "a * 1 \<le> a * 2 ^ r" using assms(4) by (intro mult_left_mono) simp_all
  then have "a > M \<or> a > drop_bit r M \<longleftrightarrow> \<not> a * 2 ^ r \<le> M" using lim by linarith
  moreover have "a * 2 ^ r \<le> M \<longleftrightarrow> a * 2 ^ r \<in> int_range False w" using assms(4) by (simp add: M_def int_range_iff)
  moreover have "take_bit 128 (push_bit r a) = a * 2 ^ r" if "a * 2 ^ r \<in> int_range False w"
    using int_range_128 [OF assms(1,2) that] by (simp add: push_bit_eq_mult int_range_iff take_bit_int_eq_self)
  ultimately show ?thesis
    using assms by (simp add: checked_unsigned_left_shift_def Let_def M)
qed

lemma typed_shift_count_eq:
  "w \<le> 128 \<Longrightarrow> typed_shift_count v w = (if 0 \<le> v \<and> v < int w then Ok (nat v) else Err shift_range_message)"
  by (auto simp: typed_shift_count_def try_u32_def)


subsection \<open>Division and remainder stay in range\<close>

lemma sdiv_in_range:
  assumes "a \<in> int_range True w" "b \<noteq> 0" "\<not> min_over_minus_one True w a b"
  shows "a sdiv b \<in> int_range True w"
proof -
  consider "b = - 1" | "b = 1" | "a = 0" | "2 \<le> \<bar>b\<bar>" "a \<noteq> 0" using assms(2) by linarith
  then show ?thesis
  proof cases
    case 4
    then have "\<bar>a\<bar> div \<bar>b\<bar> < \<bar>a\<bar>" by (intro int_div_less_self) auto
    moreover have "0 \<le> \<bar>a\<bar> div \<bar>b\<bar>" by (intro div_int_pos_iff [THEN iffD2]) auto
    moreover have "\<bar>a sdiv b\<bar> = \<bar>a\<bar> div \<bar>b\<bar>"
      using 4 by (auto simp: signed_divide_int_def abs_mult sgn_if pos_imp_zdiv_nonneg_iff)
    ultimately have "\<bar>a sdiv b\<bar> < \<bar>a\<bar>" by simp
    moreover have "\<bar>a\<bar> \<le> 2 ^ (w - 1)" using assms(1) by (auto simp: int_range_iff)
    ultimately have "\<bar>a sdiv b\<bar> < 2 ^ (w - 1)" by linarith
    then show ?thesis by (auto simp: int_range_iff abs_less_iff)
  qed (use assms in \<open>auto simp: int_range_iff min_over_minus_one_def\<close>)
qed

lemma smod_in_range:
  assumes "a \<in> int_range True w"
  shows "a smod b \<in> int_range True w"
proof -
  have m: "0 \<le> \<bar>a\<bar> mod \<bar>b\<bar>" "\<bar>a\<bar> mod \<bar>b\<bar> \<le> \<bar>a\<bar>"
    by (cases "b = 0"; simp add: zmod_le_nonneg_dividend)+
  show ?thesis
  proof (cases "0 \<le> a")
    case True
    then have "0 \<le> a smod b" "a smod b \<le> a" using m by (auto simp: smod_int_alt_def sgn_if)
    moreover have "- (2 ^ (w - 1)) \<le> (0 :: int)" by simp
    ultimately show ?thesis using assms unfolding int_range_iff by linarith
  next
    case False
    then have "a \<le> a smod b" "a smod b \<le> 0" using m by (auto simp: smod_int_alt_def sgn_if)
    moreover have "(0 :: int) < 2 ^ (w - 1)" by simp
    ultimately show ?thesis using assms unfolding int_range_iff by linarith
  qed
qed

subsection \<open>Bitwise operations stay in range\<close>

lemma int_range_bits:
  "1 \<le> w \<Longrightarrow> v \<in> int_range True w \<longleftrightarrow> signed_take_bit (w - 1) v = v"
  "v \<in> int_range False w \<longleftrightarrow> take_bit w v = v"
  by (simp_all add: int_range_iff signed_take_bit_int_eq_self_iff take_bit_int_eq_self_iff)

lemma signed_take_bit_bitwise:
  fixes a b :: int
  shows "signed_take_bit n (a AND b) = (signed_take_bit n a AND signed_take_bit n b)"
    and "signed_take_bit n (a OR b) = (signed_take_bit n a OR signed_take_bit n b)"
    and "signed_take_bit n (a XOR b) = (signed_take_bit n a XOR signed_take_bit n b)"
  by (rule bit_eqI; simp add: bit_simps)+

lemma bitwise_in_range:
  assumes "1 \<le> w" "a \<in> int_range s w" "b \<in> int_range s w"
  shows "(a AND b) \<in> int_range s w" "(a OR b) \<in> int_range s w" "(a XOR b) \<in> int_range s w"
proof -
  have "(a AND b) \<in> int_range s w \<and> (a OR b) \<in> int_range s w \<and> (a XOR b) \<in> int_range s w"
    using assms by (cases s) (simp_all add: int_range_bits signed_take_bit_bitwise)
  then show "(a AND b) \<in> int_range s w" "(a OR b) \<in> int_range s w" "(a XOR b) \<in> int_range s w" by auto
qed


subsection \<open>The evaluator against the rules\<close>

text \<open>Outcome of an operation by the rules: an error when it traps, the result otherwise.\<close>

definition follows_rules ::
  "bool \<Rightarrow> nat \<Rightarrow> const_binary_op \<Rightarrow> int \<Rightarrow> int \<Rightarrow> (int_const, string) rust_result \<Rightarrow> bool" where
  "follows_rules s w op a b r \<longleftrightarrow>
     (if traps s w op a b then \<exists>e. r = Err e else r = Ok (typed_const s (op_result op a b)))"

definition is_shift :: "const_binary_op \<Rightarrow> bool" where
  "is_shift op \<longleftrightarrow> op \<in> {Shl, Shr}"

lemma as_i128_from_i128 [simp]: "v \<in> int_range True 128 \<Longrightarrow> as_i128 (from_i128 v) = Some v"
  by (simp add: as_i128_value int_range_iff)

lemma fit_None [simp]:
  "fit_signed op w None = Err (integer_overflow_message op)"
  "fit_unsigned op w None = Err (integer_overflow_message op)"
  by (simp_all add: fit_signed_def fit_unsigned_def)

lemma fit_in_range:
  assumes "1 \<le> w" "w \<le> 128"
  shows "v \<in> int_range True w \<Longrightarrow> fit_signed op w (Some v) = Ok (typed_const True v)"
    and "v \<in> int_range False w \<Longrightarrow> fit_unsigned op w (Some v) = Ok (typed_const False v)"
  using fit_signed_Some [OF assms int_range_128 [OF assms], of v op]
    fit_unsigned_Some [OF assms int_range_128 [OF assms], of v op] by simp_all

lemma host_min:
  assumes "1 \<le> w" "w \<le> 128" "a \<in> int_range True w" "a = - (2 ^ 127) \<and> b = - 1"
  shows "w = 128" "min_over_minus_one True w a b"
proof -
  have le: "(2 :: int) ^ 127 \<le> 2 ^ (w - 1)" using assms(3,4) by (simp add: int_range_iff)
  show "w = 128"
  proof (rule ccontr)
    assume "w \<noteq> 128"
    then have "(2 :: int) ^ (w - 1) < 2 ^ 127" using assms(1,2) by (intro power_strict_increasing) auto
    with le show False by simp
  qed
  with assms(4) show "min_over_minus_one True w a b" by (simp add: min_over_minus_one_def)
qed

lemma fit_signed_min_div:
  assumes "1 \<le> w" "w \<le> 128" "min_over_minus_one True w a b"
  shows "\<exists>e. fit_signed Div w (checked_div_i128 a b) = Err e"
proof (cases "w = 128")
  case True
  with assms(3) show ?thesis by (simp add: min_over_minus_one_def checked_div_i128_def fit_signed_def)
next
  case False
  have "(2 :: int) ^ (w - 1) < 2 ^ 127" using assms(1,2) False by (intro power_strict_increasing) auto
  moreover have "- (2 ^ 127) \<le> (2 :: int) ^ (w - 1)" by (rule order_trans [of _ 0]) simp_all
  ultimately have "checked_div_i128 a b = Some (2 ^ (w - 1))" and r: "2 ^ (w - 1) \<in> int_range True 128"
    using assms(3) by (auto simp: min_over_minus_one_def checked_div_i128_def int_range_iff)
  with fit_signed_Some [OF assms(1,2) r] show ?thesis by (simp add: int_range_iff)
qed

lemma eval_typed_signed_div:
  assumes w: "1 \<le> w" "w \<le> 128" and a: "a \<in> int_range True w"
  shows "follows_rules True w Div a b (eval_typed_signed a Div b w)"
proof (cases "b = 0 \<or> min_over_minus_one True w a b")
  case True
  with fit_signed_min_div [OF w] show ?thesis by (auto simp: follows_rules_def eval_typed_signed_def)
next
  case False
  then have r: "a sdiv b \<in> int_range True w" using sdiv_in_range [OF a] by blast
  have "checked_div_i128 a b = Some (a sdiv b)" using False host_min(2) [OF w a] by (auto simp: checked_div_i128_def)
  with False r fit_signed_Some [OF w int_range_128 [OF w r]] show ?thesis
    by (simp add: follows_rules_def eval_typed_signed_def)
qed

lemma eval_typed_signed_rem:
  assumes w: "1 \<le> w" "w \<le> 128" and a: "a \<in> int_range True w"
  shows "b \<noteq> 0 \<Longrightarrow> \<not> (w = 128 \<and> min_over_minus_one True w a b) \<Longrightarrow>
      eval_typed_signed a Rem b w = Ok (typed_const True (a smod b))"
    and "b = 0 \<or> w = 128 \<and> min_over_minus_one True w a b \<Longrightarrow> \<exists>e. eval_typed_signed a Rem b w = Err e"
proof -
  have r: "a smod b \<in> int_range True w" using smod_in_range [OF a] .
  show "eval_typed_signed a Rem b w = Ok (typed_const True (a smod b))"
    if "b \<noteq> 0" and min: "\<not> (w = 128 \<and> min_over_minus_one True w a b)"
  proof -
    have "checked_rem_i128 a b = Some (a smod b)" using that host_min [OF w a] by (auto simp: checked_rem_i128_def)
    with \<open>b \<noteq> 0\<close> r fit_signed_Some [OF w int_range_128 [OF w r]] show ?thesis by (simp add: eval_typed_signed_def)
  qed
  show "\<exists>e. eval_typed_signed a Rem b w = Err e" if "b = 0 \<or> w = 128 \<and> min_over_minus_one True w a b"
    using that by (auto simp: eval_typed_signed_def min_over_minus_one_def checked_rem_i128_def fit_signed_def)
qed

lemma eval_typed_signed_rules:
  assumes w: "1 \<le> w" "w \<le> 128" and a: "a \<in> int_range True w" and b: "b \<in> int_range True w \<or> is_shift op"
    and op: "arithmetic op" and min: "\<not> (op = Rem \<and> w < 128 \<and> min_over_minus_one True w a b)"
  shows "follows_rules True w op a b (eval_typed_signed a op b w)"
proof -
  have b128: "b \<in> int_range True 128" if "\<not> is_shift op" using b that int_range_128 [OF w] by blast
  note bitwise = follows_rules_def eval_typed_signed_def eval_binary_int_def int_to_i128_def typed_const_def is_shift_def
  have rem: "follows_rules True w Rem a b (eval_typed_signed a Rem b w)" if "op = Rem"
    using eval_typed_signed_rem [OF w a, of b] min w(2) that by (auto simp: follows_rules_def)
  have div: "follows_rules True w Div a b (eval_typed_signed a Div b w)" using eval_typed_signed_div [OF w a] .
  from op show ?thesis unfolding arithmetic_def
  proof (elim insertE)
    assume "op = Div"
    with div show ?thesis by simp
  next
    assume "op = Rem"
    with rem show ?thesis by simp
  next
    assume "op = Shl"
    then show ?thesis using w
      by (auto simp: follows_rules_def eval_typed_signed_def typed_shift_count_eq checked_signed_left_shift_eq
          fit_in_range [OF w])
  next
    assume "op = Shr"
    then show ?thesis using w
      by (auto simp: follows_rules_def eval_typed_signed_def typed_shift_count_eq typed_const_def drop_bit_eq_div)
  next
    assume "op = BitAnd"
    then show ?thesis using int_range_128 [OF w a] b128 by (simp add: bitwise)
  next
    assume "op = BitOr"
    then show ?thesis using int_range_128 [OF w a] b128 by (simp add: bitwise)
  next
    assume "op = BitXor"
    then show ?thesis using int_range_128 [OF w a] b128 by (simp add: bitwise)
  qed (use w in \<open>auto simp: follows_rules_def eval_typed_signed_def fit_signed_checked\<close>)
qed

lemma div_mod_in_range:
  assumes "a \<in> int_range False w" "0 \<le> b"
  shows "a div b \<in> int_range False w" "a mod b \<in> int_range False w" "a div 2 ^ k \<in> int_range False w"
proof -
  have "0 \<le> a" "a < 2 ^ w" using assms(1) by (simp_all add: int_range_iff)
  moreover have "a div b \<le> a" using \<open>0 \<le> a\<close> assms(2) by (cases "b = 0") (use zdiv_mono2 [of a 1 b] in auto)
  moreover have "a mod b \<le> a" using \<open>0 \<le> a\<close> assms(2) by (cases "b = 0") (auto intro: zmod_le_nonneg_dividend)
  moreover have "a div 2 ^ k \<le> a" using \<open>0 \<le> a\<close> zdiv_mono2 [of a 1 "2 ^ k"] by simp
  moreover have "0 \<le> a div b" "0 \<le> a mod b" "0 \<le> a div 2 ^ k"
    using \<open>0 \<le> a\<close> assms(2) by (cases "b = 0"; simp add: pos_imp_zdiv_nonneg_iff)+
  ultimately show "a div b \<in> int_range False w" "a mod b \<in> int_range False w" "a div 2 ^ k \<in> int_range False w"
    by (auto simp: int_range_iff)
qed

lemma eval_typed_unsigned_rules:
  assumes w: "1 \<le> w" "w \<le> 128" and a: "a \<in> int_range False w"
    and b: "b \<in> int_range False w \<or> is_shift op" "0 \<le> b" and op: "arithmetic op"
  shows "follows_rules False w op a b (eval_typed_unsigned a op b w)"
proof -
  have a0: "0 \<le> a" using a by (simp add: int_range_iff)
  note dm = div_mod_in_range [OF a b(2)]
  have nomin: "\<not> min_over_minus_one False w a b" by (simp add: min_over_minus_one_def)
  have trunc: "a sdiv b = a div b" "a smod b = a mod b"
    using a0 b(2) by (cases "a = 0 \<or> b = 0"; auto simp: signed_divide_int_def smod_mod_positive)+
  from op show ?thesis unfolding arithmetic_def
  proof (elim insertE)
    assume "op = Div"
    then show ?thesis using w dm(1) int_range_128 [OF w dm(1)] nomin
      by (auto simp: follows_rules_def eval_typed_unsigned_def trunc fit_unsigned_Some)
  next
    assume "op = Rem"
    then show ?thesis using w dm(2) int_range_128 [OF w dm(2)] nomin
      by (auto simp: follows_rules_def eval_typed_unsigned_def trunc fit_unsigned_Some)
  next
    assume "op = Shl"
    then show ?thesis using w a0
      by (auto simp: follows_rules_def eval_typed_unsigned_def typed_shift_count_eq checked_unsigned_left_shift_eq
          fit_in_range [OF w])
  next
    assume "op = Shr"
    then show ?thesis using w
      by (auto simp: follows_rules_def eval_typed_unsigned_def typed_shift_count_eq typed_const_def drop_bit_eq_div)
  qed (use w in \<open>auto simp: follows_rules_def eval_typed_unsigned_def fit_unsigned_checked eval_binary_uint_def typed_const_def\<close>)
qed


lemma eval_typed_binary_int_rules:
  assumes w: "1 \<le> w" "w \<le> 128" and op: "arithmetic op"
    and l: "int_value lhs \<in> int_range s w" and r: "int_value rhs \<in> int_range s w \<or> is_shift op"
    and min: "\<not> (op = Rem \<and> w < 128 \<and> min_over_minus_one s w (int_value lhs) (int_value rhs))"
  shows "follows_rules s w op (int_value lhs) (int_value rhs)
    (eval_typed_binary_int lhs op rhs \<lparr>width_bits = w, is_signed_type = s\<rparr>)"
proof (cases s)
  case True
  have l127: "int_value lhs < 2 ^ 127" using int_range_128 [OF w l] True by (simp add: int_range_iff)
  show ?thesis
  proof (cases "int_value rhs < 2 ^ 127")
    case r127: True
    have "eval_typed_binary_int lhs op rhs \<lparr>width_bits = w, is_signed_type = s\<rparr>
        = eval_typed_signed (int_value lhs) op (int_value rhs) w"
      using w True l127 r127 by (simp add: eval_typed_binary_int_def int_to_i128_def as_i128_value)
    with eval_typed_signed_rules [OF w _ _ op] l r min True show ?thesis by simp
  next
    case False
    then have "is_shift op" using r True int_range_128 [OF w, of "int_value rhs" True] by (auto simp: int_range_iff)
    moreover have "int w \<le> int_value rhs" using False w(2) by simp
    ultimately have "traps s w op (int_value lhs) (int_value rhs)" by (auto simp: is_shift_def)
    with False w True l127 show ?thesis
      by (simp add: follows_rules_def eval_typed_binary_int_def int_to_i128_def as_i128_value)
  qed
next
  case False
  have nonneg: "int_to_u128 c ctx = Ok (int_value c)" if "0 \<le> int_value c" for c ctx
    using that sint_128(2) [of "bits c"]
    by (auto simp: int_to_u128_def as_i128_value i128_to_u128_def int_value_def)
  have l0: "0 \<le> int_value lhs" using l False by (simp add: int_range_iff)
  show ?thesis
  proof (cases "0 \<le> int_value rhs")
    case True
    with eval_typed_unsigned_rules [OF w _ _ True op] l r w False nonneg [OF l0] nonneg [OF True] show ?thesis
      by (simp add: eval_typed_binary_int_def)
  next
    case neg: False
    then have "is_shift op" using r False by (auto simp: int_range_iff)
    with neg have "traps s w op (int_value lhs) (int_value rhs)" by (auto simp: is_shift_def)
    moreover have "is_signed rhs" using neg by (auto simp: int_value_def split: if_splits)
    then have "int_to_u128 rhs ctx = Err (''integer value is negative in unsigned '' @ ctx)" for ctx
      using neg sint_128(2) [of "bits rhs"] by (simp add: int_to_u128_def as_i128_value i128_to_u128_def int_value_def)
    ultimately show ?thesis using w False nonneg [OF l0] by (simp add: follows_rules_def eval_typed_binary_int_def)
  qed
qed

lemma op_result_in_range:
  assumes w: "1 \<le> w" "w \<le> 128" and "arithmetic op" "a \<in> int_range s w" "b \<in> int_range s w \<or> is_shift op"
    and ok: "\<not> traps s w op a b"
  shows "op_result op a b \<in> int_range s w"
proof -
  have sh: "a div 2 ^ nat b \<in> int_range s w"
  proof (cases s)
    case True
    have a: "- (2 ^ (w - 1)) \<le> a" "a < 2 ^ (w - 1)" using assms(4) True by (simp_all add: int_range_iff)
    have "a div 2 ^ nat b \<le> max a 0" "min a 0 \<le> a div 2 ^ nat b"
      using zdiv_mono2 [of a 1 "2 ^ nat b"] zdiv_mono2_neg [of a 1 "2 ^ nat b"]
      by (cases "0 \<le> a"; simp add: pos_imp_zdiv_nonneg_iff div_nonpos_pos_le0)+
    moreover have "(0 :: int) < 2 ^ (w - 1)" by simp
    ultimately have "a div 2 ^ nat b \<in> int_range True w" using a unfolding int_range_iff by linarith
    with True show ?thesis by simp
  next
    case False
    then show ?thesis using div_mod_in_range(3) [of a w 0 "nat b"] assms(4) by simp
  qed
  have dv: "a sdiv b \<in> int_range s w" "a smod b \<in> int_range s w"
    if "b \<noteq> 0" "\<not> min_over_minus_one s w a b" "b \<in> int_range s w"
  proof -
    show "a sdiv b \<in> int_range s w" "a smod b \<in> int_range s w"
      using that assms(4) sdiv_in_range [of a w b] smod_in_range [of a w b] div_mod_in_range [of a w b]
      by (cases s; cases "a = 0"; auto simp: int_range_iff signed_divide_int_def smod_mod_positive)+
  qed
  from assms(3) show ?thesis unfolding arithmetic_def
    by (elim insertE) (use assms(4,5) ok sh dv bitwise_in_range [OF w(1), of a s b] in
        \<open>auto simp: is_shift_def\<close>)
qed


section \<open>Properties of constant arithmetic\<close>

text \<open>
  C17. Constant evaluation follows the trap rules of the language at every width: on operands of the type,
  an arithmetic, shift or bitwise operation is an error exactly when run-time code would trap, and
  otherwise yields the mathematical result, which is a value of the type. The single exception is the
  remainder \<^verbatim>\<open>MIN % -1\<close> at widths below 128.
\<close>

theorem eval_typed_binary_int_follows_trap_rules:
  assumes "1 \<le> w" "w \<le> 128" "arithmetic op"
    and "int_value lhs \<in> int_range s w" "int_value rhs \<in> int_range s w \<or> is_shift op"
    and "\<not> (op = Rem \<and> w < 128 \<and> min_over_minus_one s w (int_value lhs) (int_value rhs))"
  shows "if traps s w op (int_value lhs) (int_value rhs)
    then \<exists>e. eval_typed_binary_int lhs op rhs \<lparr>width_bits = w, is_signed_type = s\<rparr> = Err e
    else \<exists>c. eval_typed_binary_int lhs op rhs \<lparr>width_bits = w, is_signed_type = s\<rparr> = Ok c
           \<and> is_signed c = s \<and> int_value c = op_result op (int_value lhs) (int_value rhs) \<and> int_value c \<in> int_range s w"
proof -
  let ?a = "int_value lhs" and ?b = "int_value rhs"
  note rules = eval_typed_binary_int_rules [OF assms(1,2,3,4,5,6)]
  show ?thesis
  proof (cases "traps s w op ?a ?b")
    case True
    with rules show ?thesis by (simp add: follows_rules_def)
  next
    case False
    have r: "op_result op ?a ?b \<in> int_range s w" using op_result_in_range [OF assms(1,2,3,4,5) False] .
    with rules False int_value_typed_const [OF int_range_128 [OF assms(1,2) r]] show ?thesis
      by (simp add: follows_rules_def)
  qed
qed

theorem eval_typed_binary_int_follows_trap_rules_witness:
  "\<exists>e. eval_typed_binary_int (from_i128 (- 128)) Div (from_i128 (- 1)) \<lparr>width_bits = 8, is_signed_type = True\<rparr> = Err e"
proof -
  have "int_value (from_i128 (- 128)) = - 128" "int_value (from_i128 (- 1)) = - 1" by (simp_all add: int_range_iff)
  then show ?thesis
    using eval_typed_binary_int_follows_trap_rules [of 8 Div "from_i128 (- 128)" True "from_i128 (- 1)"]
    by (simp add: arithmetic_def int_range_iff min_over_minus_one_def)
qed

text \<open>
  C18. The exception is real: at every signed width below 128 the remainder \<^verbatim>\<open>MIN % -1\<close>, which traps at run
  time, evaluates to zero, because the overflow test of the host remainder only fires at 128 bits.
\<close>

theorem const_rem_min_minus_one_accepted:
  assumes "1 \<le> w" "w < 128"
  shows "traps True w Rem (- (2 ^ (w - 1))) (- 1)
    \<and> eval_typed_binary_int (from_i128 (- (2 ^ (w - 1)))) Rem (from_i128 (- 1)) \<lparr>width_bits = w, is_signed_type = True\<rparr>
      = Ok (from_i128 0)"
proof -
  have a: "- (2 ^ (w - 1)) \<in> int_range True w" by (simp add: int_range_iff)
  have a128: "- (2 ^ (w - 1)) \<in> int_range True 128" using int_range_128 [OF assms(1) less_imp_le [OF assms(2)] a] .
  have b128: "- 1 \<in> int_range True 128" by (simp add: int_range_iff)
  have "eval_typed_signed (- (2 ^ (w - 1))) Rem (- 1) w = Ok (typed_const True (- (2 ^ (w - 1)) smod - 1))"
    using eval_typed_signed_rem(1) [OF assms(1) less_imp_le [OF assms(2)] a] assms(2) by simp
  then show ?thesis
    using assms a128 b128
    by (simp add: eval_typed_binary_int_def int_to_i128_def min_over_minus_one_def typed_const_def smod_int_alt_def)
qed

theorem const_rem_min_minus_one_accepted_witness:
  "traps True 32 Rem (- (2 ^ 31)) (- 1)
   \<and> eval_typed_binary_int (from_i128 (- (2 ^ 31))) Rem (from_i128 (- 1)) \<lparr>width_bits = 32, is_signed_type = True\<rparr>
     = Ok (from_i128 0)"
  using const_rem_min_minus_one_accepted [of 32] by simp

lemma neg_sint_less_uint: "sint (a :: 128 word) < 0 \<Longrightarrow> sint a < uint (b :: 128 word)"
  by (rule order.strict_trans2 [OF _ uint_128(1)])

lemma neg_uint_less: "- uint (b :: 128 word) < 2 ^ 127"
  by (rule order.strict_trans1 [of _ 0]) simp_all

text \<open>
  C22. Comparison and equality of integer constants agree with the numbers they denote, whatever the
  signedness of the two sides, and an array length is accepted exactly when it is a 64-bit natural number.
\<close>

theorem int_comparison_is_mathematical:
  "eval_binary_int_compare a Lt b = Ok (int_value a < int_value b)
   \<and> eval_binary_int_compare a Le b = Ok (int_value a \<le> int_value b)
   \<and> eval_binary_int_compare a Gt b = Ok (int_value a > int_value b)
   \<and> eval_binary_int_compare a Ge b = Ok (int_value a \<ge> int_value b)
   \<and> int_values_equal a b = (int_value a = int_value b)
   \<and> int_to_array_len a = (if int_value a < 0 then Err ''array length must be non-negative''
       else if int_value a < 2 ^ 64 then Ok (nat (int_value a)) else Err ''array length is too large'')"
proof -
  have cmp: "compare_int_values a b = cmp (int_value a) (int_value b)"
    using neg_sint_less_uint [of "bits a" "bits b"] neg_sint_less_uint [of "bits b" "bits a"]
    by (auto simp: compare_int_values_def int_value_def cmp_def Let_def)
  have eq: "bits a = bits b \<longleftrightarrow> int_value a = int_value b" if "\<not> int_value a < 2 ^ 127" "\<not> int_value b < 2 ^ 127"
    using that sint_128(2) [of "bits a"] sint_128(2) [of "bits b"]
    by (auto simp: int_value_def intro: unsigned_word_eqI split: if_splits)
  have "int_values_equal a b = (int_value a = int_value b)"
    using eq by (auto simp: int_values_equal_def as_i128_value)
  moreover have "int_to_array_len a = (if int_value a < 0 then Err ''array length must be non-negative''
       else if int_value a < 2 ^ 64 then Ok (nat (int_value a)) else Err ''array length is too large'')"
    by (auto simp: int_to_array_len_def as_i128_value)
  ultimately show ?thesis by (auto simp: eval_binary_int_compare_def cmp Let_def cmp_def)
qed

lemma sint_negated:
  assumes "uint (b :: 128 word) \<le> 2 ^ 127"
  shows "sint (0 - b) = - uint b"
proof -
  have "0 - b = word_of_int (- uint b)" by simp
  moreover have "- (2 ^ 127) \<le> - uint b" using assms by simp
  ultimately show ?thesis using sint_of_int [of "- uint b"] neg_uint_less [of b] by simp
qed

text \<open>The raw bits of a constant, sign-extended from the width of a type that holds its value.\<close>

lemma signed_take_bit_uint_bits:
  assumes "1 \<le> w" "w \<le> 128" "int_value c \<in> int_range True w"
  shows "signed_take_bit (w - 1) (uint (bits c)) = int_value c"
proof -
  have "signed_take_bit (w - 1) (uint (bits c)) = signed_take_bit (w - 1) (int_value c)"
  proof (cases "is_signed c")
    case True
    then have "uint (bits c) = take_bit 128 (int_value c)" using uint_sint [of "bits c"] by (simp add: int_value_def)
    moreover have "w - 1 < 128" using assms(1,2) by simp
    ultimately show ?thesis by (simp add: signed_take_bit_take_bit)
  qed (simp add: int_value_def)
  with assms(1,3) show ?thesis by (simp add: int_range_bits)
qed

lemma sign_extend_word:
  assumes "1 \<le> w" "w \<le> 128"
  shows "drop_bit (128 - w) (sint (push_bit (128 - w) (b :: 128 word))) = signed_take_bit (w - 1) (uint b)"
proof (rule bit_eqI)
  fix n
  show "bit (drop_bit (128 - w) (sint (push_bit (128 - w) b))) n \<longleftrightarrow> bit (signed_take_bit (w - 1) (uint b)) n"
    using assms by (cases "n < w - 1") (auto simp: bit_simps min_def)
qed

lemma const_typed_bit_not_signed:
  assumes "1 \<le> w" "w \<le> 128" "int_value c \<in> int_range True w"
  shows "const_typed_bit_not c (Some \<lparr>width_bits = w, is_signed_type = True\<rparr>) = Ok (from_i128 (NOT (int_value c)))"
proof -
  let ?b = "NOT (bits c) AND integer_mask w"
  have m: "(if w = 128 then - 1 else push_bit w 1 - 1) = integer_mask w" using assms(2) by (simp add: integer_mask_def)
  have "signed_take_bit (w - 1) (uint ?b) = NOT (signed_take_bit (w - 1) (uint (bits c)))"
    using assms(1,2) by (intro bit_eqI) (auto simp: and_integer_mask bit_simps min_def)
  then show ?thesis
    using assms(1,2) signed_take_bit_uint_bits [OF assms]
    by (simp add: const_typed_bit_not_def Let_def m sign_extend_word)
qed

lemma const_typed_bit_not_unsigned:
  assumes "1 \<le> w" "w \<le> 128" "int_value c \<in> int_range False w"
  shows "\<exists>r. const_typed_bit_not c (Some \<lparr>width_bits = w, is_signed_type = False\<rparr>) = Ok r
    \<and> \<not> is_signed r \<and> int_value r = 2 ^ w - 1 - int_value c"
proof -
  let ?b = "NOT (bits c) AND integer_mask w"
  have m: "(if w = 128 then - 1 else push_bit w 1 - 1) = integer_mask w" using assms(2) by (simp add: integer_mask_def)
  have "uint (bits c) mod 2 ^ w = int_value c mod 2 ^ w" using mod_int_value [OF assms(2)] .
  also have "\<dots> = int_value c" using assms(3) by (simp add: int_range_iff)
  finally have v: "take_bit w (uint (bits c)) = int_value c" by (simp add: take_bit_eq_mod)
  have "uint ?b = take_bit w (NOT (uint (bits c)))"
    using assms(2) by (intro bit_eqI) (auto simp: and_integer_mask bit_simps)
  also have "\<dots> = mask w - take_bit w (uint (bits c))" by (rule take_bit_not_eq_mask_diff)
  also have "\<dots> = 2 ^ w - 1 - int_value c" using v by (simp add: mask_eq_exp_minus_1)
  finally show ?thesis using assms(1,2) by (simp add: const_typed_bit_not_def Let_def m)
qed

lemma eval_typed_int_neg_signed:
  assumes "1 \<le> w" "w \<le> 128"
  shows "- int_value c \<in> int_range True w \<Longrightarrow>
      \<exists>r. eval_typed_int_neg c (Some \<lparr>width_bits = w, is_signed_type = True\<rparr>) = Ok r
        \<and> is_signed r \<and> int_value r = - int_value c"
    and "- int_value c \<notin> int_range True w \<Longrightarrow>
      eval_typed_int_neg c (Some \<lparr>width_bits = w, is_signed_type = True\<rparr>) = Err neg_overflow"
proof -
  let ?sem = "\<lparr>width_bits = w, is_signed_type = True\<rparr>" and ?v = "int_value c"
  define n where "n = (if is_signed c then map_option from_i128 (Option.bind (as_i128 c) (\<lambda>v. checked_i128 (- v)))
      else if uint (bits c) \<le> 2 ^ 127 then Some (signed_bits (0 - bits c)) else None)"
  have n: "if - ?v \<in> int_range True 128 then \<exists>r. n = Some r \<and> is_signed r \<and> int_value r = - ?v else n = None"
  proof (cases "is_signed c")
    case True
    then have "- (2 ^ 127) \<le> ?v" "?v < 2 ^ 127" using sint_128 [of "bits c"] by (simp_all add: int_value_def)
    with True show ?thesis by (auto simp: n_def as_i128_value checked_i128_def int_range_iff)
  next
    case False
    then have v: "?v = uint (bits c)" by (simp add: int_value_def)
    have "- ?v \<in> int_range True 128 \<longleftrightarrow> uint (bits c) \<le> 2 ^ 127" using neg_uint_less [of "bits c"] v by (auto simp: int_range_iff)
    with False v show ?thesis using sint_negated [of "bits c"] by (auto simp: n_def)
  qed
  have eval: "eval_typed_int_neg c (Some ?sem) = bind_r (ok_or n neg_overflow) (\<lambda>r.
      if \<not> (case as_i128 r of None \<Rightarrow> False | Some v \<Rightarrow> signed_value_fits v w) then Err neg_overflow else Ok r)"
    unfolding eval_typed_int_neg_def n_def
    by (simp only: option.case const_integer_semantics.select_convs not_True_eq_False simp_thms)
  have fits: "(case as_i128 r of None \<Rightarrow> False | Some v \<Rightarrow> signed_value_fits v w) \<longleftrightarrow> - ?v \<in> int_range True w"
    if "- ?v \<in> int_range True 128" "int_value r = - ?v" for r
  proof -
    have "as_i128 r = Some (- ?v)" using that by (simp add: as_i128_value int_range_iff)
    then show ?thesis using signed_value_fits_range [OF assms that(1)] by simp
  qed
  show "\<exists>r. eval_typed_int_neg c (Some ?sem) = Ok r \<and> is_signed r \<and> int_value r = - ?v" if "- ?v \<in> int_range True w"
    using n fits int_range_128 [OF assms that] that unfolding eval by auto
  show "eval_typed_int_neg c (Some ?sem) = Err neg_overflow" if "- ?v \<notin> int_range True w"
    using n fits that unfolding eval by (cases "- ?v \<in> int_range True 128") auto
qed

lemma eval_typed_int_neg_unsigned:
  "eval_typed_int_neg c (Some \<lparr>width_bits = w, is_signed_type = False\<rparr>) = Err neg_overflow"
  by (auto simp: eval_typed_int_neg_def ok_or_def split: option.splits)

text \<open>
  C21. Unary operators at a width: negation yields the negated number exactly when the type is signed and
  holds it, also for a literal one past the largest positive value, and is an overflow otherwise, at an
  unsigned type even for zero. The bitwise complement of a value of the type is its complement in that
  width, again a value of the type.
\<close>

theorem const_unary_operators:
  assumes "1 \<le> w" "w \<le> 128"
  shows "(if s \<and> - int_value c \<in> int_range True w
     then \<exists>r. eval_typed_int_neg c (Some \<lparr>width_bits = w, is_signed_type = s\<rparr>) = Ok r
       \<and> is_signed r \<and> int_value r = - int_value c
     else eval_typed_int_neg c (Some \<lparr>width_bits = w, is_signed_type = s\<rparr>) = Err neg_overflow)
    \<and> (int_value c \<in> int_range s w \<longrightarrow>
       (\<exists>r. const_typed_bit_not c (Some \<lparr>width_bits = w, is_signed_type = s\<rparr>) = Ok r \<and> is_signed r = s
          \<and> int_value r = (if s then - int_value c - 1 else 2 ^ w - 1 - int_value c) \<and> int_value r \<in> int_range s w))"
proof (intro conjI impI)
  show "if s \<and> - int_value c \<in> int_range True w
    then \<exists>r. eval_typed_int_neg c (Some \<lparr>width_bits = w, is_signed_type = s\<rparr>) = Ok r
      \<and> is_signed r \<and> int_value r = - int_value c
    else eval_typed_int_neg c (Some \<lparr>width_bits = w, is_signed_type = s\<rparr>) = Err neg_overflow"
    using eval_typed_int_neg_signed [OF assms, of c] eval_typed_int_neg_unsigned [of c w]
    by (cases s) simp_all
next
  assume r: "int_value c \<in> int_range s w"
  show "\<exists>r. const_typed_bit_not c (Some \<lparr>width_bits = w, is_signed_type = s\<rparr>) = Ok r \<and> is_signed r = s
      \<and> int_value r = (if s then - int_value c - 1 else 2 ^ w - 1 - int_value c) \<and> int_value r \<in> int_range s w"
  proof (cases s)
    case True
    have "- int_value c - 1 \<in> int_range True w" using r True by (auto simp: int_range_iff)
    with True const_typed_bit_not_signed [OF assms] r int_range_128 [OF assms this] show ?thesis
      by (simp add: not_int_def)
  next
    case False
    have "2 ^ w - 1 - int_value c \<in> int_range False w" using r False by (auto simp: int_range_iff)
    moreover obtain x where "const_typed_bit_not c (Some \<lparr>width_bits = w, is_signed_type = False\<rparr>) = Ok x"
      "\<not> is_signed x" "int_value x = 2 ^ w - 1 - int_value c"
      using const_typed_bit_not_unsigned [OF assms, of c] r False by auto
    ultimately show ?thesis using False by (intro exI [of _ x]) simp
  qed
qed

theorem const_unary_operators_witness:
  "(\<exists>r. eval_typed_int_neg (unsigned_const 128) (Some \<lparr>width_bits = 8, is_signed_type = True\<rparr>) = Ok r
      \<and> int_value r = - 128)
   \<and> eval_typed_int_neg (unsigned_const 5) (Some \<lparr>width_bits = 8, is_signed_type = False\<rparr>) = Err neg_overflow
   \<and> (\<exists>r. const_typed_bit_not (unsigned_const 5) (Some \<lparr>width_bits = 8, is_signed_type = False\<rparr>) = Ok r
      \<and> int_value r = 250)"
  using const_unary_operators [of 8 True "unsigned_const 128"] const_unary_operators [of 8 False "unsigned_const 5"]
  by (auto simp: int_range_iff)

end
