(* ===== verification/Rust_Num.thy ===== *)
theory Rust_Num
  imports Nia_Prelude
begin

text \<open>
  Checked arithmetic of Rust's \<^verbatim>\<open>u64\<close> (and of \<^verbatim>\<open>usize\<close> on 64-bit hosts) on natural numbers, and
  \<^verbatim>\<open>checked_next_power_of_two\<close>.
\<close>

definition fits_u64 :: "nat \<Rightarrow> bool" where
  "fits_u64 n \<longleftrightarrow> n < 2 ^ 64"

definition checked_u64 :: "nat \<Rightarrow> nat option" where
  "checked_u64 n = (if fits_u64 n then Some n else None)"

abbreviation checked_add :: "nat \<Rightarrow> nat \<Rightarrow> nat option" where
  "checked_add a b \<equiv> checked_u64 (a + b)"

abbreviation checked_mul :: "nat \<Rightarrow> nat \<Rightarrow> nat option" where
  "checked_mul a b \<equiv> checked_u64 (a * b)"

lemma checked_u64_eq_Some [simp]: "checked_u64 n = Some m \<longleftrightarrow> fits_u64 n \<and> m = n"
  by (auto simp: checked_u64_def)

lemma checked_u64_eq_None [simp]: "checked_u64 n = None \<longleftrightarrow> \<not> fits_u64 n"
  by (simp add: checked_u64_def)

lemma fits_u64_mono: "fits_u64 n \<Longrightarrow> m \<le> n \<Longrightarrow> fits_u64 m"
  by (simp add: fits_u64_def)

definition pow2 :: "nat \<Rightarrow> bool" where
  "pow2 n \<longleftrightarrow> (\<exists>k. n = 2 ^ k)"

lemma pow2_pos: "pow2 n \<Longrightarrow> 0 < n"
  by (auto simp: pow2_def)

lemma pow2_power [simp]: "pow2 (2 ^ k)"
  by (auto simp: pow2_def)

lemma pow2_one [simp]: "pow2 1" "pow2 (Suc 0)"
  using pow2_power [of 0] by simp_all

lemma pow2_dvd: "pow2 a \<Longrightarrow> pow2 b \<Longrightarrow> a \<le> b \<Longrightarrow> a dvd b"
  by (auto simp: pow2_def power_increasing_iff intro: le_imp_power_dvd)

lemma pow2_max: "pow2 a \<Longrightarrow> pow2 b \<Longrightarrow> pow2 (max a b)"
  by (simp add: max_def)

function next_pow2_from :: "nat \<Rightarrow> nat \<Rightarrow> nat" where
  "next_pow2_from p n = (if n \<le> p \<or> p = 0 then p else next_pow2_from (2 * p) n)"
  by pat_completeness auto
termination by (relation "measure (\<lambda>(p, n). n - p)") auto

declare next_pow2_from.simps [simp del]

definition checked_next_power_of_two :: "nat \<Rightarrow> nat option" where
  "checked_next_power_of_two n = checked_u64 (next_pow2_from 1 n)"

lemma next_pow2_from_spec:
  "pow2 p \<Longrightarrow> pow2 (next_pow2_from p n) \<and> n \<le> next_pow2_from p n \<and> next_pow2_from p n \<le> max p (2 * n)"
proof (induction p n rule: next_pow2_from.induct)
  case (1 p n)
  have p: "0 < p" using pow2_pos [OF "1.prems"] .
  obtain k where "p = 2 ^ k" using "1.prems" by (auto simp: pow2_def)
  then have "2 * p = 2 ^ Suc k" by simp
  then have d: "pow2 (2 * p)" by (metis pow2_power)
  show ?case
  proof (cases "n \<le> p")
    case True
    with "1.prems" show ?thesis by (simp add: next_pow2_from.simps [of p n])
  next
    case False
    with "1.IH" p d show ?thesis by (auto simp: next_pow2_from.simps [of p n])
  qed
qed

lemma checked_next_power_of_two_spec:
  "checked_next_power_of_two n = Some m \<Longrightarrow> pow2 m \<and> n \<le> m \<and> m \<le> max 1 (2 * n) \<and> fits_u64 m"
  using next_pow2_from_spec [of 1 n] by (auto simp: checked_next_power_of_two_def)

end
