(* ===== verification/Nia_Layout.thy ===== *)
theory Nia_Layout
  imports Rust_Num Nia_Types "HOL-Library.Monad_Syntax" "HOL-Library.Product_Lexorder" "HOL-Library.Multiset"
begin

text \<open>
  Storage layout of types (\<^verbatim>\<open>nia-layout/src/abi.rs\<close>, \<^verbatim>\<open>aggregate.rs\<close> and the aggregate part of
  \<^verbatim>\<open>lib.rs\<close>). Sizes and offsets are \<^verbatim>\<open>u64\<close> values with checked arithmetic, written as natural numbers;
  \<open>None\<close> is the overflow or the malformed alignment the source reports. Field layouts enter as already
  computed values, as they do in the placement functions of the source.
\<close>

section \<open>Layout arithmetic\<close>

record type_layout =
  lsize :: nat
  lalign :: nat

abbreviation mk_layout :: "nat \<Rightarrow> nat \<Rightarrow> type_layout" where
  "mk_layout s a \<equiv> \<lparr>lsize = s, lalign = a\<rparr>"

record target_data_layout =
  pointer_size :: nat
  pointer_align :: nat
  wide_scalar_align :: nat

definition LP64 :: target_data_layout where
  "LP64 = \<lparr>pointer_size = 8, pointer_align = 8, wide_scalar_align = 8\<rparr>"

text \<open>The target enters by its pointer width in bits and whether its architecture is x86.\<close>

definition for_target :: "nat \<Rightarrow> bool \<Rightarrow> target_data_layout" where
  "for_target pointer_width is_x86 =
     (let pointer_size = pointer_width div 8
      in \<lparr>pointer_size = pointer_size, pointer_align = pointer_size, wide_scalar_align = (if is_x86 then 4 else 8)\<rparr>)"

definition primitive_layout :: "primitive_ty \<Rightarrow> target_data_layout \<Rightarrow> type_layout" where
  "primitive_layout primitive target =
     (let (s, a) = (case primitive of
          I8 \<Rightarrow> (1, 1) | U8 \<Rightarrow> (1, 1) | Bool \<Rightarrow> (1, 1)
        | I16 \<Rightarrow> (2, 2) | U16 \<Rightarrow> (2, 2)
        | I32 \<Rightarrow> (4, 4) | U32 \<Rightarrow> (4, 4) | F32 \<Rightarrow> (4, 4) | Char \<Rightarrow> (4, 4)
        | I64 \<Rightarrow> (8, wide_scalar_align target) | U64 \<Rightarrow> (8, wide_scalar_align target) | F64 \<Rightarrow> (8, wide_scalar_align target)
        | I128 \<Rightarrow> (16, 16) | U128 \<Rightarrow> (16, 16)
        | Isize \<Rightarrow> (pointer_size target, pointer_align target) | Usize \<Rightarrow> (pointer_size target, pointer_align target)
        | Never \<Rightarrow> (0, 1))
      in mk_layout s a)"

definition align_to :: "nat \<Rightarrow> nat \<Rightarrow> nat option" where
  "align_to value align =
     (if align = 0 then None
      else let remainder = value mod align
           in if remainder = 0 then Some value else checked_add value (align - remainder))"

definition fat_pointer_layout :: "target_data_layout \<Rightarrow> type_layout option" where
  "fat_pointer_layout target =
     do { sz \<leftarrow> checked_mul (pointer_size target) 2;
          if pointer_align target \<noteq> 0 then Some (mk_layout sz (pointer_align target)) else None }"

definition array_layout :: "type_layout \<Rightarrow> nat \<Rightarrow> type_layout option" where
  "array_layout element len =
     (if lalign element = 0 then None
      else do { sz \<leftarrow> checked_mul (lsize element) len; Some (mk_layout sz (lalign element)) })"

definition range_layout :: "range_ty_kind \<Rightarrow> type_layout option \<Rightarrow> type_layout option" where
  "range_layout kind bound =
     (let field_count = (case kind of Exclusive \<Rightarrow> 2 | Inclusive \<Rightarrow> 2 | From \<Rightarrow> 1 | To \<Rightarrow> 1 | ToInclusive \<Rightarrow> 1 | Full \<Rightarrow> 0)
      in case bound of
           None \<Rightarrow> if field_count = 0 then Some (mk_layout 0 1) else None
         | Some bound \<Rightarrow> if field_count = 0 then None else array_layout bound field_count)"

fun sequential_loop :: "nat \<Rightarrow> nat \<Rightarrow> type_layout list \<Rightarrow> (nat \<times> nat) option" where
  "sequential_loop sz max_align [] = Some (sz, max_align)"
| "sequential_loop sz max_align (field # fs) =
     do { sz \<leftarrow> align_to sz (lalign field);
          sz \<leftarrow> checked_add sz (lsize field);
          sequential_loop sz (max max_align (lalign field)) fs }"

definition sequential_layout :: "type_layout list \<Rightarrow> type_layout option" where
  "sequential_layout fs =
     do { (sz, max_align) \<leftarrow> sequential_loop 0 1 fs;
          sz \<leftarrow> align_to sz max_align;
          Some (mk_layout sz max_align) }"

definition vector_layout :: "primitive_ty \<Rightarrow> nat \<Rightarrow> target_data_layout \<Rightarrow> type_layout option" where
  "vector_layout element lanes target =
     (if \<not> is_vector_element element \<or> lanes = 0 then None
      else do { lane_bits \<leftarrow> (if element = Bool then Some 1 else checked_mul (lsize (primitive_layout element target)) 8);
                store_bits \<leftarrow> checked_mul lane_bits lanes;
                store_bits \<leftarrow> checked_add store_bits 7;
                let store_size = store_bits div 8;
                align \<leftarrow> checked_next_power_of_two store_size;
                sz \<leftarrow> align_to store_size align;
                Some (mk_layout sz align) })"

definition union_layout_from_fields :: "type_layout list \<Rightarrow> type_layout option" where
  "union_layout_from_fields fs =
     (let (max_size, max_align) = fold (\<lambda>f (s, a). (max s (lsize f), max a (lalign f))) fs (0, 1)
      in do { sz \<leftarrow> align_to max_size max_align; Some (mk_layout sz max_align) })"

text \<open>\<^verbatim>\<open>iter.max().unwrap_or(d)\<close>\<close>

definition max_or :: "nat \<Rightarrow> nat list \<Rightarrow> nat" where
  "max_or d xs = (if xs = [] then d else Max (set xs))"

definition tagged_union_layout_with_tag :: "type_layout \<Rightarrow> type_layout list \<Rightarrow> type_layout option" where
  "tagged_union_layout_with_tag tag payloads =
     (let payload_size = max_or 0 (map lsize payloads);
          payload_align = max_or 1 (map lalign payloads);
          align = max (lalign tag) payload_align
      in do { payload_offset \<leftarrow> align_to (lsize tag) payload_align;
              sz \<leftarrow> checked_add payload_offset payload_size;
              sz \<leftarrow> align_to sz align;
              Some (mk_layout sz align) })"

definition tagged_union_layout :: "type_layout list \<Rightarrow> type_layout option" where
  "tagged_union_layout payloads = tagged_union_layout_with_tag (mk_layout 1 1) payloads"


section \<open>Field placement\<close>

type_synonym def_id = nat

record pending_field_layout =
  pf_def_id :: def_id
  pf_source_index :: nat
  pf_layout :: type_layout

record pending_enum_field_layout =
  pe_def_id :: "def_id option"
  pe_layout :: type_layout

record field_layout =
  fl_def_id :: def_id
  fl_offset :: nat
  fl_layout :: type_layout

record enum_field_layout =
  ef_def_id :: "def_id option"
  ef_offset :: nat
  ef_layout :: type_layout

record struct_layout =
  sl_layout :: type_layout
  sl_fields :: "field_layout list"

fun place_enum_loop ::
  "nat \<Rightarrow> nat \<Rightarrow> enum_field_layout list \<Rightarrow> pending_enum_field_layout list \<Rightarrow> (nat \<times> nat \<times> enum_field_layout list) option" where
  "place_enum_loop offset max_align placed [] = Some (offset, max_align, placed)"
| "place_enum_loop offset max_align placed (field # fs) =
     do { offset \<leftarrow> align_to offset (lalign (pe_layout field));
          let placed = placed @ [\<lparr>ef_def_id = pe_def_id field, ef_offset = offset, ef_layout = pe_layout field\<rparr>];
          offset \<leftarrow> checked_add offset (lsize (pe_layout field));
          place_enum_loop offset (max max_align (lalign (pe_layout field))) placed fs }"

definition place_enum_fields :: "pending_enum_field_layout list \<Rightarrow> (type_layout \<times> enum_field_layout list) option" where
  "place_enum_fields fs =
     do { (offset, max_align, placed) \<leftarrow> place_enum_loop 0 1 [] fs;
          sz \<leftarrow> align_to offset max_align;
          Some (mk_layout sz max_align, placed) }"

fun place_struct_loop ::
  "nat \<Rightarrow> nat \<Rightarrow> field_layout list \<Rightarrow> pending_field_layout list \<Rightarrow> (nat \<times> nat \<times> field_layout list) option" where
  "place_struct_loop offset max_align placed [] = Some (offset, max_align, placed)"
| "place_struct_loop offset max_align placed (field # fs) =
     do { offset \<leftarrow> align_to offset (lalign (pf_layout field));
          let placed = placed @ [\<lparr>fl_def_id = pf_def_id field, fl_offset = offset, fl_layout = pf_layout field\<rparr>];
          offset \<leftarrow> checked_add offset (lsize (pf_layout field));
          place_struct_loop offset (max max_align (lalign (pf_layout field))) placed fs }"

definition place_struct_fields :: "pending_field_layout list \<Rightarrow> struct_layout option" where
  "place_struct_fields fs =
     do { (offset, max_align, placed) \<leftarrow> place_struct_loop 0 1 [] fs;
          sz \<leftarrow> align_to offset max_align;
          Some \<lparr>sl_layout = mk_layout sz max_align, sl_fields = placed\<rparr> }"

text \<open>
  The physical order of a Nia struct: descending alignment, then descending size, then source order.
\<close>

definition field_key :: "pending_field_layout \<Rightarrow> int \<times> int \<times> nat" where
  "field_key f = (- int (lalign (pf_layout f)), - int (lsize (pf_layout f)), pf_source_index f)"

definition sorted_field_layout :: "pending_field_layout list \<Rightarrow> struct_layout option" where
  "sorted_field_layout fs = place_struct_fields (sort_key field_key fs)"

definition nia_struct_layout :: "bool \<Rightarrow> pending_field_layout list \<Rightarrow> struct_layout option" where
  "nia_struct_layout is_tuple fs = (if is_tuple then place_struct_fields fs else sorted_field_layout fs)"

definition union_field_layout :: "(def_id \<times> type_layout) list \<Rightarrow> struct_layout option" where
  "union_field_layout fs =
     do { layout \<leftarrow> union_layout_from_fields (map snd fs);
          Some \<lparr>sl_layout = layout,
                sl_fields = map (\<lambda>(d, l). \<lparr>fl_def_id = d, fl_offset = 0, fl_layout = l\<rparr>) fs\<rparr> }"

record enum_variant_layout =
  ev_def_id :: def_id
  ev_payload :: type_layout
  ev_fields :: "enum_field_layout list"

record enum_layout =
  el_layout :: type_layout
  el_tag :: type_layout
  el_payload_offset :: "nat option"
  el_variants :: "enum_variant_layout list"

fun enum_variants :: "(def_id \<times> pending_enum_field_layout list) list \<Rightarrow> enum_variant_layout list option" where
  "enum_variants [] = Some []"
| "enum_variants ((d, pending) # vs) =
     do { (payload, fs) \<leftarrow> place_enum_fields pending;
          rest \<leftarrow> enum_variants vs;
          Some (\<lparr>ev_def_id = d, ev_payload = payload, ev_fields = fs\<rparr> # rest) }"

definition enum_layout_of :: "type_layout \<Rightarrow> (def_id \<times> pending_enum_field_layout list) list \<Rightarrow> enum_layout option" where
  "enum_layout_of tag vs =
     do { variants \<leftarrow> enum_variants vs;
          let has_payload = list_ex (\<lambda>v. ev_fields v \<noteq> []) variants;
          layout \<leftarrow> (if has_payload then tagged_union_layout_with_tag tag (map ev_payload variants) else Some tag);
          payload_offset \<leftarrow>
            (if has_payload
             then do { offset \<leftarrow> align_to (lsize tag) (max_or 1 (map (\<lambda>v. lalign (ev_payload v)) variants)); Some (Some offset) }
             else Some None);
          Some \<lparr>el_layout = layout, el_tag = tag, el_payload_offset = payload_offset, el_variants = variants\<rparr> }"

section \<open>Alignment\<close>

text \<open>The least multiple of \<open>a\<close> that is not below \<open>v\<close>.\<close>

definition round_up :: "nat \<Rightarrow> nat \<Rightarrow> nat" where
  "round_up v a = (if v mod a = 0 then v else v + (a - v mod a))"

lemma round_up_next: "0 < a \<Longrightarrow> v + (a - v mod a) = (v div a + 1) * (a :: nat)"
proof -
  assume "0 < a"
  then have "v mod a < a" by simp
  moreover have "v div a * a + v mod a = v" by (rule div_mult_mod_eq)
  ultimately show ?thesis unfolding add_mult_distrib by linarith
qed

lemma round_up_dvd [simp]: "0 < a \<Longrightarrow> a dvd round_up v a"
  by (simp add: round_up_def mod_eq_0_iff_dvd round_up_next del: add_diff_assoc)

lemma round_up_ge [simp]: "v \<le> round_up v a"
  by (simp add: round_up_def)

lemma round_up_least: "a dvd m \<Longrightarrow> v \<le> m \<Longrightarrow> round_up v a \<le> m"
proof (cases "v mod a = 0 \<or> a = 0")
  case False
  assume "a dvd m" "v \<le> m"
  then obtain k where k: "m = a * k" by blast
  have "v div a < k"
  proof (rule ccontr)
    assume "\<not> v div a < k"
    then have "a * k \<le> a * (v div a)" by simp
    also have "\<dots> < v" using False div_mult_mod_eq [of v a] by (metis add.commute less_add_same_cancel2 mult.commute not_gr_zero)
    finally show False using k \<open>v \<le> m\<close> by simp
  qed
  then have "a * (v div a + 1) \<le> m" using k by (simp del: mult_Suc_right)
  moreover have "v + (a - v mod a) = a * (v div a + 1)" using False round_up_next [of a v] by (simp add: mult.commute)
  ultimately show ?thesis using False by (simp add: round_up_def)
qed (auto simp: round_up_def)

lemma round_up_mono: "0 < a \<Longrightarrow> v \<le> v' \<Longrightarrow> round_up v a \<le> round_up v' a"
  by (rule round_up_least) (auto intro: order_trans)

lemma round_up_id [simp]: "a dvd v \<Longrightarrow> round_up v a = v"
  by (simp add: round_up_def)

lemma align_to_eq_Some: "align_to v a = Some r \<Longrightarrow> 0 < a \<and> r = round_up v a"
  by (auto simp: align_to_def round_up_def Let_def split: if_splits)

lemma align_to_Some: "0 < a \<Longrightarrow> fits_u64 (round_up v a) \<Longrightarrow> align_to v a = Some (round_up v a)"
  by (auto simp: align_to_def round_up_def Let_def)

lemma align_to_fits: "align_to v a = Some r \<Longrightarrow> fits_u64 v \<Longrightarrow> fits_u64 r"
  by (auto simp: align_to_def Let_def split: if_splits)


section \<open>Placement of a list of layouts\<close>

text \<open>
  The reference placement works on unbounded numbers: each layout goes to the next aligned offset. The
  loops of the source are this function with overflow checks and the records of their kind of field.
\<close>

fun offsets :: "nat \<Rightarrow> type_layout list \<Rightarrow> nat list" where
  "offsets off [] = []"
| "offsets off (l # ls) = (let off = round_up off (lalign l) in off # offsets (off + lsize l) ls)"

fun end_offset :: "nat \<Rightarrow> type_layout list \<Rightarrow> nat" where
  "end_offset off [] = off"
| "end_offset off (l # ls) = end_offset (round_up off (lalign l) + lsize l) ls"

definition max_align_of :: "type_layout list \<Rightarrow> nat" where
  "max_align_of ls = fold (\<lambda>l a. max a (lalign l)) ls 1"

definition ideal_layout :: "type_layout list \<Rightarrow> type_layout" where
  "ideal_layout ls = mk_layout (round_up (end_offset 0 ls) (max_align_of ls)) (max_align_of ls)"

abbreviation aligned_all :: "type_layout list \<Rightarrow> bool" where
  "aligned_all ls \<equiv> list_all (\<lambda>l. 0 < lalign l) ls"

lemma end_offset_ge: "off \<le> end_offset off ls"
  by (induction ls arbitrary: off) (auto intro: order_trans [OF round_up_ge order_trans [OF le_add1]])

lemma max_align_fold: "fold (\<lambda>l a. max a (lalign l)) ls a = Max (insert a (lalign ` set ls))"
proof (induction ls arbitrary: a)
  case (Cons l ls)
  have "insert (max a (lalign l)) (lalign ` set ls) \<noteq> {}" by simp
  have "Max (insert (max a (lalign l)) (lalign ` set ls)) = Max (insert a (insert (lalign l) (lalign ` set ls)))"
    by (cases "set ls = {}") (simp_all add: max.assoc)
  with Cons show ?case by simp
qed simp

lemma max_align_of_Max: "max_align_of ls = Max (insert 1 (lalign ` set ls))"
  unfolding max_align_of_def by (rule max_align_fold)

lemma max_align_of_ge: "l \<in> set ls \<Longrightarrow> lalign l \<le> max_align_of ls" "1 \<le> max_align_of ls"
  by (simp_all add: max_align_of_Max)

lemma max_align_of_mem: "max_align_of ls = 1 \<or> (\<exists>l \<in> set ls. max_align_of ls = lalign l)"
  using Max_in [of "insert 1 (lalign ` set ls)"] by (auto simp: max_align_of_Max)

lemma sequential_loop_spec:
  "sequential_loop off a ls =
     (if aligned_all ls \<and> fits_u64 (end_offset off ls)
      then Some (end_offset off ls, fold (\<lambda>l a. max a (lalign l)) ls a) else None)"
  if "fits_u64 off"
  using that
proof (induction ls arbitrary: off a)
  case (Cons l ls)
  let ?o = "round_up off (lalign l)"
  show ?case
  proof (cases "0 < lalign l \<and> fits_u64 (?o + lsize l)")
    case True
    then have "align_to off (lalign l) = Some ?o" using align_to_Some [of "lalign l" off] fits_u64_mono le_add1 by blast
    with True Cons.IH [of "?o + lsize l"] show ?thesis by (simp add: checked_u64_def)
  next
    case False
    have "\<not> fits_u64 (end_offset (?o + lsize l) ls)" if "\<not> fits_u64 (?o + lsize l)"
      using that end_offset_ge fits_u64_mono by blast
    moreover have "sequential_loop off a (l # ls) = None"
    proof (cases "align_to off (lalign l)")
      case (Some r)
      with False align_to_eq_Some [OF Some] show ?thesis by (simp add: checked_u64_def)
    qed simp
    ultimately show ?thesis using False by auto
  qed
qed simp

lemma place_struct_loop_seq:
  "place_struct_loop off a placed ps =
     map_option (\<lambda>(e, m). (e, m, placed @ map2 (\<lambda>p o'. \<lparr>fl_def_id = pf_def_id p, fl_offset = o', fl_layout = pf_layout p\<rparr>)
         ps (offsets off (map pf_layout ps))))
       (sequential_loop off a (map pf_layout ps))"
proof (induction ps arbitrary: off a placed)
  case (Cons p ps)
  then show ?case
    by (cases "align_to off (lalign (pf_layout p))")
      (auto simp: Let_def checked_u64_def dest!: align_to_eq_Some)
qed simp

lemma place_enum_loop_seq:
  "place_enum_loop off a placed ps =
     map_option (\<lambda>(e, m). (e, m, placed @ map2 (\<lambda>p o'. \<lparr>ef_def_id = pe_def_id p, ef_offset = o', ef_layout = pe_layout p\<rparr>)
         ps (offsets off (map pe_layout ps))))
       (sequential_loop off a (map pe_layout ps))"
proof (induction ps arbitrary: off a placed)
  case (Cons p ps)
  then show ?case
    by (cases "align_to off (lalign (pe_layout p))")
      (auto simp: Let_def checked_u64_def dest!: align_to_eq_Some)
qed simp

lemma fits_u64_0 [simp]: "fits_u64 0"
  by (simp add: fits_u64_def)

lemma sequential_layout_ideal:
  "sequential_layout ls =
     (if aligned_all ls \<and> fits_u64 (lsize (ideal_layout ls)) then Some (ideal_layout ls) else None)"
proof -
  let ?e = "end_offset 0 ls" and ?m = "max_align_of ls"
  have m: "0 < ?m" using max_align_of_ge(2) [of ls] by simp
  have loop: "sequential_loop 0 1 ls = (if aligned_all ls \<and> fits_u64 ?e then Some (?e, ?m) else None)"
    using sequential_loop_spec [of 0 1 ls] by (simp add: max_align_of_def)
  have e: "fits_u64 (round_up ?e ?m) \<Longrightarrow> fits_u64 ?e" using fits_u64_mono by simp
  show ?thesis
  proof (cases "fits_u64 (round_up ?e ?m)")
    case True
    with e loop align_to_Some [OF m] show ?thesis by (simp add: sequential_layout_def ideal_layout_def)
  next
    case False
    have "align_to ?e ?m = None" if "fits_u64 ?e"
    proof (cases "align_to ?e ?m")
      case (Some r)
      with False align_to_fits [OF Some that] align_to_eq_Some [OF Some] show ?thesis by simp
    qed simp
    with False loop show ?thesis by (auto simp: sequential_layout_def ideal_layout_def)
  qed
qed


lemma place_struct_fields_ideal:
  "place_struct_fields ps =
     (let ls = map pf_layout ps
      in if aligned_all ls \<and> fits_u64 (lsize (ideal_layout ls))
         then Some \<lparr>sl_layout = ideal_layout ls,
                sl_fields = map2 (\<lambda>p o'. \<lparr>fl_def_id = pf_def_id p, fl_offset = o', fl_layout = pf_layout p\<rparr>) ps (offsets 0 ls)\<rparr>
         else None)"
  using sequential_layout_ideal [of "map pf_layout ps"]
  by (cases "sequential_loop 0 1 (map pf_layout ps)")
    (auto simp: place_struct_fields_def place_struct_loop_seq sequential_layout_def Let_def bind_eq_Some_conv
      bind_eq_None_conv split: if_splits)

lemma place_enum_fields_ideal:
  "place_enum_fields ps =
     (let ls = map pe_layout ps
      in if aligned_all ls \<and> fits_u64 (lsize (ideal_layout ls))
         then Some (ideal_layout ls,
                map2 (\<lambda>p o'. \<lparr>ef_def_id = pe_def_id p, ef_offset = o', ef_layout = pe_layout p\<rparr>) ps (offsets 0 ls))
         else None)"
  using sequential_layout_ideal [of "map pe_layout ps"]
  by (cases "sequential_loop 0 1 (map pe_layout ps)")
    (auto simp: place_enum_fields_def place_enum_loop_seq sequential_layout_def Let_def bind_eq_Some_conv
      bind_eq_None_conv split: if_splits)


section \<open>What a placement guarantees\<close>

lemma length_offsets [simp]: "length (offsets off ls) = length ls"
  by (induction ls arbitrary: off) (simp_all add: Let_def)

lemma offsets_ge: "i < length ls \<Longrightarrow> off \<le> offsets off ls ! i"
proof (induction ls arbitrary: off i)
  case (Cons l ls)
  show ?case
  proof (cases i)
    case (Suc j)
    have "off \<le> round_up off (lalign l) + lsize l" using round_up_ge [of off "lalign l"] by linarith
    also have "\<dots> \<le> offsets (round_up off (lalign l) + lsize l) ls ! j" using Cons Suc by simp
    finally show ?thesis using Suc by (simp add: Let_def)
  qed (simp add: Let_def)
qed simp

lemma offsets_aligned: "aligned_all ls \<Longrightarrow> i < length ls \<Longrightarrow> lalign (ls ! i) dvd offsets off ls ! i"
proof (induction ls arbitrary: off i)
  case (Cons l ls)
  then show ?case by (cases i) (simp_all add: Let_def)
qed simp

lemma offsets_disjoint: "i < j \<Longrightarrow> j < length ls \<Longrightarrow> offsets off ls ! i + lsize (ls ! i) \<le> offsets off ls ! j"
proof (induction ls arbitrary: off i j)
  case (Cons l ls)
  obtain k where k: "j = Suc k" using Cons.prems(1) by (cases j) auto
  show ?case
  proof (cases i)
    case 0
    with Cons.prems k offsets_ge [of k ls "round_up off (lalign l) + lsize l"] show ?thesis by (simp add: Let_def)
  next
    case (Suc i')
    with Cons k show ?thesis by (simp add: Let_def)
  qed
qed simp

lemma offsets_end: "i < length ls \<Longrightarrow> offsets off ls ! i + lsize (ls ! i) \<le> end_offset off ls"
proof (induction ls arbitrary: off i)
  case (Cons l ls)
  then show ?case using end_offset_ge [of "round_up off (lalign l) + lsize l" ls] by (cases i) (simp_all add: Let_def)
qed simp

text \<open>
  The contract of a placement function: it computes the reference placement of the layouts of its
  fields, and fails exactly when an alignment is zero or the size does not fit. Struct fields and enum
  payload fields share it.
\<close>

locale field_placement =
  fixes place :: "'p list \<Rightarrow> 's option" and layout_of :: "'p \<Rightarrow> type_layout"
    and result_layout :: "'s \<Rightarrow> type_layout" and result_offsets :: "'s \<Rightarrow> nat list"
  assumes place_Some: "place ps = Some s \<Longrightarrow> aligned_all (map layout_of ps)
      \<and> result_layout s = ideal_layout (map layout_of ps) \<and> fits_u64 (lsize (result_layout s))
      \<and> result_offsets s = offsets 0 (map layout_of ps)"
    and place_None: "place ps = None \<longleftrightarrow>
      \<not> (aligned_all (map layout_of ps) \<and> fits_u64 (lsize (ideal_layout (map layout_of ps))))"
begin

lemma field_aligned: "place ps = Some s \<Longrightarrow> i < length ps \<Longrightarrow> lalign (layout_of (ps ! i)) dvd result_offsets s ! i"
  using place_Some [of ps s] offsets_aligned [of "map layout_of ps" i 0] by simp

lemma fields_disjoint:
  "place ps = Some s \<Longrightarrow> i < j \<Longrightarrow> j < length ps \<Longrightarrow>
     result_offsets s ! i + lsize (layout_of (ps ! i)) \<le> result_offsets s ! j"
  using place_Some [of ps s] offsets_disjoint [of i j "map layout_of ps" 0] by simp

lemma field_inside:
  assumes "place ps = Some s" "i < length ps"
  shows "result_offsets s ! i + lsize (layout_of (ps ! i)) \<le> lsize (result_layout s)"
proof -
  have "offsets 0 (map layout_of ps) ! i + lsize (layout_of (ps ! i)) \<le> end_offset 0 (map layout_of ps)"
    using offsets_end [of i "map layout_of ps" 0] assms(2) by simp
  also have "\<dots> \<le> lsize (ideal_layout (map layout_of ps))" by (simp add: ideal_layout_def)
  finally show ?thesis using place_Some [OF assms(1)] by simp
qed

lemma size_padded: "place ps = Some s \<Longrightarrow> lalign (result_layout s) dvd lsize (result_layout s)"
  using place_Some [of ps s] max_align_of_ge(2) [of "map layout_of ps"] by (simp add: ideal_layout_def)

lemma same_layout: "map_option result_layout (place ps) = sequential_layout (map layout_of ps)"
  using place_Some [of ps] place_None [of ps] by (cases "place ps") (auto simp: sequential_layout_ideal)

end

interpretation struct: field_placement place_struct_fields pf_layout sl_layout "\<lambda>s. map fl_offset (sl_fields s)"
proof
  fix ps s
  assume "place_struct_fields ps = Some s"
  then show "aligned_all (map pf_layout ps) \<and> sl_layout s = ideal_layout (map pf_layout ps)
      \<and> fits_u64 (lsize (sl_layout s)) \<and> map fl_offset (sl_fields s) = offsets 0 (map pf_layout ps)"
    by (auto simp: place_struct_fields_ideal Let_def comp_def case_prod_unfold map_snd_zip split: if_splits)
qed (simp add: place_struct_fields_ideal Let_def)

interpretation enum_payload: field_placement place_enum_fields pe_layout fst "\<lambda>s. map ef_offset (snd s)"
proof
  fix ps s
  assume "place_enum_fields ps = Some s"
  then show "aligned_all (map pe_layout ps) \<and> fst s = ideal_layout (map pe_layout ps)
      \<and> fits_u64 (lsize (fst s)) \<and> map ef_offset (snd s) = offsets 0 (map pe_layout ps)"
    by (auto simp: place_enum_fields_ideal Let_def comp_def case_prod_unfold map_snd_zip split: if_splits)
qed (simp add: place_enum_fields_ideal Let_def)


section \<open>Well-formed layouts\<close>

text \<open>
  A well-formed layout has a power of two as its alignment and a size that is a multiple of it; both fit
  64 bits. A target is well formed when its pointers and wide scalars have such layouts.
\<close>

definition ok_layout :: "type_layout \<Rightarrow> bool" where
  "ok_layout l \<longleftrightarrow> pow2 (lalign l) \<and> lalign l dvd lsize l \<and> fits_u64 (lsize l)"

definition ok_target :: "target_data_layout \<Rightarrow> bool" where
  "ok_target t \<longleftrightarrow> ok_layout (mk_layout (pointer_size t) (pointer_align t)) \<and> ok_layout (mk_layout 8 (wide_scalar_align t))"

lemma pow2_max_align: "list_all ok_layout ls \<Longrightarrow> pow2 (max_align_of ls)"
  using max_align_of_mem [of ls] by (auto simp: ok_layout_def list_all_iff)

lemma ok_aligned: "list_all ok_layout ls \<Longrightarrow> aligned_all ls"
  by (auto simp: list_all_iff ok_layout_def pow2_pos)

lemma ok_ideal: "list_all ok_layout ls \<Longrightarrow> fits_u64 (lsize (ideal_layout ls)) \<Longrightarrow> ok_layout (ideal_layout ls)"
  using pow2_max_align [of ls] by (auto simp: ok_layout_def ideal_layout_def pow2_pos)

lemma ok_align_to: "align_to v a = Some r \<Longrightarrow> pow2 a \<Longrightarrow> fits_u64 v \<Longrightarrow> ok_layout (mk_layout r a)"
  using align_to_eq_Some [of v a r] align_to_fits [of v a r] by (auto simp: ok_layout_def)

lemma ok_layout_small:
  "ok_layout (mk_layout 0 (Suc 0))" "ok_layout (mk_layout 1 1)" "ok_layout (mk_layout (Suc 0) (Suc 0))"
  "ok_layout (mk_layout 2 2)" "ok_layout (mk_layout 4 4)" "ok_layout (mk_layout 16 16)"
  using pow2_power [of 1] pow2_power [of 2] pow2_power [of 4] by (simp_all add: ok_layout_def fits_u64_def)

lemma ok_primitive: "ok_target t \<Longrightarrow> ok_layout (primitive_layout p t)"
  by (cases p) (simp_all add: ok_target_def primitive_layout_def ok_layout_small)

lemma ok_array: "ok_layout e \<Longrightarrow> array_layout e n = Some l \<Longrightarrow> ok_layout l"
  by (auto simp: array_layout_def ok_layout_def bind_eq_Some_conv split: if_splits)

lemma ok_range: "(\<And>b. bound = Some b \<Longrightarrow> ok_layout b) \<Longrightarrow> range_layout k bound = Some l \<Longrightarrow> ok_layout l"
  by (cases bound) (auto simp: range_layout_def Let_def ok_layout_small dest: ok_array split: if_splits)

lemma ok_fat_pointer: "ok_target t \<Longrightarrow> fat_pointer_layout t = Some l \<Longrightarrow> ok_layout l"
  by (auto simp: fat_pointer_layout_def ok_target_def ok_layout_def bind_eq_Some_conv split: if_splits)

lemma ok_sequential: "list_all ok_layout ls \<Longrightarrow> sequential_layout ls = Some l \<Longrightarrow> ok_layout l"
  by (auto simp: sequential_layout_ideal ok_ideal split: if_splits)

lemma ok_vector: "vector_layout e n t = Some l \<Longrightarrow> ok_layout l"
proof -
  assume "vector_layout e n t = Some l"
  then obtain s a r where s: "fits_u64 s" "checked_next_power_of_two (s div 8) = Some a"
    "align_to (s div 8) a = Some r" "l = mk_layout r a"
    by (auto simp: vector_layout_def Let_def bind_eq_Some_conv split: if_splits)
  from s(1) have "fits_u64 (s div 8)" by (rule fits_u64_mono) simp
  with ok_align_to [OF s(3)] checked_next_power_of_two_spec [OF s(2)] s(4) show ?thesis by simp
qed

lemma union_fold: "fold (\<lambda>f (s, a). (max s (lsize f), max a (lalign f))) ls (s0, a0)
    = (fold (\<lambda>f s. max s (lsize f)) ls s0, fold (\<lambda>f a. max a (lalign f)) ls a0)"
  by (induction ls arbitrary: s0 a0) simp_all

lemma fold_max_size:
  "fits_u64 s0 \<Longrightarrow> list_all (\<lambda>f. fits_u64 (lsize f)) ls \<Longrightarrow> fits_u64 (fold (\<lambda>f s. max s (lsize f)) ls s0)"
  "s0 \<le> fold (\<lambda>f s. max s (lsize f)) ls s0"
  "f \<in> set ls \<Longrightarrow> lsize f \<le> fold (\<lambda>f s. max s (lsize f)) ls s0"
proof (induction ls arbitrary: s0)
  case (Cons l ls)
  { case 1 then show ?case using Cons.IH(1) by (simp add: max_def) }
  { case 2 show ?case using Cons.IH(2) [of "max s0 (lsize l)"] by simp }
  { case 3 then show ?case using Cons.IH(2,3) [of "max s0 (lsize l)"] by auto }
qed simp_all

lemma ok_union: "list_all ok_layout ls \<Longrightarrow> union_layout_from_fields ls = Some l \<Longrightarrow> ok_layout l"
proof -
  assume ok: "list_all ok_layout ls" and u: "union_layout_from_fields ls = Some l"
  let ?s = "fold (\<lambda>f s. max s (lsize f)) ls 0"
  obtain r where "align_to ?s (max_align_of ls) = Some r" "l = mk_layout r (max_align_of ls)"
    using u by (auto simp: union_layout_from_fields_def union_fold max_align_of_def bind_eq_Some_conv)
  moreover have "fits_u64 ?s" using ok by (intro fold_max_size) (auto simp: list_all_iff ok_layout_def)
  ultimately show ?thesis using ok_align_to pow2_max_align [OF ok] by auto
qed

lemma max_or_mem: "max_or d xs = d \<and> xs = [] \<or> max_or d xs \<in> set xs"
  using Max_in [of "set xs"] by (cases xs) (auto simp: max_or_def)

lemma max_or_ge: "x \<in> set xs \<Longrightarrow> x \<le> max_or d xs"
  by (cases xs) (auto simp: max_or_def)

lemma pow2_max_or: "list_all ok_layout ls \<Longrightarrow> pow2 (max_or 1 (map lalign ls))"
  using max_or_mem [of 1 "map lalign ls"] by (auto simp: ok_layout_def list_all_iff simp del: One_nat_def)

lemma ok_tagged: "ok_layout tag \<Longrightarrow> list_all ok_layout ls \<Longrightarrow> tagged_union_layout_with_tag tag ls = Some l \<Longrightarrow> ok_layout l"
proof -
  assume ok: "ok_layout tag" "list_all ok_layout ls" and t: "tagged_union_layout_with_tag tag ls = Some l"
  then obtain v r where "fits_u64 v" "align_to v (max (lalign tag) (max_or 1 (map lalign ls))) = Some r"
    "l = mk_layout r (max (lalign tag) (max_or 1 (map lalign ls)))"
    by (auto simp: tagged_union_layout_with_tag_def Let_def bind_eq_Some_conv)
  moreover have "pow2 (max (lalign tag) (max_or 1 (map lalign ls)))"
    using ok(1) pow2_max_or [OF ok(2)] by (intro pow2_max) (simp_all add: ok_layout_def)
  ultimately show ?thesis using ok_align_to by simp
qed

lemma enum_variants_mem:
  "enum_variants vs = Some ws \<Longrightarrow> w \<in> set ws \<Longrightarrow>
     \<exists>ps. (ev_def_id w, ps) \<in> set vs \<and> place_enum_fields ps = Some (ev_payload w, ev_fields w)"
proof (induction vs arbitrary: ws rule: enum_variants.induct)
  case (2 d pending vs)
  from "2.prems"(1) obtain p f r where r: "place_enum_fields pending = Some (p, f)" "enum_variants vs = Some r"
    "ws = \<lparr>ev_def_id = d, ev_payload = p, ev_fields = f\<rparr> # r" by (auto simp: bind_eq_Some_conv)
  show ?case
  proof (cases "w \<in> set r")
    case True
    with "2.IH" [OF r(1) refl r(2)] show ?thesis by auto
  next
    case False
    with "2.prems"(2) r show ?thesis by (intro exI [of _ pending]) simp
  qed
qed simp

lemma ok_payloads:
  assumes "enum_variants vs = Some ws" "\<And>d ps. (d, ps) \<in> set vs \<Longrightarrow> list_all (\<lambda>p. ok_layout (pe_layout p)) ps"
  shows "list_all ok_layout (map ev_payload ws)"
proof -
  have "ok_layout (ev_payload w)" if w: "w \<in> set ws" for w
  proof -
    obtain ps where "(ev_def_id w, ps) \<in> set vs" and p: "place_enum_fields ps = Some (ev_payload w, ev_fields w)"
      using enum_variants_mem [OF assms(1) w] by blast
    with assms(2) have "list_all ok_layout (map pe_layout ps)" by (auto simp: list_all_iff)
    with enum_payload.place_Some [OF p] show ?thesis using ok_ideal [of "map pe_layout ps"] by auto
  qed
  then show ?thesis by (simp add: list_all_iff)
qed

lemma enum_field_placed:
  assumes "place_enum_fields ps = Some (l, fs)" "list_all (\<lambda>p. ok_layout (pe_layout p)) ps" "f \<in> set fs"
  shows "lalign (ef_layout f) dvd lalign l \<and> lalign (ef_layout f) dvd ef_offset f
    \<and> ef_offset f + lsize (ef_layout f) \<le> lsize l"
proof -
  let ?ls = "map pe_layout ps"
  have fs: "fs = map2 (\<lambda>p o'. \<lparr>ef_def_id = pe_def_id p, ef_offset = o', ef_layout = pe_layout p\<rparr>) ps (offsets 0 ?ls)"
    using assms(1) by (auto simp: place_enum_fields_ideal Let_def split: if_splits)
  then obtain i where i: "i < length ps" "f = fs ! i" using assms(3) by (auto simp: in_set_conv_nth)
  then have f: "ef_layout f = pe_layout (ps ! i)" "ef_offset f = map ef_offset fs ! i" by (simp_all add: fs)
  have ok: "list_all ok_layout ?ls" using assms(2) by (simp add: list_all_iff)
  have "lalign (pe_layout (ps ! i)) dvd max_align_of ?ls"
    using i(1) assms(2) pow2_max_align [OF ok] max_align_of_ge(1) [of "pe_layout (ps ! i)" ?ls]
    by (intro pow2_dvd) (auto simp: list_all_iff ok_layout_def)
  then have "lalign (pe_layout (ps ! i)) dvd lalign l"
    using enum_payload.place_Some [OF assms(1)] by (simp add: ideal_layout_def)
  with f enum_payload.field_aligned [OF assms(1) i(1)] enum_payload.field_inside [OF assms(1) i(1)] show ?thesis by simp
qed


section \<open>Padding\<close>

lemma end_offset_lower: "off + sum_list (map lsize ls) \<le> end_offset off ls"
proof (induction ls arbitrary: off)
  case (Cons l ls)
  have "off + lsize l + sum_list (map lsize ls) \<le> round_up off (lalign l) + lsize l + sum_list (map lsize ls)" by simp
  also have "\<dots> \<le> end_offset (round_up off (lalign l) + lsize l) ls" by (rule Cons.IH)
  finally show ?case by simp
qed simp

lemma end_offset_descending:
  assumes "list_all ok_layout ls" "sorted_wrt (\<lambda>x y. lalign y \<le> lalign x) ls" "\<And>l. l \<in> set ls \<Longrightarrow> lalign l dvd off"
  shows "end_offset off ls = off + sum_list (map lsize ls)"
  using assms
proof (induction ls arbitrary: off)
  case (Cons l ls)
  have "lalign l' dvd off + lsize l" if "l' \<in> set ls" for l'
  proof -
    have "ok_layout l" "ok_layout l'" using Cons.prems(1) that by (auto simp: list_all_iff)
    moreover have "lalign l' \<le> lalign l" using Cons.prems(2) that by simp
    ultimately have "lalign l' dvd lalign l" "lalign l dvd lsize l" by (auto simp: ok_layout_def intro: pow2_dvd)
    then have "lalign l' dvd lsize l" by (rule dvd_trans)
    moreover have "lalign l' dvd off" using Cons.prems(3) that by simp
    ultimately show ?thesis by simp
  qed
  with Cons.IH [of "off + lsize l"] Cons.prems show ?case by simp
qed simp

lemma sum_list_mset: "mset xs = mset ys \<Longrightarrow> sum_list (map f xs) = sum_list (map f ys)"
  for f :: "'x \<Rightarrow> nat"
  by (metis mset_map sum_mset_sum_list)

lemma sorted_fields_descending: "sorted_wrt (\<lambda>x y. lalign y \<le> lalign x) (map pf_layout (sort_key field_key ps))"
proof -
  have "sorted (map field_key (sort_key field_key ps))" by (rule sorted_sort_key)
  then have "sorted_wrt (\<lambda>x y. field_key x \<le> field_key y) (sort_key field_key ps)" by (simp add: sorted_map)
  then show ?thesis
    unfolding sorted_wrt_map by (rule sorted_wrt_mono_rel [rotated]) (auto simp: field_key_def less_eq_prod_def)
qed


section \<open>Properties of layouts\<close>

text \<open>
  C24. Placed struct fields are sound: every field starts at a multiple of its alignment, no two fields
  overlap, all fields lie inside the struct, the definitions keep their order, the size is padded to
  the alignment of the struct, and that alignment is a multiple of every field's when alignments are
  powers of two, so an aligned struct has aligned fields.
\<close>

theorem place_struct_fields_sound:
  assumes "place_struct_fields ps = Some s" "i < length ps" "list_all (\<lambda>p. pow2 (lalign (pf_layout p))) ps"
  shows "length (sl_fields s) = length ps \<and> map fl_def_id (sl_fields s) = map pf_def_id ps
    \<and> map fl_layout (sl_fields s) = map pf_layout ps
    \<and> lalign (pf_layout (ps ! i)) dvd fl_offset (sl_fields s ! i)
    \<and> fl_offset (sl_fields s ! i) + lsize (pf_layout (ps ! i)) \<le> lsize (sl_layout s)
    \<and> (\<forall>j. i < j \<and> j < length ps \<longrightarrow>
         fl_offset (sl_fields s ! i) + lsize (pf_layout (ps ! i)) \<le> fl_offset (sl_fields s ! j))
    \<and> lalign (pf_layout (ps ! i)) dvd lalign (sl_layout s) \<and> lalign (sl_layout s) dvd lsize (sl_layout s)
    \<and> fits_u64 (lsize (sl_layout s))"
proof -
  let ?ls = "map pf_layout ps"
  note spec = struct.place_Some [OF assms(1)]
  have f: "sl_fields s = map2 (\<lambda>p o'. \<lparr>fl_def_id = pf_def_id p, fl_offset = o', fl_layout = pf_layout p\<rparr>) ps (offsets 0 ?ls)"
    using assms(1) by (auto simp: place_struct_fields_ideal Let_def split: if_splits)
  have len: "length (sl_fields s) = length ps" by (simp add: f)
  have "pow2 (max_align_of ?ls)" using max_align_of_mem [of ?ls] assms(3) by (auto simp: list_all_iff)
  then have "lalign (pf_layout (ps ! i)) dvd max_align_of ?ls"
    using assms(2,3) max_align_of_ge(1) [of "pf_layout (ps ! i)" ?ls] by (intro pow2_dvd) (auto simp: list_all_iff)
  then have "lalign (pf_layout (ps ! i)) dvd lalign (sl_layout s)" using spec by (simp add: ideal_layout_def)
  moreover have "map fl_def_id (sl_fields s) = map pf_def_id ps" "map fl_layout (sl_fields s) = map pf_layout ps"
    by (simp_all add: f list_eq_iff_nth_eq)
  moreover have off: "fl_offset (sl_fields s ! k) = map fl_offset (sl_fields s) ! k" if "k < length ps" for k
    using that len by simp
  moreover have "fl_offset (sl_fields s ! i) + lsize (pf_layout (ps ! i)) \<le> fl_offset (sl_fields s ! j)"
    if "i < j \<and> j < length ps" for j
    using struct.fields_disjoint [OF assms(1), of i j] that off [of i] off [of j] by simp
  ultimately show ?thesis
    using spec struct.field_aligned [OF assms(1,2)] struct.field_inside [OF assms(1,2)] struct.size_padded [OF assms(1)]
      assms(2) len by auto
qed

text \<open>The fields of a struct with a \<^verbatim>\<open>u8\<close>, a \<^verbatim>\<open>u32\<close> and a \<^verbatim>\<open>u16\<close>, in source order.\<close>

definition small_fields :: "pending_field_layout list" where
  "small_fields = [\<lparr>pf_def_id = 1, pf_source_index = 0, pf_layout = mk_layout 1 1\<rparr>,
     \<lparr>pf_def_id = 2, pf_source_index = 1, pf_layout = mk_layout 4 4\<rparr>,
     \<lparr>pf_def_id = 3, pf_source_index = 2, pf_layout = mk_layout 2 2\<rparr>]"

lemma small_fields_ok: "list_all (\<lambda>p. ok_layout (pf_layout p)) small_fields"
  by (simp add: small_fields_def ok_layout_small [unfolded One_nat_def])

lemma small_fields_place: "\<exists>s. place_struct_fields small_fields = Some s \<and> lsize (sl_layout s) = 12
    \<and> map fl_offset (sl_fields s) = [0, 4, 8]"
  by (simp add: place_struct_fields_ideal small_fields_def ideal_layout_def max_align_of_def round_up_def fits_u64_def Let_def)

theorem place_struct_fields_sound_witness:
  "\<exists>s. place_struct_fields small_fields = Some s \<and> fl_offset (sl_fields s ! 0) + 1 \<le> fl_offset (sl_fields s ! 1)"
proof -
  obtain s where s: "place_struct_fields small_fields = Some s" using small_fields_place by blast
  have "list_all (\<lambda>p. pow2 (lalign (pf_layout p))) small_fields"
    using small_fields_ok by (auto simp: list_all_iff ok_layout_def)
  from place_struct_fields_sound [OF s _ this, of 0] s show ?thesis by (auto simp: small_fields_def)
qed

text \<open>
  C25. The physical order of a Nia struct is optimal: on well-formed field layouts, if any order of the
  fields can be placed, so can the order chosen by descending alignment and size, and its struct is no
  larger and has the same alignment; it wastes nothing but the final padding.
\<close>

theorem sorted_field_layout_optimal:
  assumes "list_all (\<lambda>p. ok_layout (pf_layout p)) ps" "mset qs = mset ps" "place_struct_fields qs = Some t"
  shows "\<exists>s. sorted_field_layout ps = Some s \<and> lsize (sl_layout s) \<le> lsize (sl_layout t)
    \<and> lalign (sl_layout s) = lalign (sl_layout t)
    \<and> lsize (sl_layout s) = round_up (sum_list (map (\<lambda>p. lsize (pf_layout p)) ps)) (lalign (sl_layout s))"
proof -
  let ?rs = "sort_key field_key ps"
  let ?l = "map pf_layout ?rs" and ?q = "map pf_layout qs"
  have ms: "mset ?rs = mset ps" by simp
  have ok: "list_all ok_layout ?l" using assms(1) by (auto simp: list_all_iff)
  have sets: "set ?l = set ?q" using assms(2) by (metis mset_eq_setD set_map set_sort)
  then have al: "max_align_of ?l = max_align_of ?q" by (simp add: max_align_of_Max)
  have m: "0 < max_align_of ?q" using max_align_of_ge(2) [of ?q] by simp
  have sum: "sum_list (map lsize ?l) = sum_list (map (\<lambda>p. lsize (pf_layout p)) ps)"
    "sum_list (map lsize ?q) = sum_list (map (\<lambda>p. lsize (pf_layout p)) ps)"
    using sum_list_mset [OF ms] sum_list_mset [OF assms(2)] by (simp_all add: comp_def)
  have "end_offset 0 ?l = sum_list (map (\<lambda>p. lsize (pf_layout p)) ps)"
    unfolding sum(1) [symmetric] using end_offset_descending [OF ok sorted_fields_descending, of 0] by simp
  then have sz: "lsize (ideal_layout ?l) = round_up (sum_list (map (\<lambda>p. lsize (pf_layout p)) ps)) (max_align_of ?q)"
    by (simp add: ideal_layout_def al)
  note spec = struct.place_Some [OF assms(3)]
  have "sum_list (map (\<lambda>p. lsize (pf_layout p)) ps) \<le> end_offset 0 ?q" using end_offset_lower [of 0 ?q] sum by simp
  then have le: "lsize (ideal_layout ?l) \<le> lsize (ideal_layout ?q)"
    unfolding sz by (simp add: ideal_layout_def round_up_mono [OF m])
  have "fits_u64 (lsize (ideal_layout ?q))" using spec by auto
  then have "fits_u64 (lsize (ideal_layout ?l))" using le by (rule fits_u64_mono)
  then obtain s where s: "sorted_field_layout ps = Some s"
    using struct.place_None [of ?rs] ok_aligned [OF ok] by (auto simp: sorted_field_layout_def)
  then have "sl_layout s = ideal_layout ?l" using struct.place_Some [of ?rs s] by (simp add: sorted_field_layout_def)
  with s le sz spec al show ?thesis by (simp add: ideal_layout_def)
qed

theorem sorted_field_layout_optimal_witness:
  "\<exists>s. sorted_field_layout small_fields = Some s \<and> lsize (sl_layout s) \<le> 12"
proof -
  obtain t where "place_struct_fields small_fields = Some t" "lsize (sl_layout t) = 12" using small_fields_place by blast
  with sorted_field_layout_optimal [OF small_fields_ok refl] show ?thesis by fastforce
qed

text \<open>
  C26. Every layout the compiler computes is well formed: from well-formed component layouts and a
  well-formed target, each rule (primitives, fat pointers, arrays, ranges, tuples, vectors, unions,
  tagged unions, structs in source or sorted order) yields a power-of-two alignment that divides the
  size, and a size that fits 64 bits.
\<close>

theorem layouts_well_formed:
  assumes "ok_target t" "ok_layout e" "list_all ok_layout ls" "list_all (\<lambda>p. ok_layout (pf_layout p)) ps"
  shows "ok_layout (primitive_layout p t)
    \<and> (fat_pointer_layout t = Some l \<longrightarrow> ok_layout l)
    \<and> (array_layout e n = Some l \<longrightarrow> ok_layout l)
    \<and> (range_layout k (Some e) = Some l \<or> range_layout k None = Some l \<longrightarrow> ok_layout l)
    \<and> (sequential_layout ls = Some l \<longrightarrow> ok_layout l)
    \<and> (vector_layout p n t = Some l \<longrightarrow> ok_layout l)
    \<and> (union_layout_from_fields ls = Some l \<longrightarrow> ok_layout l)
    \<and> (tagged_union_layout_with_tag e ls = Some l \<longrightarrow> ok_layout l)
    \<and> (tagged_union_layout ls = Some l \<longrightarrow> ok_layout l)
    \<and> (nia_struct_layout is_tuple ps = Some s \<longrightarrow> ok_layout (sl_layout s))"
proof -
  have st: "ok_layout (sl_layout s)" if "place_struct_fields qs = Some s" "list_all ok_layout (map pf_layout qs)" for qs s
    using struct.place_Some [OF that(1)] ok_ideal [OF that(2)] by auto
  have "list_all ok_layout (map pf_layout ps)" "list_all ok_layout (map pf_layout (sort_key field_key ps))"
    using assms(4) by (auto simp: list_all_iff)
  then have "nia_struct_layout is_tuple ps = Some s \<longrightarrow> ok_layout (sl_layout s)"
    using st by (auto simp: nia_struct_layout_def sorted_field_layout_def split: if_splits)
  moreover have "range_layout k (Some e) = Some l \<or> range_layout k None = Some l \<longrightarrow> ok_layout l"
    using ok_range [of "Some e" k l] ok_range [of None k l] assms(2) by auto
  ultimately show ?thesis
    using ok_primitive [OF assms(1)] ok_fat_pointer [OF assms(1)] ok_array [OF assms(2)] ok_sequential [OF assms(3)]
      ok_vector [of p n t l] ok_union [OF assms(3)] ok_tagged [OF assms(2,3)] ok_tagged [OF ok_layout_small(2) assms(3)]
    by (simp add: tagged_union_layout_def)
qed

theorem layouts_well_formed_witness:
  "ok_layout (primitive_layout Usize LP64)
   \<and> array_layout (mk_layout 4 4) 3 = Some (mk_layout 12 4) \<and> ok_layout (mk_layout 12 4)"
proof -
  have "ok_target LP64" using pow2_power [of 3] by (simp add: ok_target_def LP64_def ok_layout_def fits_u64_def)
  moreover have "list_all ok_layout [mk_layout 1 1, mk_layout 4 4]" using ok_layout_small by simp
  moreover have "array_layout (mk_layout 4 4) 3 = Some (mk_layout 12 4)"
    by (simp add: array_layout_def checked_u64_def fits_u64_def)
  ultimately show ?thesis
    using layouts_well_formed [of LP64 "mk_layout 4 4" "[mk_layout 1 1, mk_layout 4 4]" small_fields Usize "mk_layout 12 4" 3]
      ok_layout_small(1) ok_layout_small small_fields_ok by simp
qed

text \<open>
  C28. The three placement routines agree: the layout of a struct, of an enum payload and of an anonymous
  product is the same function of the field layouts, and overflow is reported exactly when the size of
  the unbounded placement does not fit 64 bits (or an alignment is zero), never earlier.
\<close>

theorem placements_agree:
  "map_option sl_layout (place_struct_fields ps) = sequential_layout (map pf_layout ps)
   \<and> map_option fst (place_enum_fields qs) = sequential_layout (map pe_layout qs)
   \<and> (sequential_layout ls = None \<longleftrightarrow> \<not> (aligned_all ls \<and> fits_u64 (lsize (ideal_layout ls))))"
  using struct.same_layout [of ps] enum_payload.same_layout [of qs] by (simp add: sequential_layout_ideal)

text \<open>
  C27. An enum with payloads is sound: the payload starts after the tag at an offset that suits every
  variant, and every payload field of every variant is aligned there and lies inside the enum.
\<close>

theorem enum_layout_sound:
  assumes "ok_layout tag" "list_all (\<lambda>(d, ps). list_all (\<lambda>p. ok_layout (pe_layout p)) ps) vs"
    and "enum_layout_of tag vs = Some e" "el_payload_offset e = Some off" "v \<in> set (el_variants e)"
  shows "lsize tag \<le> off \<and> lalign (ev_payload v) dvd off
    \<and> off + lsize (ev_payload v) \<le> lsize (el_layout e) \<and> ok_layout (el_layout e)
    \<and> (\<forall>f \<in> set (ev_fields v). lalign (ef_layout f) dvd off + ef_offset f
         \<and> off + ef_offset f + lsize (ef_layout f) \<le> lsize (el_layout e))"
proof -
  have ok: "list_all (\<lambda>p. ok_layout (pe_layout p)) ps" if "(d, ps) \<in> set vs" for d ps
    using assms(2) that by (auto simp: list_all_iff)
  obtain ws l where ws: "enum_variants vs = Some ws" "el_variants e = ws" "el_layout e = l"
    and l: "tagged_union_layout_with_tag tag (map ev_payload ws) = Some l"
    and off: "align_to (lsize tag) (max_or 1 (map (\<lambda>v. lalign (ev_payload v)) ws)) = Some off"
    using assms(3,4) by (auto simp: enum_layout_of_def Let_def bind_eq_Some_conv split: if_splits)
  let ?a = "max_or 1 (map lalign (map ev_payload ws))"
  have okp: "list_all ok_layout (map ev_payload ws)" using ok_payloads [OF ws(1) ok] .
  have "align_to (lsize tag) ?a = Some off" using off by (simp add: comp_def)
  note o = align_to_eq_Some [OF this]
  have v: "v \<in> set ws" using assms(5) ws(2) by simp
  have "lalign (ev_payload v) \<le> ?a" using v by (intro max_or_ge) auto
  then have d: "lalign (ev_payload v) dvd ?a"
    using okp v pow2_max_or [OF okp] by (intro pow2_dvd) (auto simp: list_all_iff ok_layout_def)
  then have al: "lalign (ev_payload v) dvd off" using o by (auto intro: dvd_trans)
  obtain r where "l = mk_layout r (max (lalign tag) ?a)"
    "align_to (off + max_or 0 (map lsize (map ev_payload ws))) (max (lalign tag) ?a) = Some r"
    using l o \<open>align_to (lsize tag) ?a = Some off\<close>
    by (auto simp: tagged_union_layout_with_tag_def Let_def bind_eq_Some_conv simp del: map_map)
  then have "off + max_or 0 (map lsize (map ev_payload ws)) \<le> lsize l" using align_to_eq_Some by fastforce
  moreover have "lsize (ev_payload v) \<le> max_or 0 (map lsize (map ev_payload ws))" using v by (intro max_or_ge) auto
  ultimately have inside: "off + lsize (ev_payload v) \<le> lsize l" by linarith
  obtain ps where ps: "(ev_def_id v, ps) \<in> set vs" "place_enum_fields ps = Some (ev_payload v, ev_fields v)"
    using enum_variants_mem [OF ws(1) v] by blast
  have fields: "lalign (ef_layout f) dvd off + ef_offset f \<and> off + ef_offset f + lsize (ef_layout f) \<le> lsize l"
    if "f \<in> set (ev_fields v)" for f
    using enum_field_placed [OF ps(2) ok [OF ps(1)] that] al inside by (auto intro: dvd_trans)
  have "ok_layout l" using ok_tagged [OF assms(1) okp l] .
  with o al inside fields ws(3) show ?thesis by simp
qed

text \<open>An enum with a one-byte tag, a unit variant and a variant holding a \<^verbatim>\<open>u8\<close> and a \<^verbatim>\<open>u32\<close>.\<close>

definition small_enum :: "(def_id \<times> pending_enum_field_layout list) list" where
  "small_enum = [(1, []), (2, [\<lparr>pe_def_id = None, pe_layout = mk_layout 1 1\<rparr>, \<lparr>pe_def_id = None, pe_layout = mk_layout 4 4\<rparr>])]"

lemma small_enum_layout: "\<exists>e v. enum_layout_of (mk_layout 1 1) small_enum = Some e \<and> el_payload_offset e = Some 4
    \<and> lsize (el_layout e) = 12 \<and> v \<in> set (el_variants e) \<and> lsize (ev_payload v) = 8"
  by (simp add: enum_layout_of_def small_enum_def place_enum_fields_ideal ideal_layout_def max_align_of_def round_up_def
      fits_u64_def Let_def tagged_union_layout_with_tag_def align_to_def max_or_def checked_u64_def conj_disj_distribR ex_disj_distrib)

theorem enum_layout_sound_witness:
  "\<exists>e v off. enum_layout_of (mk_layout 1 1) small_enum = Some e \<and> el_payload_offset e = Some off
    \<and> v \<in> set (el_variants e) \<and> off + lsize (ev_payload v) \<le> lsize (el_layout e)"
proof -
  obtain e v where e: "enum_layout_of (mk_layout 1 1) small_enum = Some e" "el_payload_offset e = Some 4"
    "v \<in> set (el_variants e)" using small_enum_layout by blast
  have "list_all (\<lambda>(d, ps). list_all (\<lambda>p. ok_layout (pe_layout p)) ps) small_enum"
    using ok_layout_small by (simp add: small_enum_def)
  from enum_layout_sound [OF ok_layout_small(2) this e] e show ?thesis by blast
qed

end
