(* ===== verification/Nia_Query_Graph.thy ===== *)
theory Nia_Query_Graph
  imports Nia_Prelude "HOL-Library.AList"
begin

text \<open>
  The dependency graph of the query engine (\<^verbatim>\<open>nia-query/src/dependency.rs\<close>): forward and reverse
  edges kept in lockstep, replaced when a query is recomputed and followed backwards by an
  invalidation. Hash maps are association lists and hash sets are duplicate-free lists; the order of
  such a list stands for the iteration order of the table, which no statement depends on.
\<close>

section \<open>Node identities\<close>

datatype query_node_id = Node (db_id: nat) (index: nat)

text \<open>The key \<^verbatim>\<open>(node_id.db_id.0, node_id.index)\<close> by which nodes are sorted.\<close>

instantiation query_node_id :: linorder
begin

definition less_eq_query_node_id :: "query_node_id \<Rightarrow> query_node_id \<Rightarrow> bool" where
  "a \<le> b \<longleftrightarrow> db_id a < db_id b \<or> db_id a = db_id b \<and> index a \<le> index b"

definition less_query_node_id :: "query_node_id \<Rightarrow> query_node_id \<Rightarrow> bool" where
  "(a :: query_node_id) < b \<longleftrightarrow> a \<le> b \<and> \<not> b \<le> a"

instance
proof
  fix a b c :: query_node_id
  show "a < b \<longleftrightarrow> a \<le> b \<and> \<not> b \<le> a" by (simp add: less_query_node_id_def)
  show "a \<le> a" by (simp add: less_eq_query_node_id_def)
  show "a \<le> b \<Longrightarrow> b \<le> c \<Longrightarrow> a \<le> c" unfolding less_eq_query_node_id_def by linarith
  show "a \<le> b \<or> b \<le> a" unfolding less_eq_query_node_id_def by linarith
  show "a \<le> b \<Longrightarrow> b \<le> a \<Longrightarrow> a = b"
    by (rule query_node_id.expand) (unfold less_eq_query_node_id_def, linarith)
qed

end


section \<open>Hash maps and hash sets\<close>

definition set_insert :: "'a \<Rightarrow> 'a list \<Rightarrow> 'a list" where
  "set_insert x xs = (if x \<in> set xs then xs else xs @ [x])"

abbreviation or_empty :: "'a list option \<Rightarrow> 'a list" where
  "or_empty s \<equiv> case s of None \<Rightarrow> [] | Some xs \<Rightarrow> xs"

lemma set_set_insert [simp]: "set (set_insert x xs) = insert x (set xs)"
  by (auto simp: set_insert_def)

lemma distinct_set_insert [simp]: "distinct xs \<Longrightarrow> distinct (set_insert x xs)"
  by (simp add: set_insert_def)

lemma set_insert_not_Nil [simp]: "set_insert x xs \<noteq> []"
  by (auto simp: set_insert_def)

type_synonym 'n adjacency = "('n \<times> 'n list) list"

text \<open>\<^verbatim>\<open>map.entry(key).or_default().insert(value)\<close>\<close>

definition entry_insert :: "'n \<Rightarrow> 'n \<Rightarrow> 'n adjacency \<Rightarrow> 'n adjacency" where
  "entry_insert key value m = AList.update key (set_insert value (or_empty (map_of m key))) m"

text \<open>
  \<^verbatim>\<open>if let Some(s) = map.get_mut(&key) { s.remove(&value); if s.is_empty() { map.remove(&key); } }\<close>
\<close>

definition entry_remove :: "'n \<Rightarrow> 'n \<Rightarrow> 'n adjacency \<Rightarrow> 'n adjacency" where
  "entry_remove key value m =
     (case map_of m key of None \<Rightarrow> m
      | Some s \<Rightarrow> let s = removeAll value s in if s = [] then AList.delete key m else AList.update key s m)"

text \<open>The pairs an adjacency table holds, and its shape: no key twice, no empty and no repeating set.\<close>

definition pairs :: "'n adjacency \<Rightarrow> ('n \<times> 'n) set" where
  "pairs m = {(a, b). b \<in> set (or_empty (map_of m a))}"

definition tidy :: "'n adjacency \<Rightarrow> bool" where
  "tidy m \<longleftrightarrow> distinct (map fst m) \<and> (\<forall>s \<in> ran (map_of m). s \<noteq> [] \<and> distinct s)"

named_theorems table \<open>effect of the table operations on the pairs and on tidiness\<close>

lemma pairs_iff: "(a, b) \<in> pairs m \<longleftrightarrow> (\<exists>s. map_of m a = Some s \<and> b \<in> set s)"
  by (cases "map_of m a") (auto simp: pairs_def)

lemma tidy_lookup:
  "tidy m \<longleftrightarrow> distinct (map fst m) \<and> (\<forall>k s. map_of m k = Some s \<longrightarrow> s \<noteq> [] \<and> distinct s)"
  unfolding tidy_def ran_def by blast

lemma tidy_Nil [simp]: "tidy []" "pairs [] = {}"
  by (simp_all add: tidy_def pairs_def)

lemma tidy_distinct: "tidy m \<Longrightarrow> map_of m k = Some s \<Longrightarrow> distinct s"
  by (simp add: tidy_lookup)

lemma tidy_update [table]: "tidy m \<Longrightarrow> distinct s \<Longrightarrow> s \<noteq> [] \<Longrightarrow> tidy (AList.update k s m)"
  unfolding tidy_lookup update_conv' by (simp add: distinct_update)

lemma tidy_delete [table]: "tidy m \<Longrightarrow> tidy (AList.delete k m)"
  unfolding tidy_lookup delete_conv' by (simp add: distinct_delete)

lemma pairs_update [table]: "pairs (AList.update k s m) = pairs m - {k} \<times> UNIV \<union> {k} \<times> set s"
  by (auto simp: pairs_iff update_conv' split: if_splits)

lemma pairs_delete [table]: "pairs (AList.delete k m) = pairs m - {k} \<times> UNIV"
  by (auto simp: pairs_iff delete_conv' split: if_splits)

lemma set_lookup: "set (or_empty (map_of m k)) = {b. (k, b) \<in> pairs m}"
  by (simp add: pairs_def)

lemma pairs_entry_insert [table]: "pairs (entry_insert k v m) = insert (k, v) (pairs m)"
  unfolding entry_insert_def pairs_update set_set_insert set_lookup by auto

lemma tidy_or_empty: "tidy m \<Longrightarrow> distinct (or_empty (map_of m k))"
  using tidy_distinct [of m k] by (cases "map_of m k") simp_all

lemma tidy_entry_insert [table]: "tidy m \<Longrightarrow> tidy (entry_insert k v m)"
  unfolding entry_insert_def by (intro tidy_update distinct_set_insert tidy_or_empty set_insert_not_Nil)

lemma pairs_entry_remove [table]: "pairs (entry_remove k v m) = pairs m - {(k, v)}"
proof (cases "map_of m k")
  case None
  then have "{b. (k, b) \<in> pairs m} = {}" using set_lookup [of m k] by simp
  with None show ?thesis by (auto simp: entry_remove_def)
next
  case (Some s)
  then have "set (removeAll v s) = {b. (k, b) \<in> pairs m} - {v}" using set_lookup [of m k] by simp
  moreover have "pairs (entry_remove k v m) = pairs m - {k} \<times> UNIV \<union> {k} \<times> set (removeAll v s)"
    using Some by (cases "removeAll v s = []") (simp_all add: entry_remove_def pairs_update pairs_delete del: set_removeAll)
  ultimately show ?thesis by auto
qed

lemma tidy_entry_remove [table]:
  assumes "tidy m"
  shows "tidy (entry_remove k v m)"
proof (cases "map_of m k")
  case None
  with assms show ?thesis by (simp add: entry_remove_def)
next
  case (Some s)
  have "distinct (removeAll v s)" using tidy_distinct [OF assms Some] by (rule distinct_removeAll)
  with Some tidy_update [OF assms] tidy_delete [OF assms] show ?thesis
    by (cases "removeAll v s = []") (simp_all add: entry_remove_def)
qed

lemma pairs_fold_remove [table]:
  "pairs (fold (\<lambda>t. entry_remove t v) ts m) = pairs m - set ts \<times> {v}"
  by (induction ts arbitrary: m) (auto simp: pairs_entry_remove)

lemma tidy_fold_remove [table]: "tidy m \<Longrightarrow> tidy (fold (\<lambda>t. entry_remove t v) ts m)"
  by (induction ts arbitrary: m) (auto simp: tidy_entry_remove)

lemma pairs_fold_insert [table]:
  "pairs (fold (\<lambda>t. entry_insert t v) ts m) = pairs m \<union> set ts \<times> {v}"
  by (induction ts arbitrary: m) (auto simp: pairs_entry_insert)

lemma tidy_fold_insert [table]: "tidy m \<Longrightarrow> tidy (fold (\<lambda>t. entry_insert t v) ts m)"
  by (induction ts arbitrary: m) (auto simp: tidy_entry_insert)


section \<open>The graph and its operations\<close>

datatype query_validation_failure_reason = Unfingerprinted | Changed

record 'n query_dependency_graph =
  forward :: "'n adjacency"
  reverse :: "'n adjacency"
  validation_failures :: "(('n \<times> 'n \<times> query_validation_failure_reason) \<times> nat) list"

definition empty_graph :: "'n query_dependency_graph" where
  "empty_graph = \<lparr>forward = [], reverse = [], validation_failures = []\<rparr>"

definition record_validation_failure ::
  "'n \<Rightarrow> 'n \<Rightarrow> query_validation_failure_reason \<Rightarrow> 'n query_dependency_graph \<Rightarrow> 'n query_dependency_graph" where
  "record_validation_failure query dependency reason g =
     g\<lparr>validation_failures :=
        AList.update (query, dependency, reason)
          ((case map_of (validation_failures g) (query, dependency, reason) of None \<Rightarrow> 0 | Some n \<Rightarrow> n) + 1)
          (validation_failures g)\<rparr>"

definition remove_dependencies_from :: "'n \<Rightarrow> 'n query_dependency_graph \<Rightarrow> 'n query_dependency_graph" where
  "remove_dependencies_from from g =
     (case map_of (forward g) from of None \<Rightarrow> g
      | Some targets \<Rightarrow>
          g\<lparr>forward := AList.delete from (forward g),
            reverse := fold (\<lambda>target. entry_remove target from) targets (reverse g)\<rparr>)"

definition replace_dependencies_from :: "'n \<Rightarrow> 'n list \<Rightarrow> 'n query_dependency_graph \<Rightarrow> 'n query_dependency_graph" where
  "replace_dependencies_from from targets g =
     (let g = remove_dependencies_from from g
      in if targets = [] then g
         else g\<lparr>reverse := fold (\<lambda>target. entry_insert target from) targets (reverse g),
                forward := AList.update from targets (forward g)\<rparr>)"

definition remove_node :: "'n \<Rightarrow> 'n query_dependency_graph \<Rightarrow> 'n query_dependency_graph" where
  "remove_node node g =
     (let g = remove_dependencies_from node g;
          g = (case map_of (reverse g) node of None \<Rightarrow> g
               | Some dependents \<Rightarrow>
                   g\<lparr>reverse := AList.delete node (reverse g),
                     forward := fold (\<lambda>dependent. entry_remove dependent node) dependents (forward g)\<rparr>)
      in g\<lparr>validation_failures :=
            filter (\<lambda>((query, dependency, _), _). query \<noteq> node \<and> dependency \<noteq> node) (validation_failures g)\<rparr>)"

text \<open>
  The traversal of an invalidation. \<open>queue\<close> is the worklist, popped at its end; \<open>invalidated\<close> holds
  the nodes in the order they were reached, which is also the set \<^verbatim>\<open>seen\<close>.
\<close>

function collect_loop :: "'n adjacency \<Rightarrow> 'n list \<Rightarrow> 'n list \<Rightarrow> 'n list" where
  "collect_loop m queue invalidated =
     (if queue = [] then invalidated
      else let identity = last queue; queue = butlast queue
           in if identity \<in> set invalidated then collect_loop m queue invalidated
              else collect_loop m (queue @ or_empty (map_of m identity)) (invalidated @ [identity]))"
  by pat_completeness auto

definition universe :: "'n adjacency \<Rightarrow> 'n set" where
  "universe m = (\<Union>s \<in> set (map snd m). set s)"

lemma finite_universe [simp]: "finite (universe m)"
  by (simp add: universe_def)

lemma universe_lookup: "set (or_empty (map_of m k)) \<subseteq> universe m"
  by (cases "map_of m k") (force simp: universe_def dest: map_of_SomeD)+

termination collect_loop
proof (relation "measures [\<lambda>(m, queue, inv). card ((set queue \<union> universe m) - set inv), \<lambda>(m, queue, inv). length queue]")
  show "wf (measures [\<lambda>(m, queue, inv). card ((set queue \<union> universe m) - set inv),
      \<lambda>(m :: 'n adjacency, queue, inv). length queue])" by simp
next
  fix m :: "'n adjacency" and queue inv q :: "'n list" and x
  assume q: "queue \<noteq> []" "x = last queue" "q = butlast queue" "x \<in> set inv"
  then have "set queue = insert x (set q)"
    by (metis append_butlast_last_id insert_is_Un list.simps(15) rotate1.simps(2) set_rotate1 sup_commute empty_set)
  with q have "(set q \<union> universe m) - set inv = (set queue \<union> universe m) - set inv" by auto
  with q show "((m, q, inv), (m, queue, inv)) \<in> measures [\<lambda>(m, queue, inv). card ((set queue \<union> universe m) - set inv),
      \<lambda>(m, queue, inv). length queue]" by simp
next
  fix m :: "'n adjacency" and queue inv q :: "'n list" and x
  assume q: "queue \<noteq> []" "x = last queue" "q = butlast queue" "x \<notin> set inv"
  let ?new = "(set (q @ or_empty (map_of m x)) \<union> universe m) - set (inv @ [x])"
  let ?old = "(set queue \<union> universe m) - set inv"
  have "set q \<subseteq> set queue" using q(3) by (auto dest: in_set_butlastD)
  then have "?new \<subseteq> ?old" using universe_lookup [of m x] by auto
  moreover have "x \<in> ?old" "x \<notin> ?new" using q by auto
  ultimately have "?new \<subset> ?old" by blast
  then have "card ?new < card ?old" by (rule psubset_card_mono [rotated]) simp
  then show "((m, q @ or_empty (map_of m x), inv @ [x]), (m, queue, inv))
    \<in> measures [\<lambda>(m, queue, inv). card ((set queue \<union> universe m) - set inv), \<lambda>(m, queue, inv). length queue]"
    by simp
qed

declare collect_loop.simps [simp del]

definition collect_dependents :: "'n \<Rightarrow> 'n query_dependency_graph \<Rightarrow> 'n list" where
  "collect_dependents root g = collect_loop (reverse g) [root] []"

datatype sealed_error = NoDependent | NotExactlyOne | FeedsDifferentQuery

definition require_only_predecessor ::
  "'n \<Rightarrow> 'n \<Rightarrow> 'n query_dependency_graph \<Rightarrow> (unit, sealed_error) rust_result" where
  "require_only_predecessor predecessor current g =
     (case map_of (reverse g) predecessor of None \<Rightarrow> Err NoDependent
      | Some dependents \<Rightarrow>
          if length dependents \<noteq> 1 then Err NotExactlyOne
          else if current \<notin> set dependents then Err FeedsDifferentQuery
          else Ok ())"

section \<open>Lockstep and the edge relation\<close>

definition edges :: "'n query_dependency_graph \<Rightarrow> ('n \<times> 'n) set" where
  "edges g = pairs (forward g)"

definition lockstep :: "'n query_dependency_graph \<Rightarrow> bool" where
  "lockstep g \<longleftrightarrow> tidy (forward g) \<and> tidy (reverse g) \<and> pairs (reverse g) = (pairs (forward g))\<inverse>"

lemma lockstepD:
  assumes "lockstep g"
  shows "tidy (forward g)" "tidy (reverse g)" "pairs (reverse g) = (edges g)\<inverse>"
  using assms by (simp_all add: lockstep_def edges_def)

lemma lockstep_empty [simp]: "lockstep empty_graph" "edges empty_graph = {}"
  by (simp_all add: lockstep_def edges_def empty_graph_def)

lemma record_validation_failure_graph [simp]:
  "forward (record_validation_failure q d r g) = forward g"
  "reverse (record_validation_failure q d r g) = reverse g"
  "edges (record_validation_failure q d r g) = edges g"
  "lockstep (record_validation_failure q d r g) = lockstep g"
  by (simp_all add: record_validation_failure_def edges_def lockstep_def)

lemma remove_dependencies_from_pairs:
  "pairs (forward (remove_dependencies_from n g)) = pairs (forward g) - {n} \<times> UNIV"
  "pairs (reverse (remove_dependencies_from n g)) = pairs (reverse g) - {b. (n, b) \<in> pairs (forward g)} \<times> {n}"
proof -
  have s: "set (or_empty (map_of (forward g) n)) = {b. (n, b) \<in> pairs (forward g)}" by (rule set_lookup)
  show "pairs (forward (remove_dependencies_from n g)) = pairs (forward g) - {n} \<times> UNIV"
    using s by (cases "map_of (forward g) n") (auto simp: remove_dependencies_from_def pairs_delete)
  show "pairs (reverse (remove_dependencies_from n g)) = pairs (reverse g) - {b. (n, b) \<in> pairs (forward g)} \<times> {n}"
    using s by (cases "map_of (forward g) n") (simp_all add: remove_dependencies_from_def pairs_fold_remove)
qed

lemma edges_remove_dependencies_from [simp]: "edges (remove_dependencies_from n g) = edges g - {n} \<times> UNIV"
  by (simp add: edges_def remove_dependencies_from_pairs)

lemma remove_dependencies_from_tidy:
  assumes "tidy (forward g)" "tidy (reverse g)"
  shows "tidy (forward (remove_dependencies_from n g))" "tidy (reverse (remove_dependencies_from n g))"
  using tidy_delete [OF assms(1)] tidy_fold_remove [OF assms(2)] assms
  by (cases "map_of (forward g) n"; simp add: remove_dependencies_from_def)+

lemma lockstep_remove_dependencies_from [simp]:
  assumes "lockstep g"
  shows "lockstep (remove_dependencies_from n g)"
proof -
  have "pairs (reverse g) = (pairs (forward g))\<inverse>" using assms by (simp add: lockstep_def)
  then have "pairs (reverse (remove_dependencies_from n g)) = (pairs (forward (remove_dependencies_from n g)))\<inverse>"
    unfolding remove_dependencies_from_pairs by auto
  with remove_dependencies_from_tidy [OF lockstepD(1,2) [OF assms]] show ?thesis by (simp add: lockstep_def)
qed

lemma edges_replace_dependencies_from [simp]:
  "edges (replace_dependencies_from n ts g) = edges g - {n} \<times> UNIV \<union> {n} \<times> set ts"
proof -
  have "edges g - {n} \<times> UNIV - {n} \<times> UNIV = edges g - {n} \<times> UNIV" by blast
  then show ?thesis
    using edges_remove_dependencies_from [of n g]
    by (cases "ts = []") (simp_all add: replace_dependencies_from_def Let_def edges_def pairs_update)
qed

lemma lockstep_replace_dependencies_from [simp]:
  assumes "lockstep g" "distinct ts"
  shows "lockstep (replace_dependencies_from n ts g)"
proof (cases "ts = []")
  case True
  with assms(1) show ?thesis by (simp add: replace_dependencies_from_def)
next
  case False
  let ?g = "remove_dependencies_from n g"
  have g: "lockstep ?g" using assms(1) by simp
  let ?r = "fold (\<lambda>t. entry_insert t n) ts (reverse ?g)" and ?f = "AList.update n ts (forward ?g)"
  have "pairs ?r = (pairs ?f)\<inverse>"
    using lockstepD(3) [OF g] edges_remove_dependencies_from [of n g]
    by (auto simp: pairs_fold_insert pairs_update edges_def)
  moreover have "tidy ?r" "tidy ?f"
    using lockstepD(1,2) [OF g] False assms(2) by (simp_all add: tidy_fold_insert tidy_update)
  ultimately show ?thesis using False by (simp add: replace_dependencies_from_def Let_def lockstep_def)
qed

lemma remove_node_tables:
  assumes "lockstep g"
  shows "pairs (forward (remove_node n g)) = edges g - {n} \<times> UNIV - UNIV \<times> {n}"
    and "pairs (reverse (remove_node n g)) = (edges g - {n} \<times> UNIV - UNIV \<times> {n})\<inverse>"
    and "tidy (forward (remove_node n g))" "tidy (reverse (remove_node n g))"
proof -
  let ?g = "remove_dependencies_from n g"
  have g: "lockstep ?g" using assms by simp
  have f: "pairs (forward ?g) = edges g - {n} \<times> UNIV" using edges_remove_dependencies_from [of n g] by (simp add: edges_def)
  have r: "pairs (reverse ?g) = (edges g - {n} \<times> UNIV)\<inverse>" using lockstepD(3) [OF g] by simp
  have s: "set (or_empty (map_of (reverse ?g) n)) = {a. (a, n) \<in> edges g \<and> a \<noteq> n}"
    unfolding set_lookup r by auto
  show "pairs (forward (remove_node n g)) = edges g - {n} \<times> UNIV - UNIV \<times> {n}"
    using s f by (cases "map_of (reverse ?g) n") (auto simp: remove_node_def Let_def pairs_fold_remove)
  show "pairs (reverse (remove_node n g)) = (edges g - {n} \<times> UNIV - UNIV \<times> {n})\<inverse>"
    using s r by (cases "map_of (reverse ?g) n") (auto simp: remove_node_def Let_def pairs_delete)
  show "tidy (forward (remove_node n g))"
    using tidy_fold_remove [OF lockstepD(1) [OF g]] lockstepD(1) [OF g]
    by (cases "map_of (reverse ?g) n") (simp_all add: remove_node_def Let_def)
  show "tidy (reverse (remove_node n g))"
    using tidy_delete [OF lockstepD(2) [OF g]] lockstepD(2) [OF g]
    by (cases "map_of (reverse ?g) n") (simp_all add: remove_node_def Let_def)
qed

lemma edges_remove_node: "lockstep g \<Longrightarrow> edges (remove_node n g) = edges g - {n} \<times> UNIV - UNIV \<times> {n}"
  by (simp add: edges_def [of "remove_node n g"] remove_node_tables(1))

lemma lockstep_remove_node: "lockstep g \<Longrightarrow> lockstep (remove_node n g)"
  unfolding lockstep_def [of "remove_node n g"] by (simp add: remove_node_tables)


section \<open>The traversal reaches exactly the dependents\<close>

lemma set_last_butlast: "xs \<noteq> [] \<Longrightarrow> set xs = insert (last xs) (set (butlast xs))"
  by (induction xs rule: rev_induct) auto

text \<open>What the traversal returns from a worklist and the nodes reached so far.\<close>

definition traversed :: "'n adjacency \<Rightarrow> 'n set \<Rightarrow> 'n list \<Rightarrow> 'n list \<Rightarrow> bool" where
  "traversed m start reached r \<longleftrightarrow>
     distinct r \<and> start \<subseteq> set r \<and> pairs m `` set r \<subseteq> set r \<and> set r \<subseteq> (pairs m)\<^sup>* `` start
     \<and> (\<exists>ys. r = reached @ ys)"

lemma traversed_extend:
  assumes "traversed m start' (reached @ [x]) r" "start \<subseteq> start'" "start' \<subseteq> (pairs m)\<^sup>* `` start"
  shows "traversed m start reached r"
proof -
  have "(pairs m)\<^sup>* `` start' \<subseteq> (pairs m)\<^sup>* `` ((pairs m)\<^sup>* `` start)" using assms(3) by blast
  also have "\<dots> \<subseteq> (pairs m)\<^sup>* `` start" by (auto intro: rtrancl_trans)
  finally have "set r \<subseteq> (pairs m)\<^sup>* `` start" using assms(1) by (auto simp: traversed_def)
  moreover have "\<exists>ys. r = reached @ ys" using assms(1) by (auto simp: traversed_def)
  moreover have "start \<subseteq> set r" using assms(1,2) by (auto simp: traversed_def)
  ultimately show ?thesis using assms(1) by (simp add: traversed_def)
qed

lemma collect_loop_traversed:
  assumes "distinct invalidated" "pairs m `` set invalidated \<subseteq> set invalidated \<union> set queue"
  shows "traversed m (set invalidated \<union> set queue) invalidated (collect_loop m queue invalidated)"
  using assms
proof (induction m queue invalidated rule: collect_loop.induct)
  case (1 m queue invalidated)
  show ?case
  proof (cases "queue = []")
    case True
    then have "collect_loop m queue invalidated = invalidated" by (simp add: collect_loop.simps)
    with True "1.prems" show ?thesis by (auto simp: traversed_def)
  next
    case False
    let ?x = "last queue" and ?q = "butlast queue"
    have q: "set queue = insert ?x (set ?q)" using set_last_butlast [OF False] .
    show ?thesis
    proof (cases "?x \<in> set invalidated")
      case True
      then have eq: "set invalidated \<union> set queue = set invalidated \<union> set ?q" using q by auto
      have "collect_loop m queue invalidated = collect_loop m ?q invalidated"
        using False True by (simp add: collect_loop.simps [of m queue] Let_def)
      with "1.IH"(1) [OF False refl refl True "1.prems"(1)] "1.prems"(2) eq show ?thesis by simp
    next
      case new: False
      let ?next = "or_empty (map_of m ?x)"
      let ?start = "set (invalidated @ [?x]) \<union> set (?q @ ?next)"
      have nx: "set ?next = pairs m `` {?x}" unfolding set_lookup by blast
      have d: "distinct (invalidated @ [?x])" using "1.prems"(1) new by simp
      have c: "pairs m `` set (invalidated @ [?x]) \<subseteq> ?start" using "1.prems"(2) q nx by auto
      have eq: "collect_loop m queue invalidated = collect_loop m (?q @ ?next) (invalidated @ [?x])"
        using False new by (simp add: collect_loop.simps [of m queue] Let_def)
      have "traversed m ?start (invalidated @ [?x]) (collect_loop m (?q @ ?next) (invalidated @ [?x]))"
        using "1.IH"(2) [OF False refl refl new d c] .
      moreover have "set invalidated \<union> set queue \<subseteq> ?start" using q by auto
      moreover have "?start \<subseteq> (pairs m)\<^sup>* `` (set invalidated \<union> set queue)" using q nx by auto
      ultimately show ?thesis unfolding eq by (rule traversed_extend)
    qed
  qed
qed

lemma collect_dependents_spec:
  assumes "lockstep g"
  shows "set (collect_dependents root g) = {n. (n, root) \<in> (edges g)\<^sup>*}"
    and "distinct (collect_dependents root g)"
    and "\<exists>ys. collect_dependents root g = root # ys"
proof -
  let ?m = "reverse g" and ?R = "collect_dependents root g"
  have step: "?R = collect_loop ?m (or_empty (map_of ?m root)) [root]"
    by (simp add: collect_dependents_def collect_loop.simps [of ?m "[root]"])
  have t: "traversed ?m (set [root] \<union> set (or_empty (map_of ?m root))) [root] ?R"
    unfolding step by (rule collect_loop_traversed) (auto simp: set_lookup)
  then show "distinct ?R" "\<exists>ys. ?R = root # ys" by (simp_all add: traversed_def)
  have "n \<in> set ?R" if "(root, n) \<in> (pairs ?m)\<^sup>*" for n
    using that t by (induction rule: rtrancl_induct) (auto simp: traversed_def)
  moreover have "(root, n) \<in> (pairs ?m)\<^sup>*" if "n \<in> set ?R" for n
  proof -
    have "n \<in> (pairs ?m)\<^sup>* `` (set [root] \<union> set (or_empty (map_of ?m root)))"
      using t that unfolding traversed_def by blast
    then obtain x where "x = root \<or> (root, x) \<in> pairs ?m" "(x, n) \<in> (pairs ?m)\<^sup>*"
      unfolding set_lookup by auto
    then show ?thesis by (auto intro: converse_rtrancl_into_rtrancl)
  qed
  ultimately have "set ?R = {n. (root, n) \<in> (pairs ?m)\<^sup>*}" by blast
  then show "set ?R = {n. (n, root) \<in> (edges g)\<^sup>*}" by (simp add: lockstepD(3) [OF assms] rtrancl_converse)
qed


section \<open>The contract of a dependency store\<close>

text \<open>
  What the query engine relies on: a store of read edges whose updates have the obvious effect on the
  edge relation and whose \<open>dependents\<close> is reverse reachability.
\<close>

locale dependency_store =
  fixes inv :: "'g \<Rightarrow> bool" and rel :: "'g \<Rightarrow> ('n \<times> 'n) set" and new :: 'g
    and replace :: "'n \<Rightarrow> 'n list \<Rightarrow> 'g \<Rightarrow> 'g" and remove_from :: "'n \<Rightarrow> 'g \<Rightarrow> 'g"
    and remove :: "'n \<Rightarrow> 'g \<Rightarrow> 'g" and dependents :: "'n \<Rightarrow> 'g \<Rightarrow> 'n list"
  assumes inv_new: "inv new" and rel_new: "rel new = {}"
    and inv_replace: "inv g \<Longrightarrow> distinct ts \<Longrightarrow> inv (replace n ts g)"
    and rel_replace: "inv g \<Longrightarrow> rel (replace n ts g) = rel g - {n} \<times> UNIV \<union> {n} \<times> set ts"
    and inv_remove_from: "inv g \<Longrightarrow> inv (remove_from n g)"
    and rel_remove_from: "inv g \<Longrightarrow> rel (remove_from n g) = rel g - {n} \<times> UNIV"
    and inv_remove: "inv g \<Longrightarrow> inv (remove n g)"
    and rel_remove: "inv g \<Longrightarrow> rel (remove n g) = rel g - {n} \<times> UNIV - UNIV \<times> {n}"
    and set_dependents: "inv g \<Longrightarrow> set (dependents n g) = {d. (d, n) \<in> (rel g)\<^sup>*}"
    and distinct_dependents: "inv g \<Longrightarrow> distinct (dependents n g)"
    and hd_dependents: "inv g \<Longrightarrow> \<exists>ds. dependents n g = n # ds"
begin

text \<open>Nodes that do not depend on the invalidated root read only such nodes.\<close>

lemma unaffected_closed:
  assumes "inv g" "rel g `` R \<subseteq> R"
  shows "rel g `` (R - set (dependents n g)) \<subseteq> R - set (dependents n g)"
  using assms(2) unfolding set_dependents [OF assms(1)] by (auto intro: converse_rtrancl_into_rtrancl)

lemma root_affected: "inv g \<Longrightarrow> n \<in> set (dependents n g)"
  by (simp add: set_dependents)

end

interpretation deps: dependency_store lockstep edges empty_graph replace_dependencies_from
  remove_dependencies_from remove_node collect_dependents
  by unfold_locales
    (simp_all add: edges_remove_node lockstep_remove_node collect_dependents_spec)


section \<open>Refinement of the edge relation\<close>

datatype 'n graph_op = Replace 'n "'n list" | Clear 'n | Retire 'n

fun apply_op :: "'n graph_op \<Rightarrow> 'n query_dependency_graph \<Rightarrow> 'n query_dependency_graph" where
  "apply_op (Replace n ts) g = replace_dependencies_from n (remdups ts) g"
| "apply_op (Clear n) g = remove_dependencies_from n g"
| "apply_op (Retire n) g = remove_node n g"

fun spec_op :: "'n graph_op \<Rightarrow> ('n \<times> 'n) set \<Rightarrow> ('n \<times> 'n) set" where
  "spec_op (Replace n ts) E = E - {n} \<times> UNIV \<union> {n} \<times> set ts"
| "spec_op (Clear n) E = E - {n} \<times> UNIV"
| "spec_op (Retire n) E = E - {n} \<times> UNIV - UNIV \<times> {n}"

lemma apply_op_refines: "lockstep g \<Longrightarrow> lockstep (apply_op op g) \<and> edges (apply_op op g) = spec_op op (edges g)"
  by (cases op) (simp_all add: edges_remove_node lockstep_remove_node)

lemma apply_ops_refine:
  "lockstep g \<Longrightarrow> lockstep (fold apply_op ops g) \<and> edges (fold apply_op ops g) = fold spec_op ops (edges g)"
proof (induction ops arbitrary: g)
  case (Cons op ops)
  from Cons.IH [OF conjunct1 [OF apply_op_refines [OF Cons.prems]]] apply_op_refines [OF Cons.prems]
  show ?case by simp
qed simp

text \<open>
  C32. The dependency graph implements a relation: after any sequence of edge replacements, clearings and
  retirements the forward and the reverse table mirror each other, the forward table holds exactly the
  edges of the specification, and the nodes an invalidation visits are, without repetition and with the
  root first, exactly those that reach the root through read edges.
\<close>

theorem dependency_graph_refines:
  "lockstep (fold apply_op ops empty_graph)
   \<and> edges (fold apply_op ops empty_graph) = fold spec_op ops {}
   \<and> set (collect_dependents root (fold apply_op ops empty_graph)) = {n. (n, root) \<in> (fold spec_op ops {})\<^sup>*}
   \<and> distinct (collect_dependents root (fold apply_op ops empty_graph))
   \<and> (\<exists>ds. collect_dependents root (fold apply_op ops empty_graph) = root # ds)"
  using apply_ops_refine [OF deps.inv_new, of ops]
    deps.set_dependents [of "fold apply_op ops empty_graph" root]
    deps.distinct_dependents [of "fold apply_op ops empty_graph" root]
    deps.hd_dependents [of "fold apply_op ops empty_graph" root]
  by (simp add: deps.rel_new)

text \<open>
  C33. The check before sealing accepts exactly a predecessor whose only reader is the current query.
\<close>

theorem require_only_predecessor_exact:
  "require_only_predecessor p c (fold apply_op ops empty_graph) = Ok ()
   \<longleftrightarrow> {n. (n, p) \<in> fold spec_op ops {}} = {c}"
proof -
  let ?g = "fold apply_op ops empty_graph"
  have g: "lockstep ?g" "edges ?g = fold spec_op ops {}"
    using apply_ops_refine [OF deps.inv_new, of ops] by (simp_all add: deps.rel_new)
  have readers: "set (or_empty (map_of (reverse ?g) p)) = {n. (n, p) \<in> fold spec_op ops {}}"
    unfolding set_lookup lockstepD(3) [OF g(1)] g(2) by simp
  show ?thesis
  proof (cases "map_of (reverse ?g) p")
    case None
    then show ?thesis using readers by (simp add: require_only_predecessor_def)
  next
    case (Some ds)
    have "distinct ds" using tidy_distinct [OF lockstepD(2) [OF g(1)] Some] .
    then have "length ds = 1 \<and> c \<in> set ds \<longleftrightarrow> set ds = {c}" by (auto simp: distinct_card [symmetric] card_1_singleton_iff)
    then show ?thesis using readers Some by (auto simp: require_only_predecessor_def)
  qed
qed

end
