(* ===== verification/Nia_Query_Leases.thy ===== *)
theory Nia_Query_Leases
  imports Nia_Prelude
begin

text \<open>
  Leases of the query engine: the activity count and the retirement barrier of a session
  (\<^verbatim>\<open>nia-query/src/session.rs\<close>, with the thread-local depths of \<^verbatim>\<open>dependency.rs\<close>), and the process-wide
  memory budget of LLVM tasks (\<^verbatim>\<open>resources.rs\<close>). Threads interleave at the critical sections guarded by
  the mutexes; an operation that would wait on a condition variable is not enabled. Counters are
  unbounded natural numbers.
\<close>

section \<open>Thread-local depths\<close>

type_synonym depths = "(nat \<times> nat) list"

fun position :: "('a \<Rightarrow> bool) \<Rightarrow> 'a list \<Rightarrow> nat option" where
  "position p [] = None"
| "position p (x # xs) = (if p x then Some 0 else map_option Suc (position p xs))"

text \<open>\<^verbatim>\<open>Vec::swap_remove\<close> at a position inside the list.\<close>

definition swap_remove :: "nat \<Rightarrow> 'a list \<Rightarrow> 'a list" where
  "swap_remove i xs = (if i = length xs - 1 then butlast xs else (butlast xs)[i := last xs])"

datatype lease_ice = NoActiveDepth | DepthUnderflow | CountUnderflow | ReleasedTwice | InsideActiveQuery

definition query_activity_is_active :: "nat \<Rightarrow> depths \<Rightarrow> bool" where
  "query_activity_is_active session ds = list_ex (\<lambda>(s, _). s = session) ds"

definition enter_query_activity :: "nat \<Rightarrow> depths \<Rightarrow> depths" where
  "enter_query_activity session ds =
     (case position (\<lambda>(s, _). s = session) ds of
        Some i \<Rightarrow> ds[i := (fst (ds ! i), snd (ds ! i) + 1)]
      | None \<Rightarrow> ds @ [(session, 1)])"

definition leave_query_activity :: "nat \<Rightarrow> depths \<Rightarrow> depths \<times> (bool, lease_ice) rust_result" where
  "leave_query_activity session ds =
     (case position (\<lambda>(s, _). s = session) ds of
        None \<Rightarrow> (ds, Err NoActiveDepth)
      | Some i \<Rightarrow>
          if snd (ds ! i) = 0 then (ds, Err DepthUnderflow)
          else let depth = snd (ds ! i) - 1; ds = ds[i := (fst (ds ! i), depth)]
               in if depth = 0 then (swap_remove i ds, Ok True) else (ds, Ok False))"

definition memory_budget_is_active :: "nat \<Rightarrow> depths \<Rightarrow> bool" where
  "memory_budget_is_active identity ds = list_ex (\<lambda>(b, _). b = identity) ds"

definition enter_memory_budget :: "nat \<Rightarrow> depths \<Rightarrow> depths" where
  "enter_memory_budget identity ds =
     (case position (\<lambda>(b, _). b = identity) ds of
        Some i \<Rightarrow> ds[i := (fst (ds ! i), snd (ds ! i) + 1)]
      | None \<Rightarrow> ds @ [(identity, 1)])"

definition leave_memory_budget :: "nat \<Rightarrow> depths \<Rightarrow> depths \<times> (bool, lease_ice) rust_result" where
  "leave_memory_budget identity ds =
     (case position (\<lambda>(b, _). b = identity) ds of
        None \<Rightarrow> (ds, Err NoActiveDepth)
      | Some i \<Rightarrow>
          if snd (ds ! i) = 0 then (ds, Err DepthUnderflow)
          else let depth = snd (ds ! i) - 1; ds = ds[i := (fst (ds ! i), depth)]
               in if depth = 0 then (swap_remove i ds, Ok True) else (ds, Ok False))"

text \<open>A table is well formed when no owner occurs twice and no depth is zero.\<close>

definition depth :: "nat \<Rightarrow> depths \<Rightarrow> nat" where
  "depth s ds = (case map_of ds s of None \<Rightarrow> 0 | Some d \<Rightarrow> d)"

definition wf_depths :: "depths \<Rightarrow> bool" where
  "wf_depths ds \<longleftrightarrow> distinct (map fst ds) \<and> (\<forall>(s, d) \<in> set ds. 0 < d)"

lemma position_None: "position p xs = None \<longleftrightarrow> (\<forall>x \<in> set xs. \<not> p x)"
  by (induction xs) auto

lemma position_Some: "position p xs = Some i \<Longrightarrow> i < length xs \<and> p (xs ! i)"
  by (induction xs arbitrary: i) (auto split: if_splits)

lemma mset_free_swap_remove:
  assumes "i < length xs"
  shows "set (swap_remove i xs) = set (take i xs @ drop (Suc i) xs)"
    and "distinct (map f xs) \<Longrightarrow> distinct (map f (swap_remove i xs))"
proof -
  obtain ys z where xs: "xs = ys @ [z]" using assms by (cases xs rule: rev_cases) auto
  show "set (swap_remove i xs) = set (take i xs @ drop (Suc i) xs)"
  proof (cases "i = length ys")
    case True
    then show ?thesis by (simp add: xs swap_remove_def)
  next
    case False
    then have "i < length ys" using assms by (simp add: xs)
    then have "ys[i := z] = take i ys @ z # drop (Suc i) ys" by (rule upd_conv_take_nth_drop)
    with \<open>i < length ys\<close> show ?thesis by (auto simp: xs swap_remove_def)
  qed
  assume d: "distinct (map f xs)"
  show "distinct (map f (swap_remove i xs))"
  proof (cases "i = length ys")
    case True
    with d show ?thesis by (simp add: xs swap_remove_def)
  next
    case False
    then have i: "i < length ys" using assms by (simp add: xs)
    have "f z \<notin> set (map f ys)" "distinct (map f ys)" using d by (simp_all add: xs)
    then have "distinct ((map f ys)[i := f z])" by (intro distinct_list_update) (auto dest: in_set_takeD in_set_dropD)
    with i show ?thesis by (simp add: xs swap_remove_def map_update)
  qed
qed

lemma distinct_update_fst:
  "i < length ds \<Longrightarrow> map fst (ds[i := (fst (ds ! i), d)]) = map fst ds"
  by (simp add: map_update) (metis list_update_id map_update nth_map)

lemma depth_eqI: "distinct (map fst ds) \<Longrightarrow> (s, d) \<in> set ds \<Longrightarrow> depth s ds = d"
  by (simp add: depth_def)

lemma depth_nth: "distinct (map fst ds) \<Longrightarrow> i < length ds \<Longrightarrow> depth (fst (ds ! i)) ds = snd (ds ! i)"
  by (rule depth_eqI) simp_all

lemma depth_0I: "s \<notin> fst ` set ds \<Longrightarrow> depth s ds = 0"
proof -
  assume "s \<notin> fst ` set ds"
  then have "map_of ds s = None" by (simp add: map_of_eq_None_iff)
  then show ?thesis by (simp add: depth_def)
qed

lemma depth_pos_iff: "wf_depths ds \<Longrightarrow> 0 < depth s ds \<longleftrightarrow> s \<in> fst ` set ds"
proof (cases "s \<in> fst ` set ds")
  case True
  assume wf: "wf_depths ds"
  from True obtain d where d: "(s, d) \<in> set ds" by auto
  with wf have "0 < d" "depth s ds = d" by (auto simp: wf_depths_def intro: depth_eqI)
  with True show ?thesis by simp
qed (simp add: depth_0I)

lemma depth_cong:
  assumes "distinct (map fst xs)" "distinct (map fst ys)" "\<And>d. (s, d) \<in> set xs \<longleftrightarrow> (s, d) \<in> set ys"
  shows "depth s xs = depth s ys"
proof (cases "s \<in> fst ` set xs")
  case True
  then obtain d where "(s, d) \<in> set xs" by auto
  with assms show ?thesis by (simp add: depth_eqI)
next
  case False
  then have "s \<notin> fst ` set ys" using assms(3) by force
  with False show ?thesis by (simp add: depth_0I)
qed

text \<open>The contract of a table of reentrant depths, and the two copies of it in the source.\<close>

locale reentrant_depths =
  fixes enter :: "nat \<Rightarrow> depths \<Rightarrow> depths" and leave :: "nat \<Rightarrow> depths \<Rightarrow> depths \<times> (bool, lease_ice) rust_result"
    and active :: "nat \<Rightarrow> depths \<Rightarrow> bool"
  assumes wf_enter: "wf_depths ds \<Longrightarrow> wf_depths (enter s ds)"
    and depth_enter: "wf_depths ds \<Longrightarrow> depth s' (enter s ds) = depth s' ds + (if s' = s then 1 else 0)"
    and wf_leave: "wf_depths ds \<Longrightarrow> wf_depths (fst (leave s ds))"
    and depth_leave: "wf_depths ds \<Longrightarrow> 0 < depth s ds \<Longrightarrow>
      depth s' (fst (leave s ds)) = depth s' ds - (if s' = s then 1 else 0)"
    and leave_ok: "wf_depths ds \<Longrightarrow> snd (leave s ds) = (if depth s ds = 0 then Err NoActiveDepth else Ok (depth s ds = 1))"
    and leave_err: "wf_depths ds \<Longrightarrow> depth s ds = 0 \<Longrightarrow> fst (leave s ds) = ds"
    and active_iff: "wf_depths ds \<Longrightarrow> active s ds \<longleftrightarrow> 0 < depth s ds"
begin

lemma leave_enter: "wf_depths ds \<Longrightarrow> depth s' (fst (leave s (enter s ds))) = depth s' ds"
  using depth_leave [OF wf_enter, of ds s s s'] depth_enter [of ds] by simp

lemma outermost: "wf_depths ds \<Longrightarrow> depth s ds = 0 \<Longrightarrow> snd (leave s (enter s ds)) = Ok True"
  using leave_ok [OF wf_enter, of ds s s] depth_enter [of ds] by simp

end

text \<open>The laws of the locale, proved once for the shape both copies have.\<close>

lemma wf_depths_nth: "wf_depths ds \<Longrightarrow> i < length ds \<Longrightarrow> 0 < snd (ds ! i)"
  unfolding wf_depths_def by (metis (mono_tags, lifting) case_prod_unfold nth_mem)

lemma position_depth:
  assumes "wf_depths ds"
  shows "position (\<lambda>(b, _). b = s) ds = None \<longleftrightarrow> depth s ds = 0"
proof -
  have "position (\<lambda>(b, _). b = s) ds = None \<longleftrightarrow> s \<notin> fst ` set ds"
    by (force simp: position_None)
  with depth_pos_iff [OF assms, of s] show ?thesis by auto
qed

lemma position_hit:
  assumes "wf_depths ds" "position (\<lambda>(b, _). b = s) ds = Some i"
  shows "i < length ds" "fst (ds ! i) = s" "snd (ds ! i) = depth s ds" "0 < depth s ds"
proof -
  show i: "i < length ds" and f: "fst (ds ! i) = s"
    using position_Some [OF assms(2)] by (auto simp: case_prod_unfold)
  from assms(1) i f show "snd (ds ! i) = depth s ds"
    using depth_nth [of ds i] by (simp add: wf_depths_def)
  with wf_depths_nth [OF assms(1) i] show "0 < depth s ds" by simp
qed

lemma set_update_distinct:
  assumes "distinct (map fst ds)" "i < length ds"
  shows "set (ds[i := x]) = insert x (set ds - {ds ! i})"
  using assms by (simp add: set_update_distinct distinct_map)

lemma depth_update:
  assumes "wf_depths ds" "i < length ds" "fst (ds ! i) = s"
  shows "depth s' (ds[i := (s, d)]) = (if s' = s then d else depth s' ds)"
proof -
  have d: "distinct (map fst ds)" using assms(1) by (simp add: wf_depths_def)
  have d': "distinct (map fst (ds[i := (s, d)]))"
    using distinct_update_fst [OF assms(2), of d] d assms(3) by simp
  note S = set_update_distinct [OF d assms(2)]
  show ?thesis
  proof (cases "s' = s")
    case True
    then show ?thesis using depth_eqI [OF d', of s d] by (simp add: S)
  next
    case False
    then have "depth s' (ds[i := (s, d)]) = depth s' ds"
      using assms(3) by (intro depth_cong [OF d' d]; cases "ds ! i") (auto simp: S)
    with False show ?thesis by simp
  qed
qed

lemma wf_update:
  assumes "wf_depths ds" "i < length ds" "fst (ds ! i) = s" "0 < d"
  shows "wf_depths (ds[i := (s, d)])"
proof -
  have "distinct (map fst (ds[i := (s, d)]))"
    using distinct_update_fst [OF assms(2), of d] assms(1,3) by (simp add: wf_depths_def)
  moreover have "set (ds[i := (s, d)]) \<subseteq> insert (s, d) (set ds)" by (rule set_update_subset_insert)
  ultimately show ?thesis using assms(1,4) by (auto simp: wf_depths_def)
qed

lemma swap_remove_depths:
  assumes "wf_depths ds" "i < length ds" "fst (ds ! i) = s"
  shows "wf_depths (swap_remove i (ds[i := (s, d)]))"
    and "depth s' (swap_remove i (ds[i := (s, d)])) = (if s' = s then 0 else depth s' ds)"
proof -
  let ?us = "ds[i := (s, d)]" and ?xs = "swap_remove i (ds[i := (s, d)])"
  have d: "distinct (map fst ds)" using assms(1) by (simp add: wf_depths_def)
  have S: "set ?xs = set (take i ds @ drop (Suc i) ds)"
    using mset_free_swap_remove(1) [of i ?us] assms(2) by simp
  have "distinct (map fst ?us)" using distinct_update_fst [OF assms(2), of d] d assms(3) by simp
  then have D: "distinct (map fst ?xs)" using mset_free_swap_remove(2) [of i ?us fst] assms(2) by simp
  have ds: "ds = take i ds @ ds ! i # drop (Suc i) ds" using assms(2) by (rule id_take_nth_drop)
  then have "set ds = insert (ds ! i) (set (take i ds @ drop (Suc i) ds))"
    by (metis Un_insert_right list.simps(15) set_append)
  moreover have "s \<notin> fst ` set (take i ds @ drop (Suc i) ds)"
  proof -
    have "distinct (map fst (take i ds @ ds ! i # drop (Suc i) ds))" using d ds by simp
    with assms(3) show ?thesis by auto
  qed
  ultimately have S': "set ds = insert (ds ! i) (set ?xs)" and N: "s \<notin> fst ` set ?xs"
    unfolding S by blast+
  show "wf_depths ?xs" using D assms(1) unfolding wf_depths_def S' by blast
  show "depth s' ?xs = (if s' = s then 0 else depth s' ds)"
  proof (cases "s' = s")
    case True
    with N show ?thesis by (simp add: depth_0I)
  next
    case False
    then have "depth s' ?xs = depth s' ds"
      using assms(3) by (intro depth_cong [OF D d]; cases "ds ! i") (auto simp: S')
    with False show ?thesis by simp
  qed
qed

lemma append_depths:
  assumes "wf_depths ds" "depth s ds = 0"
  shows "wf_depths (ds @ [(s, 1)])" "depth s' (ds @ [(s, 1)]) = (if s' = s then 1 else depth s' ds)"
proof -
  have n: "s \<notin> fst ` set ds" using depth_pos_iff [OF assms(1), of s] assms(2) by simp
  then show w: "wf_depths (ds @ [(s, 1)])" using assms(1) by (auto simp: wf_depths_def)
  have D: "distinct (map fst (ds @ [(s, 1)]))" using w unfolding wf_depths_def by blast
  show "depth s' (ds @ [(s, 1)]) = (if s' = s then 1 else depth s' ds)"
  proof (cases "s' = s")
    case True
    then show ?thesis using depth_eqI [OF D, of s 1] by simp
  next
    case False
    then have "depth s' (ds @ [(s, 1)]) = depth s' ds"
      using assms(1) by (intro depth_cong [OF D]) (auto simp: wf_depths_def)
    with False show ?thesis by simp
  qed
qed

lemma active_depth: "wf_depths ds \<Longrightarrow> list_ex (\<lambda>(b, _). b = s) ds \<longleftrightarrow> 0 < depth s ds"
  by (force simp: depth_pos_iff list_ex_iff)

interpretation activity: reentrant_depths enter_query_activity leave_query_activity query_activity_is_active
proof
  fix ds s s'
  assume wf: "wf_depths ds"
  show "query_activity_is_active s ds \<longleftrightarrow> 0 < depth s ds"
    using wf by (simp add: query_activity_is_active_def active_depth)
  show "wf_depths (enter_query_activity s ds)"
    and "depth s' (enter_query_activity s ds) = depth s' ds + (if s' = s then 1 else 0)"
    and "wf_depths (fst (leave_query_activity s ds))"
    and "snd (leave_query_activity s ds) = (if depth s ds = 0 then Err NoActiveDepth else Ok (depth s ds = 1))"
    using wf position_depth [OF wf, of s] position_hit [OF wf, of s] append_depths [OF wf, of s]
    by (auto simp: enter_query_activity_def leave_query_activity_def Let_def wf_update depth_update
        swap_remove_depths split: option.split)
  show "0 < depth s ds \<Longrightarrow> depth s' (fst (leave_query_activity s ds)) = depth s' ds - (if s' = s then 1 else 0)"
    and "depth s ds = 0 \<Longrightarrow> fst (leave_query_activity s ds) = ds"
    using wf position_depth [OF wf, of s] position_hit [OF wf, of s]
    by (auto simp: leave_query_activity_def Let_def depth_update swap_remove_depths split: option.split)
qed

interpretation budget: reentrant_depths enter_memory_budget leave_memory_budget memory_budget_is_active
proof -
  have "enter_memory_budget = enter_query_activity" "leave_memory_budget = leave_query_activity"
    "memory_budget_is_active = query_activity_is_active"
    by (simp_all add: fun_eq_iff enter_memory_budget_def enter_query_activity_def leave_memory_budget_def
        leave_query_activity_def memory_budget_is_active_def query_activity_is_active_def)
  then show "reentrant_depths enter_memory_budget leave_memory_budget memory_budget_is_active"
    using activity.reentrant_depths_axioms by simp
qed

section \<open>The activity count and the retirement barrier of a session\<close>

record query_session_inner =
  active :: nat
  retiring :: bool
  internal_failure :: "lease_ice option"

definition record_failure :: "lease_ice \<Rightarrow> query_session_inner \<Rightarrow> query_session_inner" where
  "record_failure ice s = (if internal_failure s = None then s\<lparr>internal_failure := Some ice\<rparr> else s)"

text \<open>
  \<^verbatim>\<open>enter_activity\<close> on a thread with depths \<^term>\<open>ds\<close>. The value \<^term>\<open>None\<close> stands for the wait on
  \<^verbatim>\<open>activity_ready\<close>, which changes nothing and is retried when the thread is woken.
\<close>

definition enter_activity :: "nat \<Rightarrow> depths \<Rightarrow> query_session_inner \<Rightarrow> (depths \<times> query_session_inner) option" where
  "enter_activity identity ds s =
     (let nested = query_activity_is_active identity ds
      in if nested then Some (enter_query_activity identity ds, s)
         else if retiring s then None
         else Some (enter_query_activity identity ds, s\<lparr>active := active s + 1\<rparr>))"

definition drop_activity :: "nat \<Rightarrow> depths \<Rightarrow> query_session_inner \<Rightarrow> depths \<times> query_session_inner" where
  "drop_activity identity ds s =
     (case leave_query_activity identity ds of
        (ds', Inl _) \<Rightarrow> (ds', record_failure NoActiveDepth s)
      | (ds', Inr outermost) \<Rightarrow>
          if \<not> outermost then (ds', s)
          else if active s = 0 then (ds', record_failure CountUnderflow s)
          else (ds', s\<lparr>active := active s - 1\<rparr>))"

text \<open>
  \<^verbatim>\<open>enter_retirement\<close> waits twice, so it is two critical sections: closing admission, and the end of
  the drain. The first fails inside an activity of the same thread.
\<close>

definition close_admission :: "nat \<Rightarrow> depths \<Rightarrow> query_session_inner \<Rightarrow> (query_session_inner, lease_ice) rust_result option" where
  "close_admission identity ds s =
     (if query_activity_is_active identity ds then Some (Err InsideActiveQuery)
      else if retiring s then None
      else Some (Ok (s\<lparr>retiring := True\<rparr>)))"

definition drained :: "query_session_inner \<Rightarrow> bool" where
  "drained s = (active s = 0)"

definition drop_retirement :: "query_session_inner \<Rightarrow> query_session_inner" where
  "drop_retirement s =
     (if \<not> retiring s then record_failure ReleasedTwice s else s\<lparr>retiring := False\<rparr>)"

text \<open>
  A thread owns activity guards (\<^term>\<open>guards t s\<close> of session \<open>s\<close>) and retirement guards; while it drains a
  session it takes no other step. The rules interleave the critical sections of all threads over all
  sessions. Guards are dropped only by the thread that owns them, each at most once.
\<close>

record query_thread =
  activity_depths :: depths
  guards :: "nat \<Rightarrow> nat"
  draining :: "nat option"
  retirement_guards :: "nat set"

record query_process =
  sessions :: "nat \<Rightarrow> query_session_inner"
  threads :: "nat \<Rightarrow> query_thread"

definition fresh_session :: query_session_inner where
  "fresh_session = \<lparr>active = 0, retiring = False, internal_failure = None\<rparr>"

definition fresh_thread :: query_thread where
  "fresh_thread = \<lparr>activity_depths = [], guards = (\<lambda>_. 0), draining = None, retirement_guards = {}\<rparr>"

definition fresh_process :: query_process where
  "fresh_process = \<lparr>sessions = (\<lambda>_. fresh_session), threads = (\<lambda>_. fresh_thread)\<rparr>"

definition update_process :: "nat \<Rightarrow> query_session_inner \<Rightarrow> nat \<Rightarrow> query_thread \<Rightarrow> query_process \<Rightarrow> query_process" where
  "update_process s inner t thread p =
     p\<lparr>sessions := (sessions p)(s := inner), threads := (threads p)(t := thread)\<rparr>"

inductive process_step :: "query_process \<Rightarrow> query_process \<Rightarrow> bool" where
  enter: "th = threads p t \<Longrightarrow> draining th = None \<Longrightarrow>
    enter_activity s (activity_depths th) (sessions p s) = Some (ds, inner) \<Longrightarrow>
    process_step p (update_process s inner t
      (th\<lparr>activity_depths := ds, guards := (guards th)(s := guards th s + 1)\<rparr>) p)"
| drop: "th = threads p t \<Longrightarrow> draining th = None \<Longrightarrow> 0 < guards th s \<Longrightarrow>
    drop_activity s (activity_depths th) (sessions p s) = (ds, inner) \<Longrightarrow>
    process_step p (update_process s inner t
      (th\<lparr>activity_depths := ds, guards := (guards th)(s := guards th s - 1)\<rparr>) p)"
| close: "th = threads p t \<Longrightarrow> draining th = None \<Longrightarrow>
    close_admission s (activity_depths th) (sessions p s) = Some (Ok inner) \<Longrightarrow>
    process_step p (update_process s inner t (th\<lparr>draining := Some s\<rparr>) p)"
| grant: "th = threads p t \<Longrightarrow> draining th = Some s \<Longrightarrow> drained (sessions p s) \<Longrightarrow>
    process_step p (update_process s (sessions p s) t
      (th\<lparr>draining := None, retirement_guards := insert s (retirement_guards th)\<rparr>) p)"
| release: "th = threads p t \<Longrightarrow> draining th = None \<Longrightarrow> s \<in> retirement_guards th \<Longrightarrow>
    process_step p (update_process s (drop_retirement (sessions p s)) t
      (th\<lparr>retirement_guards := retirement_guards th - {s}\<rparr>) p)"

definition process_reachable :: "query_process \<Rightarrow> bool" where
  "process_reachable p \<longleftrightarrow> process_step\<^sup>*\<^sup>* fresh_process p"

subsection \<open>The invariant\<close>

definition in_activity :: "query_process \<Rightarrow> nat \<Rightarrow> nat set" where
  "in_activity p s = {t. 0 < guards (threads p t) s}"

definition retires :: "query_process \<Rightarrow> nat \<Rightarrow> nat set" where
  "retires p s = {t. draining (threads p t) = Some s \<or> s \<in> retirement_guards (threads p t)}"

definition thread_ok :: "query_thread \<Rightarrow> bool" where
  "thread_ok th \<longleftrightarrow> wf_depths (activity_depths th) \<and>
     (\<forall>s. depth s (activity_depths th) = guards th s) \<and>
     (\<forall>s. draining th = Some s \<longrightarrow> guards th s = 0 \<and> s \<notin> retirement_guards th)"

definition session_ok :: "query_process \<Rightarrow> nat \<Rightarrow> bool" where
  "session_ok p s \<longleftrightarrow> finite (in_activity p s) \<and> active (sessions p s) = card (in_activity p s) \<and>
     internal_failure (sessions p s) = None \<and>
     (if retiring (sessions p s) then \<exists>t. retires p s = {t} else retires p s = {}) \<and>
     (\<forall>t. s \<in> retirement_guards (threads p t) \<longrightarrow> active (sessions p s) = 0)"

definition process_ok :: "query_process \<Rightarrow> bool" where
  "process_ok p \<longleftrightarrow> (\<forall>t. thread_ok (threads p t)) \<and> (\<forall>s. session_ok p s)"

text \<open>
  The rules of the three ways a step changes a set of threads: the counted thread joins, leaves, or the
  set stays.
\<close>

lemma in_activity_update:
  "in_activity (update_process s inner t th p) s' =
     (if 0 < guards th s' then insert t (in_activity p s') else in_activity p s' - {t})"
  by (auto simp: in_activity_def update_process_def)

lemma retires_update:
  "retires (update_process s inner t th p) s' =
     (if draining th = Some s' \<or> s' \<in> retirement_guards th then insert t (retires p s') else retires p s' - {t})"
  by (auto simp: retires_def update_process_def)

lemma sessions_update [simp]: "sessions (update_process s inner t th p) = (sessions p)(s := inner)"
  and threads_update [simp]: "threads (update_process s inner t th p) = (threads p)(t := th)"
  by (simp_all add: update_process_def)

lemma mem_in_activity: "t \<in> in_activity p s \<longleftrightarrow> 0 < guards (threads p t) s"
  by (simp add: in_activity_def)

lemma mem_retires: "t \<in> retires p s \<longleftrightarrow> draining (threads p t) = Some s \<or> s \<in> retirement_guards (threads p t)"
  by (simp add: retires_def)

lemma thread_okD:
  assumes "thread_ok th"
  shows "wf_depths (activity_depths th)" "depth s (activity_depths th) = guards th s"
    "draining th = Some s \<Longrightarrow> guards th s = 0" "draining th = Some s \<Longrightarrow> s \<notin> retirement_guards th"
  using assms by (simp_all add: thread_ok_def)

lemma process_ok_fresh: "process_ok fresh_process"
  by (auto simp: process_ok_def thread_ok_def session_ok_def fresh_process_def fresh_thread_def fresh_session_def
      in_activity_def retires_def wf_depths_def depth_def)

text \<open>The operations on a thread that satisfies the invariant.\<close>

lemma enter_activity_ok:
  assumes "thread_ok th" "enter_activity s (activity_depths th) inner = Some (ds, inner')"
  shows "thread_ok (th\<lparr>activity_depths := ds, guards := (guards th)(s := guards th s + 1)\<rparr>) \<or> draining th = Some s"
    and "inner' = (if 0 < guards th s then inner else inner\<lparr>active := active inner + 1\<rparr>)"
    and "guards th s = 0 \<Longrightarrow> \<not> retiring inner"
  using assms activity.wf_enter [OF thread_okD(1) [OF assms(1)]] activity.depth_enter [OF thread_okD(1) [OF assms(1)]]
    activity.active_iff [OF thread_okD(1) [OF assms(1)], of s]
  by (auto simp: enter_activity_def Let_def thread_ok_def split: if_splits)

lemma drop_activity_ok:
  assumes "thread_ok th" "0 < guards th s" "drop_activity s (activity_depths th) inner = (ds, inner')"
    and "0 < active inner"
  shows "thread_ok (th\<lparr>activity_depths := ds, guards := (guards th)(s := guards th s - 1)\<rparr>)"
    and "inner' = (if guards th s = 1 then inner\<lparr>active := active inner - 1\<rparr> else inner)"
  using assms(2-4) activity.wf_leave [OF thread_okD(1) [OF assms(1)], of s]
    activity.depth_leave [OF thread_okD(1) [OF assms(1)], of s]
    activity.leave_ok [OF thread_okD(1) [OF assms(1)], of s] assms(1)
  by (cases "leave_query_activity s (activity_depths th)";
      auto simp: drop_activity_def thread_ok_def split: sum.splits if_splits)+

lemma session_ok_frame:
  assumes "session_ok p s'" "s' \<noteq> s" "guards th s' = guards (threads p t) s'"
    and "draining th = Some s' \<longleftrightarrow> draining (threads p t) = Some s'"
    and "s' \<in> retirement_guards th \<longleftrightarrow> s' \<in> retirement_guards (threads p t)"
  shows "session_ok (update_process s inner t th p) s'"
proof -
  have "in_activity (update_process s inner t th p) s' = in_activity p s'"
    using assms(3) by (auto simp: in_activity_update mem_in_activity)
  moreover have "retires (update_process s inner t th p) s' = retires p s'"
    using assms(4,5) by (auto simp: retires_update mem_retires)
  moreover have "s' \<in> retirement_guards (threads (update_process s inner t th p) u) \<longleftrightarrow>
      s' \<in> retirement_guards (threads p u)" for u
    using assms(5) by simp
  ultimately show ?thesis using assms(1,2) by (auto simp only: session_ok_def sessions_update fun_upd_apply if_False)
qed

lemma process_ok_update:
  assumes "process_ok p" "thread_ok th" "session_ok (update_process s inner t th p) s"
    and "\<And>s'. s' \<noteq> s \<Longrightarrow> guards th s' = guards (threads p t) s' \<and>
      (draining th = Some s' \<longleftrightarrow> draining (threads p t) = Some s') \<and>
      (s' \<in> retirement_guards th \<longleftrightarrow> s' \<in> retirement_guards (threads p t))"
  shows "process_ok (update_process s inner t th p)"
  unfolding process_ok_def
proof (intro conjI allI)
  fix u
  show "thread_ok (threads (update_process s inner t th p) u)"
    using assms(1,2) by (simp add: process_ok_def)
next
  fix s'
  show "session_ok (update_process s inner t th p) s'"
    using assms(1,3) assms(4) [of s'] session_ok_frame [of p s' s th t inner]
    by (cases "s' = s") (auto simp: process_ok_def)
qed

lemma session_okD:
  assumes "session_ok p s"
  shows "finite (in_activity p s)" "active (sessions p s) = card (in_activity p s)"
    "internal_failure (sessions p s) = None" "t \<in> in_activity p s \<Longrightarrow> 0 < active (sessions p s)"
    "t \<in> retires p s \<Longrightarrow> retiring (sessions p s)" "t \<in> retires p s \<Longrightarrow> retires p s = {t}"
    "s \<in> retirement_guards (threads p t) \<Longrightarrow> in_activity p s = {}"
  using assms unfolding session_ok_def by (auto simp: card_gt_0_iff split: if_splits)

lemma session_ok_enter:
  assumes ok: "session_ok p s" and th: "th = threads p t" and nd: "draining th \<noteq> Some s"
    and i: "inner = (if 0 < guards th s then sessions p s else (sessions p s)\<lparr>active := active (sessions p s) + 1\<rparr>)"
    and r: "guards th s = 0 \<Longrightarrow> \<not> retiring (sessions p s)"
  shows "session_ok (update_process s inner t
    (th\<lparr>activity_depths := ds, guards := (guards th)(s := guards th s + 1)\<rparr>) p) s" (is "session_ok ?q s")
proof -
  have A: "in_activity ?q s = insert t (in_activity p s)" by (simp add: in_activity_update)
  have R: "retires ?q s = retires p s" using th by (auto simp: retires_update mem_retires)
  show ?thesis
  proof (cases "0 < guards th s")
    case True
    then have "insert t (in_activity p s) = in_activity p s" using th by (auto simp: mem_in_activity)
    with ok th True i show ?thesis unfolding session_ok_def A R by auto
  next
    case False
    then have n: "t \<notin> in_activity p s" "\<not> retiring (sessions p s)" using th r by (simp_all add: mem_in_activity)
    then have "retires p s = {}" using ok by (simp add: session_ok_def)
    then have "s \<notin> retirement_guards (threads p u)" for u by (auto simp: retires_def)
    with n ok th False i \<open>retires p s = {}\<close> show ?thesis unfolding session_ok_def A R by auto
  qed
qed

lemma session_ok_drop:
  assumes ok: "session_ok p s" and th: "th = threads p t" and g: "0 < guards th s"
    and i: "inner = (if guards th s = 1 then (sessions p s)\<lparr>active := active (sessions p s) - 1\<rparr> else sessions p s)"
  shows "session_ok (update_process s inner t
    (th\<lparr>activity_depths := ds, guards := (guards th)(s := guards th s - 1)\<rparr>) p) s" (is "session_ok ?q s")
proof -
  have t: "t \<in> in_activity p s" using g th by (simp add: mem_in_activity)
  have A: "in_activity ?q s = (if guards th s = 1 then in_activity p s - {t} else in_activity p s)"
    using g t by (auto simp: in_activity_update)
  have R: "retires ?q s = retires p s" using th by (auto simp: retires_update mem_retires)
  have "s \<notin> retirement_guards (threads p u)" for u
    using session_okD(7) [OF ok, of u] t by auto
  with ok th i t show ?thesis unfolding session_ok_def A R by auto
qed

lemma session_ok_close:
  assumes ok: "session_ok p s" and th: "th = threads p t" and r: "\<not> retiring (sessions p s)"
  shows "session_ok (update_process s ((sessions p s)\<lparr>retiring := True\<rparr>) t (th\<lparr>draining := Some s\<rparr>) p) s"
    (is "session_ok ?q s")
proof -
  have A: "in_activity ?q s = in_activity p s" using th by (auto simp: in_activity_update mem_in_activity)
  have e: "retires p s = {}" using ok r by (simp add: session_ok_def)
  then have R: "retires ?q s = {t}" by (simp add: retires_update)
  have "s \<notin> retirement_guards (threads p u)" for u using e by (auto simp: retires_def)
  with ok th show ?thesis unfolding session_ok_def A R by auto
qed

lemma session_ok_grant:
  assumes ok: "session_ok p s" and th: "th = threads p t" and d: "draining th = Some s" "active (sessions p s) = 0"
  shows "session_ok (update_process s (sessions p s) t
    (th\<lparr>draining := None, retirement_guards := insert s (retirement_guards th)\<rparr>) p) s" (is "session_ok ?q s")
proof -
  have A: "in_activity ?q s = in_activity p s" using th by (auto simp: in_activity_update mem_in_activity)
  have t: "t \<in> retires p s" using th d by (simp add: mem_retires)
  then have R: "retires ?q s = {t}" using session_okD(6) [OF ok t] by (simp add: retires_update)
  with ok th d session_okD(5) [OF ok t] show ?thesis unfolding session_ok_def A R by auto
qed

lemma session_ok_release:
  assumes ok: "session_ok p s" and th: "th = threads p t" and d: "draining th \<noteq> Some s" "s \<in> retirement_guards th"
  shows "session_ok (update_process s (drop_retirement (sessions p s)) t
    (th\<lparr>retirement_guards := retirement_guards th - {s}\<rparr>) p) s" (is "session_ok ?q s")
proof -
  have A: "in_activity ?q s = in_activity p s" using th by (auto simp: in_activity_update mem_in_activity)
  have t: "t \<in> retires p s" using th d by (simp add: mem_retires)
  have R: "retires ?q s = {}" using session_okD(6) [OF ok t] d by (simp add: retires_update)
  then have "s \<notin> retirement_guards (threads ?q u)" for u unfolding retires_def by blast
  with ok th session_okD(5) [OF ok t] show ?thesis
    unfolding session_ok_def A R by (auto simp: drop_retirement_def)
qed

lemma process_step_ok: "process_step p q \<Longrightarrow> process_ok p \<Longrightarrow> process_ok q"
proof (induction rule: process_step.induct)
  case (enter th p t s ds inner)
  have ok: "thread_ok th" "session_ok p s" using enter by (simp_all add: process_ok_def)
  note e = enter_activity_ok [OF ok(1) enter.hyps(3)]
  show ?case
    using enter.prems enter.hyps(1,2) e(1) session_ok_enter [OF ok(2) enter.hyps(1) _ e(2,3), of ds]
    by (intro process_ok_update) auto
next
  case (drop th p t s ds inner)
  have ok: "thread_ok th" "session_ok p s" using drop by (simp_all add: process_ok_def)
  have "t \<in> in_activity p s" using drop.hyps by (simp add: mem_in_activity)
  note e = drop_activity_ok [OF ok(1) drop.hyps(3,4) session_okD(4) [OF ok(2) this]]
  show ?case
    using drop.prems drop.hyps(1) e(1) session_ok_drop [OF ok(2) drop.hyps(1,3) e(2), of ds]
    by (intro process_ok_update) auto
next
  case (close th p t s inner)
  have ok: "thread_ok th" "session_ok p s" using close by (simp_all add: process_ok_def)
  have c: "guards th s = 0" "\<not> retiring (sessions p s)" "inner = (sessions p s)\<lparr>retiring := True\<rparr>"
    using close.hyps(3) activity.active_iff [OF thread_okD(1) [OF ok(1)], of s] thread_okD(2) [OF ok(1), of s]
    by (auto simp: close_admission_def split: if_splits)
  have "retires p s = {}" using ok(2) c(2) by (simp add: session_ok_def)
  then have "s \<notin> retirement_guards th" using close.hyps(1) by (auto simp: retires_def)
  with c ok close show ?case
    by (intro process_ok_update session_ok_close) (auto simp: thread_ok_def intro: session_ok_close)
next
  case (grant th p t s)
  have ok: "thread_ok th" "session_ok p s" using grant by (simp_all add: process_ok_def)
  show ?case
    using grant.prems grant.hyps ok session_ok_grant [OF ok(2) grant.hyps(1,2)]
    by (intro process_ok_update) (auto simp: thread_ok_def drained_def)
next
  case (release th p t s)
  have ok: "thread_ok th" "session_ok p s" using release by (simp_all add: process_ok_def)
  show ?case
    using release.prems release.hyps ok session_ok_release [OF ok(2) release.hyps(1) _ release.hyps(3)]
    by (intro process_ok_update) (auto simp: thread_ok_def)
qed

lemma process_steps_ok: "process_step\<^sup>*\<^sup>* p q \<Longrightarrow> process_ok p \<Longrightarrow> process_ok q"
  by (induction rule: rtranclp_induct) (auto intro: process_step_ok)

lemma process_reachable_ok: "process_reachable p \<Longrightarrow> process_ok p"
  using process_steps_ok process_ok_fresh by (auto simp: process_reachable_def)

subsection \<open>Progress of a retirement\<close>

text \<open>The guards still to be dropped before the drain of a session ends.\<close>

definition pending_guards :: "query_process \<Rightarrow> nat \<Rightarrow> nat" where
  "pending_guards p s = (\<Sum>t \<in> in_activity p s. guards (threads p t) s)"

lemma drop_enabled:
  assumes ok: "process_ok p" and t: "t \<in> in_activity p s" "draining (threads p t) = None"
  obtains q where "process_step p q" "pending_guards q s < pending_guards p s"
    "in_activity q s \<subseteq> in_activity p s" "\<And>u. draining (threads q u) = draining (threads p u)"
    "\<And>u. retirement_guards (threads q u) = retirement_guards (threads p u)"
proof -
  let ?th = "threads p t"
  obtain ds inner where d: "drop_activity s (activity_depths ?th) (sessions p s) = (ds, inner)"
    by (cases "drop_activity s (activity_depths ?th) (sessions p s)")
  let ?q = "update_process s inner t (?th\<lparr>activity_depths := ds, guards := (guards ?th)(s := guards ?th s - 1)\<rparr>) p"
  have g: "0 < guards ?th s" using t by (simp add: mem_in_activity)
  have fin: "finite (in_activity p s)" using ok by (auto simp: process_ok_def session_ok_def)
  have sub: "in_activity ?q s \<subseteq> in_activity p s" using t by (auto simp: in_activity_update)
  have "pending_guards ?q s \<le> (\<Sum>u \<in> in_activity p s. guards (threads ?q u) s)"
    unfolding pending_guards_def by (rule sum_mono2 [OF fin sub]) simp
  also have "\<dots> < pending_guards p s"
    unfolding pending_guards_def using g t by (intro sum_strict_mono_ex1 [OF fin]) auto
  finally have less: "pending_guards ?q s < pending_guards p s" .
  show thesis
    by (rule that [OF process_step.drop [OF refl t(2) g d] less sub]) simp_all
qed

lemma retirement_granted_aux:
  assumes "process_ok p" "draining (threads p t) = Some s"
    and "\<And>u. u \<in> in_activity p s \<Longrightarrow> draining (threads p u) = None"
  shows "\<exists>q. process_step\<^sup>*\<^sup>* p q \<and> s \<in> retirement_guards (threads q t)"
  using assms
proof (induction "pending_guards p s" arbitrary: p rule: less_induct)
  case less
  have sok: "session_ok p s" using less.prems(1) by (simp add: process_ok_def)
  show ?case
  proof (cases "in_activity p s = {}")
    case True
    then have "drained (sessions p s)" using session_okD(2) [OF sok] by (simp add: drained_def)
    note q = process_step.grant [OF refl less.prems(2) this]
    show ?thesis by (rule exI, rule conjI, rule r_into_rtranclp, rule q) simp
  next
    case False
    then obtain u where "u \<in> in_activity p s" by auto
    from drop_enabled [OF less.prems(1) this less.prems(3) [OF this]]
    obtain q where q: "process_step p q" "pending_guards q s < pending_guards p s"
      "in_activity q s \<subseteq> in_activity p s" "\<And>u. draining (threads q u) = draining (threads p u)"
      by metis
    have "\<exists>r. process_step\<^sup>*\<^sup>* q r \<and> s \<in> retirement_guards (threads r t)"
      using less.prems q(3,4) by (intro less.hyps [OF q(2)] process_step_ok [OF q(1)]) auto
    with q(1) show ?thesis by (meson converse_rtranclp_into_rtranclp)
  qed
qed

text \<open>A process in which thread 0 is inside a nested activity of session 0 that thread 1 drains.\<close>

definition draining_example :: query_process where
  "draining_example = \<lparr>sessions = (\<lambda>_. fresh_session)(0 := \<lparr>active = 1, retiring = True, internal_failure = None\<rparr>),
     threads = (\<lambda>_. fresh_thread)
       (0 := fresh_thread\<lparr>activity_depths := [(0, 2)], guards := (\<lambda>_. 0)(0 := 2)\<rparr>,
        1 := fresh_thread\<lparr>draining := Some 0\<rparr>)\<rparr>"

lemma draining_example_reachable: "process_reachable draining_example"
proof -
  let ?s1 = "fresh_session\<lparr>active := 1\<rparr>"
  let ?t1 = "fresh_thread\<lparr>activity_depths := [(0, 1)], guards := (\<lambda>_. 0)(0 := 1)\<rparr>"
  let ?t2 = "fresh_thread\<lparr>activity_depths := [(0, 2)], guards := (\<lambda>_. 0)(0 := 2)\<rparr>"
  let ?p1 = "update_process 0 ?s1 0 ?t1 fresh_process"
  let ?p2 = "update_process 0 ?s1 0 ?t2 ?p1"
  let ?p3 = "update_process 0 (?s1\<lparr>retiring := True\<rparr>) 1 (fresh_thread\<lparr>draining := Some 0\<rparr>) ?p2"
  have 1: "process_step fresh_process ?p1"
    using process_step.enter [of fresh_thread fresh_process 0 0 "[(0, 1)]" ?s1]
    by (simp add: fresh_process_def fresh_thread_def fresh_session_def enter_activity_def enter_query_activity_def
        query_activity_is_active_def)
  have 2: "process_step ?p1 ?p2"
    using process_step.enter [of ?t1 ?p1 0 0 "[(0, 2)]" ?s1]
    by (simp add: fresh_thread_def enter_activity_def enter_query_activity_def query_activity_is_active_def numeral_2_eq_2)
  have 3: "process_step ?p2 ?p3"
    using process_step.close [of fresh_thread ?p2 1 0 "?s1\<lparr>retiring := True\<rparr>"]
    by (simp add: fresh_process_def fresh_thread_def fresh_session_def close_admission_def query_activity_is_active_def)
  have "?p3 = draining_example"
    by (simp add: draining_example_def update_process_def fresh_process_def fresh_session_def fun_upd_twist)
  with 3 have "process_step ?p2 draining_example" by simp
  with 1 2 show ?thesis unfolding process_reachable_def
    by (intro rtranclp.rtrancl_into_rtrancl [OF rtranclp.rtrancl_into_rtrancl
          [OF rtranclp.rtrancl_into_rtrancl [OF rtranclp.rtrancl_refl]]])
qed

text \<open>
  C34. In every reachable state of a process, whatever its threads interleave: the count of a session is
  the number of threads that own one of its activity guards, no internal failure is recorded (no guard
  finds its depth or the count exhausted, no retirement is released twice), at most one thread retires a
  session, and while a thread owns its retirement guard no thread is inside an activity of it.
\<close>

theorem retirement_excludes_activity:
  assumes "process_reachable p"
  shows "active (sessions p s) = card {t. 0 < guards (threads p t) s} \<and>
    internal_failure (sessions p s) = None \<and>
    (\<forall>t u. t \<in> retires p s \<longrightarrow> u \<in> retires p s \<longrightarrow> t = u) \<and>
    (\<forall>t u. s \<in> retirement_guards (threads p t) \<longrightarrow>
       guards (threads p u) s = 0 \<and> \<not> query_activity_is_active s (activity_depths (threads p u)))"
proof -
  have ok: "session_ok p s" "thread_ok (threads p u)" for u
    using process_reachable_ok [OF assms] by (simp_all add: process_ok_def)
  have "t = u" if "t \<in> retires p s" "u \<in> retires p s" for t u
    using session_okD(6) [OF ok(1) that(1)] that(2) by auto
  moreover have g: "guards (threads p u) s = 0" if "s \<in> retirement_guards (threads p t)" for t u
    using session_okD(7) [OF ok(1) that] by (auto simp: in_activity_def)
  moreover have "\<not> query_activity_is_active s (activity_depths (threads p u))"
    if "s \<in> retirement_guards (threads p t)" for t u
    using activity.active_iff [OF thread_okD(1) [OF ok(2) [of u]], of s] thread_okD(2) [OF ok(2) [of u], of s] g [OF that]
    by simp
  ultimately show ?thesis using session_okD(2,3) [OF ok(1)] unfolding in_activity_def by blast
qed

theorem retirement_excludes_activity_witness:
  "active (sessions draining_example 0) = card {t. 0 < guards (threads draining_example t) 0} \<and>
   active (sessions draining_example 0) = 1"
  using retirement_excludes_activity [OF draining_example_reachable, of 0] by (simp add: draining_example_def)

text \<open>
  C35. A retirement that waits only for threads that do not themselves wait for a retirement can be granted:
  in a reachable state where a thread drains a session, and no thread inside an activity of that session is
  itself draining, the guards can be dropped one by one until the draining thread owns its retirement guard.
\<close>

theorem retirement_can_be_granted:
  assumes "process_reachable p" "draining (threads p t) = Some s"
    and "\<forall>u \<in> in_activity p s. draining (threads p u) = None"
  shows "\<exists>q. process_step\<^sup>*\<^sup>* p q \<and> s \<in> retirement_guards (threads q t)"
  using retirement_granted_aux [OF process_reachable_ok [OF assms(1)] assms(2)] assms(3) by blast

theorem retirement_can_be_granted_witness:
  "\<exists>q. process_step\<^sup>*\<^sup>* draining_example q \<and> 0 \<in> retirement_guards (threads q 1)"
  by (rule retirement_can_be_granted [OF draining_example_reachable])
    (simp_all add: draining_example_def in_activity_def fresh_thread_def)

section \<open>The process memory budget\<close>

definition MAX_PARALLEL_LLVM_TASKS :: nat where
  "MAX_PARALLEL_LLVM_TASKS = 4"

definition LLVM_INCREMENTAL_LANE_MEMORY_BYTES :: nat where
  "LLVM_INCREMENTAL_LANE_MEMORY_BYTES = 512 * 1024 * 1024"

definition LLVM_MEMORY_HEADROOM_BYTES :: nat where
  "LLVM_MEMORY_HEADROOM_BYTES = 512 * 1024 * 1024"

definition memory_pressure_allows :: "nat \<Rightarrow> nat option \<Rightarrow> nat option \<Rightarrow> bool" where
  "memory_pressure_allows busy minimum available \<longleftrightarrow>
     busy = 0 \<or> (case (minimum, available) of (Some m, Some a) \<Rightarrow> m \<le> a | _ \<Rightarrow> True)"

definition memory_task_capacity :: "nat \<Rightarrow> nat option \<Rightarrow> nat" where
  "memory_task_capacity available_cpus memory_limit =
     (let cpu_capacity = min MAX_PARALLEL_LLVM_TASKS (max 1 available_cpus);
          memory_capacity = (case memory_limit of
              Some limit \<Rightarrow> max 1 (limit div 2 div LLVM_INCREMENTAL_LANE_MEMORY_BYTES)
            | None \<Rightarrow> 1)
      in max 1 (min cpu_capacity memory_capacity))"

definition effective_bytes :: "nat option \<Rightarrow> nat option \<Rightarrow> nat option" where
  "effective_bytes system cgroup =
     (case (system, cgroup) of (Some s, Some c) \<Rightarrow> Some (min s c) | (Some s, None) \<Rightarrow> Some s | (None, c) \<Rightarrow> c)"

record memory_budget =
  capacity :: nat
  minimum_available_bytes :: "nat option"
  active_permits :: nat
  peak_active :: nat
  failure :: "lease_ice option"

definition memory_budget_new :: "nat \<Rightarrow> nat option \<Rightarrow> memory_budget" where
  "memory_budget_new cap minimum =
     \<lparr>capacity = max 1 cap, minimum_available_bytes = minimum, active_permits = 0, peak_active = 0, failure = None\<rparr>"

definition llvm_memory_budget :: "nat \<Rightarrow> nat option \<Rightarrow> memory_budget" where
  "llvm_memory_budget available_parallelism memory_limit =
     memory_budget_new (memory_task_capacity available_parallelism memory_limit)
       (Some (LLVM_INCREMENTAL_LANE_MEMORY_BYTES + LLVM_MEMORY_HEADROOM_BYTES))"

definition budget_record_failure :: "lease_ice \<Rightarrow> memory_budget \<Rightarrow> memory_budget" where
  "budget_record_failure ice mb = (if failure mb = None then mb\<lparr>failure := Some ice\<rparr> else mb)"

text \<open>
  One pass of \<^verbatim>\<open>acquire\<close>: the failure check, then the loop condition under the lock with the available
  memory read at that moment. \<open>Waits\<close> is the wait on \<^verbatim>\<open>ready\<close>, after which the pass is repeated with
  \<open>waited\<close> set.
\<close>

datatype acquire_outcome = Waits | Acquired bool | Unusable lease_ice

definition acquire ::
  "nat \<Rightarrow> nat option \<Rightarrow> bool \<Rightarrow> depths \<Rightarrow> memory_budget \<Rightarrow> acquire_outcome \<times> depths \<times> memory_budget" where
  "acquire identity available waited ds mb =
     (case failure mb of
        Some ice \<Rightarrow> (Unusable ice, ds, mb)
      | None \<Rightarrow>
          let nested = memory_budget_is_active identity ds
          in if nested then (Acquired waited, enter_memory_budget identity ds, mb)
             else if capacity mb \<le> active_permits mb \<or>
               \<not> memory_pressure_allows (active_permits mb) (minimum_available_bytes mb) available
             then (Waits, ds, mb)
             else (Acquired waited, enter_memory_budget identity ds,
                   mb\<lparr>active_permits := active_permits mb + 1,
                      peak_active := max (peak_active mb) (active_permits mb + 1)\<rparr>))"

definition drop_permit :: "nat \<Rightarrow> depths \<Rightarrow> memory_budget \<Rightarrow> depths \<times> memory_budget" where
  "drop_permit identity ds mb =
     (case leave_memory_budget identity ds of
        (ds', Inl ice) \<Rightarrow> (ds', budget_record_failure ice mb)
      | (ds', Inr outermost) \<Rightarrow>
          if \<not> outermost then (ds', mb)
          else if active_permits mb = 0 then (ds', budget_record_failure CountUnderflow mb)
          else (ds', mb\<lparr>active_permits := active_permits mb - 1\<rparr>))"

text \<open>
  Threads sharing the budget at address \<open>b\<close>. A permit is not \<^verbatim>\<open>Send\<close>, so a thread drops only its own.
\<close>

record permit_thread =
  budget_depths :: depths
  permits :: nat
  has_waited :: bool

record permit_process =
  the_budget :: memory_budget
  permit_threads :: "nat \<Rightarrow> permit_thread"

definition permit_process_new :: "memory_budget \<Rightarrow> permit_process" where
  "permit_process_new mb =
     \<lparr>the_budget = mb, permit_threads = (\<lambda>_. \<lparr>budget_depths = [], permits = 0, has_waited = False\<rparr>)\<rparr>"

definition update_permits :: "memory_budget \<Rightarrow> nat \<Rightarrow> permit_thread \<Rightarrow> permit_process \<Rightarrow> permit_process" where
  "update_permits mb t th p = p\<lparr>the_budget := mb, permit_threads := (permit_threads p)(t := th)\<rparr>"

inductive permit_step :: "nat \<Rightarrow> permit_process \<Rightarrow> permit_process \<Rightarrow> bool" for b where
  wait: "th = permit_threads p t \<Longrightarrow>
    acquire b available (has_waited th) (budget_depths th) (the_budget p) = (Waits, ds, mb) \<Longrightarrow>
    permit_step b p (update_permits mb t (th\<lparr>budget_depths := ds, has_waited := True\<rparr>) p)"
| acquired: "th = permit_threads p t \<Longrightarrow>
    acquire b available (has_waited th) (budget_depths th) (the_budget p) = (Acquired w, ds, mb) \<Longrightarrow>
    permit_step b p (update_permits mb t
      (th\<lparr>budget_depths := ds, permits := permits th + 1, has_waited := False\<rparr>) p)"
| released: "th = permit_threads p t \<Longrightarrow> \<not> has_waited th \<Longrightarrow> 0 < permits th \<Longrightarrow>
    drop_permit b (budget_depths th) (the_budget p) = (ds, mb) \<Longrightarrow>
    permit_step b p (update_permits mb t (th\<lparr>budget_depths := ds, permits := permits th - 1\<rparr>) p)"

definition permit_reachable :: "nat \<Rightarrow> nat \<Rightarrow> nat option \<Rightarrow> permit_process \<Rightarrow> bool" where
  "permit_reachable b cap minimum p \<longleftrightarrow>
     (permit_step b)\<^sup>*\<^sup>* (permit_process_new (memory_budget_new cap minimum)) p"

subsection \<open>The invariant\<close>

definition holders :: "permit_process \<Rightarrow> nat set" where
  "holders p = {t. 0 < permits (permit_threads p t)}"

definition permit_thread_ok :: "nat \<Rightarrow> permit_thread \<Rightarrow> bool" where
  "permit_thread_ok b th \<longleftrightarrow> wf_depths (budget_depths th) \<and> depth b (budget_depths th) = permits th \<and>
     (has_waited th \<longrightarrow> permits th = 0)"

definition budget_ok :: "nat \<Rightarrow> nat set \<Rightarrow> memory_budget \<Rightarrow> bool" where
  "budget_ok cap H mb \<longleftrightarrow> finite H \<and> active_permits mb = card H \<and> capacity mb = max 1 cap \<and>
     active_permits mb \<le> peak_active mb \<and> peak_active mb \<le> capacity mb \<and> failure mb = None"

definition permit_ok :: "nat \<Rightarrow> nat \<Rightarrow> permit_process \<Rightarrow> bool" where
  "permit_ok b cap p \<longleftrightarrow> (\<forall>t. permit_thread_ok b (permit_threads p t)) \<and> budget_ok cap (holders p) (the_budget p)"

lemma update_permits_simps [simp]:
  "the_budget (update_permits mb t th p) = mb"
  "permit_threads (update_permits mb t th p) = (permit_threads p)(t := th)"
  by (simp_all add: update_permits_def)

lemma holders_update:
  "holders (update_permits mb t th p) = (if 0 < permits th then insert t (holders p) else holders p - {t})"
  by (auto simp: holders_def)

lemma permit_ok_update:
  assumes "permit_ok b cap p" "permit_thread_ok b th" "budget_ok cap (holders (update_permits mb t th p)) mb"
  shows "permit_ok b cap (update_permits mb t th p)"
  using assms by (simp add: permit_ok_def)

lemma permit_ok_new: "permit_ok b cap (permit_process_new (memory_budget_new cap minimum))"
  by (simp add: permit_ok_def permit_thread_ok_def budget_ok_def holders_def permit_process_new_def
      memory_budget_new_def wf_depths_def depth_def)

lemma acquire_Waits:
  assumes "permit_thread_ok b th" "acquire b av w (budget_depths th) mb = (Waits, ds, mb')"
  shows "permits th = 0" "ds = budget_depths th" "mb' = mb" "0 < capacity mb \<Longrightarrow> 0 < active_permits mb"
  using assms budget.active_iff [of "budget_depths th" b]
  by (auto simp: acquire_def Let_def permit_thread_ok_def memory_pressure_allows_def split: option.splits if_splits)

lemma acquire_Acquired:
  assumes "permit_thread_ok b th" "acquire b av w (budget_depths th) mb = (Acquired w', ds, mb')"
  shows "w' = w" "ds = enter_memory_budget b (budget_depths th)"
    "mb' = (if 0 < permits th then mb
       else mb\<lparr>active_permits := active_permits mb + 1, peak_active := max (peak_active mb) (active_permits mb + 1)\<rparr>)"
    "permits th = 0 \<Longrightarrow> active_permits mb < capacity mb"
  using assms budget.active_iff [of "budget_depths th" b]
  by (auto simp: acquire_def Let_def permit_thread_ok_def split: option.splits if_splits)

lemma drop_permit_ok:
  assumes "permit_thread_ok b th" "0 < permits th" "0 < active_permits mb"
    "drop_permit b (budget_depths th) mb = (ds, mb')"
  shows "wf_depths ds" "depth b ds = permits th - 1"
    "mb' = (if permits th = 1 then mb\<lparr>active_permits := active_permits mb - 1\<rparr> else mb)"
  using assms budget.wf_leave [of "budget_depths th" b] budget.depth_leave [of "budget_depths th" b b]
    budget.leave_ok [of "budget_depths th" b]
  by (cases "leave_memory_budget b (budget_depths th)";
      auto simp: drop_permit_def permit_thread_ok_def split: sum.splits if_splits)+

lemma permit_step_ok: "permit_step b p q \<Longrightarrow> permit_ok b cap p \<Longrightarrow> permit_ok b cap q"
proof (induction rule: permit_step.induct)
  case (wait th p t av ds mb)
  have ok: "permit_thread_ok b th" using wait by (simp add: permit_ok_def)
  note a = acquire_Waits [OF ok wait.hyps(2)]
  have "holders (update_permits mb t (th\<lparr>budget_depths := ds, has_waited := True\<rparr>) p) = holders p"
    using a(1) wait.hyps(1) by (auto simp: holders_update holders_def)
  with wait.prems ok a show ?case
    by (intro permit_ok_update) (auto simp: permit_ok_def permit_thread_ok_def)
next
  case (acquired th p t av w ds mb)
  have ok: "permit_thread_ok b th" "budget_ok cap (holders p) (the_budget p)"
    using acquired by (simp_all add: permit_ok_def)
  note a = acquire_Acquired [OF ok(1) acquired.hyps(2)]
  have wf: "wf_depths (budget_depths th)" using ok by (simp add: permit_thread_ok_def)
  let ?th = "th\<lparr>budget_depths := ds, permits := permits th + 1, has_waited := False\<rparr>"
  have "permit_thread_ok b ?th"
    using ok a(2) budget.wf_enter [OF wf] budget.depth_enter [OF wf] by (simp add: permit_thread_ok_def)
  moreover have "budget_ok cap (holders (update_permits mb t ?th p)) mb"
  proof (cases "0 < permits th")
    case True
    then have "insert t (holders p) = holders p" using acquired.hyps(1) by (auto simp: holders_def)
    with True ok a show ?thesis by (simp add: holders_update)
  next
    case False
    then have "t \<notin> holders p" using acquired.hyps(1) by (simp add: holders_def)
    with False ok a show ?thesis by (auto simp: holders_update budget_ok_def)
  qed
  ultimately show ?case using acquired.prems by (rule permit_ok_update [rotated])
next
  case (released th p t ds mb)
  have ok: "permit_thread_ok b th" "budget_ok cap (holders p) (the_budget p)"
    using released by (simp_all add: permit_ok_def)
  have t: "t \<in> holders p" using released.hyps by (simp add: holders_def)
  then have "0 < active_permits (the_budget p)" using ok(2) by (auto simp: budget_ok_def card_gt_0_iff)
  note a = drop_permit_ok [OF ok(1) released.hyps(3) this released.hyps(4)]
  let ?th = "th\<lparr>budget_depths := ds, permits := permits th - 1\<rparr>"
  have "permit_thread_ok b ?th" using ok(1) a(1,2) by (auto simp: permit_thread_ok_def)
  moreover have "budget_ok cap (holders (update_permits mb t ?th p)) mb"
    using ok(2) a(3) t released.hyps(3) by (auto simp: holders_update budget_ok_def insert_absorb)
  ultimately show ?case using released.prems by (rule permit_ok_update [rotated])
qed

lemma permit_reachable_ok: "permit_reachable b cap minimum p \<Longrightarrow> permit_ok b cap p"
  unfolding permit_reachable_def
  by (induction rule: rtranclp_induct) (auto intro: permit_step_ok permit_ok_new)

lemma release_enabled:
  assumes ok: "permit_ok b cap p" and t: "t \<in> holders p"
  obtains q where "permit_step b p q" "(\<Sum>u \<in> holders q. permits (permit_threads q u)) < (\<Sum>u \<in> holders p. permits (permit_threads p u))"
    "\<And>u. u \<notin> holders p \<Longrightarrow> permit_threads q u = permit_threads p u"
    "holders q \<subseteq> holders p"
proof -
  let ?th = "permit_threads p t"
  obtain ds mb where d: "drop_permit b (budget_depths ?th) (the_budget p) = (ds, mb)"
    by (cases "drop_permit b (budget_depths ?th) (the_budget p)")
  let ?q = "update_permits mb t (?th\<lparr>budget_depths := ds, permits := permits ?th - 1\<rparr>) p"
  have g: "0 < permits ?th" "\<not> has_waited ?th" and fin: "finite (holders p)"
    using t ok by (auto simp: holders_def permit_ok_def permit_thread_ok_def budget_ok_def)
  have sub: "holders ?q \<subseteq> holders p" using t by (auto simp: holders_update)
  have "(\<Sum>u \<in> holders ?q. permits (permit_threads ?q u)) \<le> (\<Sum>u \<in> holders p. permits (permit_threads ?q u))"
    by (rule sum_mono2 [OF fin sub]) simp
  also have "\<dots> < (\<Sum>u \<in> holders p. permits (permit_threads p u))"
    using g t by (intro sum_strict_mono_ex1 [OF fin]) auto
  finally have less: "(\<Sum>u \<in> holders ?q. permits (permit_threads ?q u)) < (\<Sum>u \<in> holders p. permits (permit_threads p u))" .
  show thesis using t by (intro that [OF permit_step.released [OF refl g(2,1) d] less _ sub]) auto
qed

lemma all_permits_released:
  assumes "permit_ok b cap p"
  shows "\<exists>q. (permit_step b)\<^sup>*\<^sup>* p q \<and> holders q = {} \<and> (\<forall>u. u \<notin> holders p \<longrightarrow> permit_threads q u = permit_threads p u)"
  using assms
proof (induction "\<Sum>u \<in> holders p. permits (permit_threads p u)" arbitrary: p rule: less_induct)
  case less
  show ?case
  proof (cases "holders p = {}")
    case False
    then obtain t where "t \<in> holders p" by auto
    from release_enabled [OF less.prems this] obtain q where q: "permit_step b p q"
      "(\<Sum>u \<in> holders q. permits (permit_threads q u)) < (\<Sum>u \<in> holders p. permits (permit_threads p u))"
      "\<And>u. u \<notin> holders p \<Longrightarrow> permit_threads q u = permit_threads p u" "holders q \<subseteq> holders p"
      by metis
    from less.hyps [OF q(2) permit_step_ok [OF q(1) less.prems]] obtain r where
      "(permit_step b)\<^sup>*\<^sup>* q r" "holders r = {}" "\<forall>u. u \<notin> holders q \<longrightarrow> permit_threads r u = permit_threads q u"
      by blast
    with q show ?thesis by (metis converse_rtranclp_into_rtranclp subsetD)
  qed auto
qed

text \<open>
  C36. In every reachable state of the threads sharing a memory budget: the number of threads that own a
  permit is the active count, it and its recorded peak never exceed the capacity (which is at least one),
  and no permit ever records a failure that would make the budget unusable.
\<close>

theorem memory_budget_bounded:
  assumes "permit_reachable b cap minimum p"
  shows "active_permits (the_budget p) = card {t. 0 < permits (permit_threads p t)} \<and>
    active_permits (the_budget p) \<le> peak_active (the_budget p) \<and>
    peak_active (the_budget p) \<le> max 1 cap \<and> failure (the_budget p) = None"
  using permit_reachable_ok [OF assms] by (auto simp: permit_ok_def budget_ok_def holders_def)

text \<open>
  C37. No waiter starves for lack of memory alone: in a reachable state where a thread waits for a permit,
  another thread owns one; and the owners can always drop theirs so that the waiter's next pass succeeds
  whatever amount of memory it then reads as available.
\<close>

theorem waiting_permit_can_be_acquired:
  assumes "permit_reachable b cap minimum p"
    and "fst (acquire b available w (budget_depths (permit_threads p t)) (the_budget p)) = Waits"
  shows "(\<exists>u. u \<noteq> t \<and> 0 < permits (permit_threads p u)) \<and>
    (\<exists>q. (permit_step b)\<^sup>*\<^sup>* p q \<and>
      (\<forall>available'. fst (acquire b available' True (budget_depths (permit_threads q t)) (the_budget q)) = Acquired True))"
proof -
  have ok: "permit_ok b cap p" using assms(1) by (rule permit_reachable_ok)
  then have th: "permit_thread_ok b (permit_threads p t)" and bok: "budget_ok cap (holders p) (the_budget p)"
    by (simp_all add: permit_ok_def)
  obtain ds mb where "acquire b available w (budget_depths (permit_threads p t)) (the_budget p) = (Waits, ds, mb)"
    using assms(2) by (metis prod.collapse)
  note a = acquire_Waits [OF th this]
  have "0 < capacity (the_budget p)" using bok by (simp add: budget_ok_def)
  with a(4) bok have "holders p \<noteq> {}" by (auto simp: budget_ok_def)
  then obtain u where u: "u \<in> holders p" by blast
  have nt: "t \<notin> holders p" using a(1) by (simp add: holders_def)
  with u have "u \<noteq> t" by auto
  with u have "\<exists>u. u \<noteq> t \<and> 0 < permits (permit_threads p u)" unfolding holders_def by blast
  moreover from all_permits_released [OF ok] nt obtain q where q: "(permit_step b)\<^sup>*\<^sup>* p q" "holders q = {}"
    "permit_threads q t = permit_threads p t" by blast
  have "permit_ok b cap q" using q(1) ok by (induction rule: rtranclp_induct) (auto intro: permit_step_ok)
  then have z: "active_permits (the_budget q) = 0" "capacity (the_budget q) = max 1 cap" "failure (the_budget q) = None"
    using q(2) by (simp_all add: permit_ok_def budget_ok_def)
  have "\<not> memory_budget_is_active b (budget_depths (permit_threads p t))"
    using a(1) th by (simp add: budget.active_iff permit_thread_ok_def)
  with z q have "\<forall>available'. fst (acquire b available' True (budget_depths (permit_threads q t)) (the_budget q)) = Acquired True"
    by (simp add: acquire_def Let_def memory_pressure_allows_def)
  with q(1) show ?thesis using calculation by blast
qed

text \<open>
  C38. The capacity of the LLVM memory budget is between one lane and four, never exceeds the available
  processors when there is one, and every lane beyond the first fits with its incremental cost into half
  of the memory limit; without an observable limit there is a single lane.
\<close>

theorem memory_task_capacity_bounds:
  "1 \<le> capacity (llvm_memory_budget cpus limit) \<and> capacity (llvm_memory_budget cpus limit) \<le> 4 \<and>
   capacity (llvm_memory_budget cpus limit) \<le> max 1 cpus \<and>
   (case limit of None \<Rightarrow> capacity (llvm_memory_budget cpus limit) = 1
    | Some bytes \<Rightarrow> capacity (llvm_memory_budget cpus limit) = 1 \<or>
        capacity (llvm_memory_budget cpus limit) * (512 * 1024 * 1024) \<le> bytes div 2)"
proof -
  have "n * (512 * 1024 * 1024) \<le> m" if "n \<le> m div (512 * 1024 * 1024)" for n m :: nat
    using that by (metis div_times_less_eq_dividend le_trans mult_le_mono1)
  then show ?thesis
    by (auto simp: llvm_memory_budget_def memory_budget_new_def memory_task_capacity_def Let_def
        MAX_PARALLEL_LLVM_TASKS_def LLVM_INCREMENTAL_LANE_MEMORY_BYTES_def max_def min_def split: option.splits)
qed

text \<open>A budget of one lane: thread 0 owns the permit, thread 1 waits for it.\<close>

definition permit_example :: permit_process where
  "permit_example = \<lparr>the_budget = (memory_budget_new 1 None)\<lparr>active_permits := 1, peak_active := 1\<rparr>,
     permit_threads = (\<lambda>_. \<lparr>budget_depths = [], permits = 0, has_waited = False\<rparr>)
       (0 := \<lparr>budget_depths = [(7, 1)], permits = 1, has_waited = False\<rparr>)\<rparr>"

lemma permit_example_reachable: "permit_reachable 7 1 None permit_example"
proof -
  let ?p = "permit_process_new (memory_budget_new 1 None)"
  have "permit_step 7 ?p permit_example"
    using permit_step.acquired [of "permit_threads ?p 0" ?p 0 7 None False "[(7, 1)]" "the_budget permit_example"]
    by (simp add: permit_process_new_def permit_example_def memory_budget_new_def acquire_def Let_def
        memory_budget_is_active_def memory_pressure_allows_def enter_memory_budget_def update_permits_def)
  then show ?thesis unfolding permit_reachable_def by (rule r_into_rtranclp)
qed

theorem memory_budget_bounded_witness:
  "active_permits (the_budget permit_example) = 1 \<and> peak_active (the_budget permit_example) \<le> 1"
  using memory_budget_bounded [OF permit_example_reachable] by (simp add: permit_example_def)

theorem waiting_permit_can_be_acquired_witness:
  "\<exists>u. u \<noteq> 1 \<and> 0 < permits (permit_threads permit_example u)"
  using waiting_permit_can_be_acquired [OF permit_example_reachable, of None False 1]
  by (simp add: permit_example_def acquire_def memory_budget_new_def memory_budget_is_active_def Let_def)

end
