(* ===== verification/Nia_Query_Wait.thy ===== *)
theory Nia_Query_Wait
  imports Nia_Query_Graph Rust_Num "HOL-Library.Multiset"
begin

text \<open>
  The wait-for graph of blocked queries (\<^verbatim>\<open>QueryWaitGraph\<close> in \<^verbatim>\<open>nia-query/src/lib.rs\<close>). The hash maps are
  association lists; the source reads a key order from them only where there is a single key, or after
  sorting. A search that did not return would be the outer \<^term>\<open>None\<close>.
\<close>

section \<open>The graph and its operations\<close>

record ('n, 'f) query_wait_graph =
  wait_edges :: "('n \<times> ('n \<times> nat) list) list"
  incoming :: "('n \<times> nat) list"
  frames :: "('n \<times> 'f) list"

definition empty_wait_graph :: "('n, 'f) query_wait_graph" where
  "empty_wait_graph = \<lparr>wait_edges = [], incoming = [], frames = []\<rparr>"

datatype wait_error =
  NoRetainedFrame | IncomingExhausted | EdgeExhausted | ReleasedOutOfOrder | NoIncomingCount | EmptyCount

definition targets_of :: "('n, 'f) query_wait_graph \<Rightarrow> 'n \<Rightarrow> 'n list" where
  "targets_of g n = (case map_of (wait_edges g) n of None \<Rightarrow> [] | Some ts \<Rightarrow> map fst ts)"

text \<open>The walk along nodes with one target, and its second pass that records the path.\<close>

datatype chain_end = NoPath | PathFound | Branches

fun walk_chain :: "('n, 'f) query_wait_graph \<Rightarrow> 'n \<Rightarrow> nat \<Rightarrow> 'n \<Rightarrow> chain_end" where
  "walk_chain g to 0 current = Branches"
| "walk_chain g to (Suc left) current =
     (case map_of (wait_edges g) current of
        None \<Rightarrow> NoPath
      | Some [(next, _)] \<Rightarrow>
          if next = to then PathFound else if left = 0 then NoPath else walk_chain g to left next
      | Some _ \<Rightarrow> Branches)"

partial_function (option) record_chain ::
  "('n, 'f) query_wait_graph \<Rightarrow> 'n \<Rightarrow> 'n \<Rightarrow> 'n list \<Rightarrow> 'n list option option" where
  "record_chain g to current path =
     (if current = to then Some (Some path)
      else case map_of (wait_edges g) current of
             None \<Rightarrow> Some None
           | Some [] \<Rightarrow> Some None
           | Some ((next, _) # _) \<Rightarrow> record_chain g to next (path @ [next]))"

text \<open>The breadth-first search, with the parents by which a path is read back.\<close>

partial_function (option) read_back ::
  "('n \<rightharpoonup> 'n) \<Rightarrow> 'n \<Rightarrow> 'n \<Rightarrow> 'n list \<Rightarrow> 'n list option option" where
  "read_back previous from ancestor path =
     (if ancestor = from then Some (Some (rev path))
      else case previous ancestor of
             None \<Rightarrow> Some None
           | Some parent \<Rightarrow> read_back previous from parent (path @ [parent]))"

fun visit_targets ::
  "'n \<Rightarrow> 'n \<Rightarrow> 'n list \<Rightarrow> ('n \<rightharpoonup> 'n) \<Rightarrow> 'n list \<Rightarrow> ('n \<rightharpoonup> 'n) + ('n \<rightharpoonup> 'n) \<times> 'n list" where
  "visit_targets to current [] previous pending = Inr (previous, pending)"
| "visit_targets to current (target # ts) previous pending =
     (if target = to then Inl previous
      else if previous target = None
      then visit_targets to current ts (previous(target \<mapsto> current)) (pending @ [target])
      else visit_targets to current ts previous pending)"

definition wait_nodes :: "('n, 'f) query_wait_graph \<Rightarrow> 'n set" where
  "wait_nodes g = (\<Union>(n, ts) \<in> set (wait_edges g). fst ` set ts)"

lemma finite_wait_nodes [simp]: "finite (wait_nodes g)"
  by (auto simp: wait_nodes_def)

lemma targets_of_nodes: "set (targets_of g n) \<subseteq> wait_nodes g"
proof (cases "map_of (wait_edges g) n")
  case (Some ts)
  then have "(n, ts) \<in> set (wait_edges g)" by (rule map_of_SomeD)
  with Some show ?thesis by (force simp: targets_of_def wait_nodes_def)
qed (simp add: targets_of_def)

lemma visit_targets_measure:
  assumes "visit_targets to cur ts prev pend = Inr (prev', pend')" "set ts \<subseteq> A" "finite A"
  shows "dom prev \<subseteq> dom prev' \<and> (dom prev' \<inter> A = dom prev \<inter> A \<and> pend' = pend \<or> card (A - dom prev') < card (A - dom prev))"
  using assms
proof (induction to cur ts prev pend rule: visit_targets.induct)
  case (2 to cur t ts prev pend)
  show ?case
  proof (cases "prev t = None")
    case True
    with 2(3) have v: "t \<noteq> to" "visit_targets to cur ts (prev(t \<mapsto> cur)) (pend @ [t]) = Inr (prev', pend')"
      by (simp_all split: if_splits)
    have sub: "set ts \<subseteq> A" using 2(4) by simp
    have IH: "dom (prev(t \<mapsto> cur)) \<subseteq> dom prev'" using 2(1) [OF v(1) True v(2) sub 2(5)] by blast
    have "card (A - dom prev') < card (A - dom prev)"
    proof (rule psubset_card_mono)
      have "dom prev \<subseteq> dom prev'" "t \<in> dom prev'" "t \<notin> dom prev" "t \<in> A"
        using IH True 2(4) by (auto simp: domIff)
      then show "A - dom prev' \<subset> A - dom prev" by blast
    qed (use 2(5) in simp)
    with IH show ?thesis by auto
  next
    case False
    with 2 show ?thesis by (auto split: if_splits)
  qed
qed simp

function search_path ::
  "('n :: linorder, 'f) query_wait_graph \<Rightarrow> 'n \<Rightarrow> 'n \<Rightarrow> ('n \<rightharpoonup> 'n) \<Rightarrow> 'n list \<Rightarrow> 'n list option option" where
  "search_path g from to previous [] = Some None"
| "search_path g from to previous (current # pending) =
     (case visit_targets to current (sort (targets_of g current)) previous pending of
        Inl previous \<Rightarrow> read_back previous from current [to, current]
      | Inr (previous, pending) \<Rightarrow> search_path g from to previous pending)"
  by pat_completeness auto
termination
proof (relation "measures [\<lambda>(g, from, to, previous, pending). card (wait_nodes g - dom previous),
    \<lambda>(g, from, to, previous, pending). length pending]")
  fix g :: "('n :: linorder, 'f) query_wait_graph" and "from" to previous current pending r prev' pend'
  assume "visit_targets to current (sort (targets_of g current)) previous pending = Inr r" "(prev', pend') = r"
  then have "dom previous \<subseteq> dom prev' \<and> (dom prev' \<inter> wait_nodes g = dom previous \<inter> wait_nodes g \<and> pend' = pending \<or>
      card (wait_nodes g - dom prev') < card (wait_nodes g - dom previous))"
    using targets_of_nodes [of g current] by (intro visit_targets_measure [of to current "sort (targets_of g current)"]) auto
  moreover have "wait_nodes g - dom prev' = wait_nodes g - dom previous"
    if "dom prev' \<inter> wait_nodes g = dom previous \<inter> wait_nodes g" using that by blast
  ultimately show "((g, from, to, prev', pend'), g, from, to, previous, current # pending)
      \<in> measures [\<lambda>(g, from, to, previous, pending). card (wait_nodes g - dom previous),
        \<lambda>(g, from, to, previous, pending). length pending]"
    by auto
qed simp

definition path :: "('n :: linorder, 'f) query_wait_graph \<Rightarrow> 'n \<Rightarrow> 'n \<Rightarrow> 'n list option option" where
  "path g from to =
     (if from = to then Some (Some [from])
      else case walk_chain g to (length (wait_edges g)) from of
             PathFound \<Rightarrow> record_chain g to from [from]
           | NoPath \<Rightarrow> Some None
           | Branches \<Rightarrow> search_path g from to [from \<mapsto> from] [from])"

text \<open>
  \<^verbatim>\<open>begin\<close>: the frames of the cycle the new edge would close, or the updated graph. The outer option is
  \<^term>\<open>None\<close> when the search does not return.
\<close>

definition frame_of :: "('n, 'f) query_wait_graph \<Rightarrow> 'n \<Rightarrow> 'f \<Rightarrow> 'n \<Rightarrow> 'f \<Rightarrow> 'n \<Rightarrow> 'f option" where
  "frame_of g from from_frame to to_frame node =
     (case map_of (frames g) node of
        Some frame \<Rightarrow> Some frame
      | None \<Rightarrow> if node = from then Some from_frame else if node = to then Some to_frame else None)"

definition or_insert :: "'k \<Rightarrow> 'v \<Rightarrow> ('k \<times> 'v) list \<Rightarrow> ('k \<times> 'v) list" where
  "or_insert k v m = (if map_of m k = None then AList.update k v m else m)"

definition edge_count :: "('n, 'f) query_wait_graph \<Rightarrow> 'n \<Rightarrow> 'n \<Rightarrow> nat option" where
  "edge_count g from to = Option.bind (map_of (wait_edges g) from) (\<lambda>targets. map_of targets to)"

definition add_wait ::
  "('n, 'f) query_wait_graph \<Rightarrow> 'n \<Rightarrow> 'f \<Rightarrow> 'n \<Rightarrow> 'f \<Rightarrow> (('n, 'f) query_wait_graph, wait_error) rust_result" where
  "add_wait g from from_frame to to_frame =
     bind_r (ok_or (checked_add (case map_of (incoming g) to of None \<Rightarrow> 0 | Some n \<Rightarrow> n) 1) IncomingExhausted) (\<lambda>incoming_count.
     bind_r (ok_or (checked_add (case edge_count g from to of None \<Rightarrow> 0 | Some n \<Rightarrow> n) 1) EdgeExhausted) (\<lambda>count.
     Ok (g\<lparr>wait_edges := AList.update from (AList.update to count (or_empty (map_of (wait_edges g) from))) (wait_edges g),
           incoming := AList.update to incoming_count (incoming g),
           frames := or_insert to to_frame (or_insert from from_frame (frames g))\<rparr>)))"

definition begin_wait ::
  "('n :: linorder, 'f) query_wait_graph \<Rightarrow> 'n \<Rightarrow> 'f \<Rightarrow> 'n \<Rightarrow> 'f \<Rightarrow>
    ('f list + ('n, 'f) query_wait_graph, wait_error) rust_result option" where
  "begin_wait g from from_frame to to_frame =
     (if from = to \<or> map_of (wait_edges g) to \<noteq> None
      then (case path g to from of
              None \<Rightarrow> None
            | Some (Some p) \<Rightarrow>
                (case those_opt (map (frame_of g from from_frame to to_frame) (from # p)) of
                   None \<Rightarrow> Some (Err NoRetainedFrame)
                 | Some cycle \<Rightarrow> Some (Ok (Inl cycle)))
            | Some None \<Rightarrow> Some (bind_r (add_wait g from from_frame to to_frame) (\<lambda>g. Ok (Inr g))))
      else Some (bind_r (add_wait g from from_frame to to_frame) (\<lambda>g. Ok (Inr g))))"

definition release_frame :: "'n \<Rightarrow> ('n, 'f) query_wait_graph \<Rightarrow> ('n, 'f) query_wait_graph" where
  "release_frame node g =
     (if map_of (wait_edges g) node = None \<and> map_of (incoming g) node = None
      then g\<lparr>frames := AList.delete node (frames g)\<rparr> else g)"

definition end_wait :: "('n, 'f) query_wait_graph \<Rightarrow> 'n \<Rightarrow> 'n \<Rightarrow> (('n, 'f) query_wait_graph, wait_error) rust_result" where
  "end_wait g from to =
     (case edge_count g from to of
        None \<Rightarrow> Err ReleasedOutOfOrder
      | Some refs \<Rightarrow>
          (case map_of (incoming g) to of
             None \<Rightarrow> Err NoIncomingCount
           | Some incoming_count \<Rightarrow>
               if incoming_count = 0 \<or> refs = 0 then Err EmptyCount
               else
                 let targets = or_empty (map_of (wait_edges g) from);
                     targets = (if refs = 1 then AList.delete to targets else AList.update to (refs - 1) targets);
                     g = g\<lparr>wait_edges := (if targets = [] then AList.delete from (wait_edges g)
                                           else AList.update from targets (wait_edges g))\<rparr>;
                     g = g\<lparr>incoming := (if incoming_count = 1 then AList.delete to (incoming g)
                                         else AList.update to (incoming_count - 1) (incoming g))\<rparr>
                 in Ok (release_frame to (release_frame from g))))"


section \<open>The search\<close>

definition waits :: "('n, 'f) query_wait_graph \<Rightarrow> ('n \<times> 'n) set" where
  "waits g = {(a, b). b \<in> set (targets_of g a)}"

text \<open>A walk along the edges, given by its nodes.\<close>

fun walk :: "('n \<times> 'n) set \<Rightarrow> 'n list \<Rightarrow> bool" where
  "walk E [] = False"
| "walk E [a] = True"
| "walk E (a # b # ns) = ((a, b) \<in> E \<and> walk E (b # ns))"

lemma walk_append: "ns \<noteq> [] \<Longrightarrow> walk E (ns @ [b]) \<longleftrightarrow> walk E ns \<and> (last ns, b) \<in> E"
  by (induction E ns rule: walk.induct) auto

lemma walk_Cons: "ns \<noteq> [] \<Longrightarrow> walk E (a # ns) \<longleftrightarrow> (a, hd ns) \<in> E \<and> walk E ns"
  by (cases ns) auto

lemma walk_reaches: "walk E ns \<Longrightarrow> (hd ns, last ns) \<in> E\<^sup>*"
  by (induction E ns rule: walk.induct) (auto intro: converse_rtrancl_into_rtrancl)

lemma closed_not_reached:
  assumes "(a, b) \<in> E\<^sup>*" "a \<in> S" "\<And>x y. x \<in> S \<Longrightarrow> (x, y) \<in> E \<Longrightarrow> y \<in> S"
  shows "b \<in> S"
  using assms by (induction rule: rtrancl_induct) auto

lemma targets_None: "map_of (wait_edges g) n = None \<Longrightarrow> targets_of g n = []"
  and targets_Some: "map_of (wait_edges g) n = Some ts \<Longrightarrow> targets_of g n = map fst ts"
  by (simp_all add: targets_of_def)

lemma waits_iff [simp]: "(a, b) \<in> waits g \<longleftrightarrow> b \<in> set (targets_of g a)"
  by (simp add: waits_def)

text \<open>The first phase decides nodes that have one way to go.\<close>

lemma walk_chain_PathFound:
  assumes "walk_chain g to n current = PathFound" "current \<noteq> to"
  shows "\<exists>ns. record_chain g to current p = Some (Some (p @ ns)) \<and> walk (waits g) (current # ns) \<and> last (current # ns) = to"
  using assms
proof (induction g to n current arbitrary: p rule: walk_chain.induct)
  case (2 g to n current)
  from "2.prems" obtain nxt c where m: "map_of (wait_edges g) current = Some [(nxt, c)]"
    by (auto split: option.splits list.splits)
  note r = record_chain.simps [of g to current p]
  show ?case
  proof (cases "nxt = to")
    case True
    have "record_chain g to current p = Some (Some (p @ [to]))"
      using "2.prems"(2) m True by (subst r) (simp add: record_chain.simps)
    with m True show ?thesis by (intro exI [of _ "[to]"]) (simp add: targets_Some)
  next
    case False
    with "2.prems"(1) m have w: "n \<noteq> 0" "walk_chain g to n nxt = PathFound" by (auto split: if_splits)
    from "2.IH" [OF m refl refl refl False w False, of "p @ [nxt]"] obtain ns where
      ns: "record_chain g to nxt (p @ [nxt]) = Some (Some ((p @ [nxt]) @ ns))" "walk (waits g) (nxt # ns)"
        "last (nxt # ns) = to" by blast
    with "2.prems"(2) m have "record_chain g to current p = Some (Some (p @ nxt # ns))" by (subst r) simp
    with ns m show ?thesis by (intro exI [of _ "nxt # ns"]) (simp add: targets_Some)
  qed
qed simp

text \<open>
  The nodes \<open>vs\<close> the walk has left: each has its only target among them or is followed by the current node;
  they are distinct until the walk runs in a circle.
\<close>

definition chain_inv :: "('n, 'f) query_wait_graph \<Rightarrow> 'n \<Rightarrow> 'n list \<Rightarrow> 'n \<Rightarrow> bool" where
  "chain_inv g to vs current \<longleftrightarrow>
     to \<notin> set vs \<and> current \<noteq> to \<and> set vs \<subseteq> fst ` set (wait_edges g) \<and>
     (\<forall>v \<in> set vs. set (targets_of g v) \<subseteq> insert current (set vs)) \<and>
     (distinct vs \<and> current \<notin> set vs \<or> current \<in> set vs)"

lemma chain_inv_step:
  assumes "chain_inv g to vs current" "map_of (wait_edges g) current = Some [(nxt, c)]" "nxt \<noteq> to"
  shows "chain_inv g to (vs @ [current]) nxt"
proof -
  have "current \<in> fst ` set (wait_edges g)" using map_of_SomeD [OF assms(2)] by force
  moreover have "targets_of g current = [nxt]" using assms(2) by (simp add: targets_Some)
  ultimately show ?thesis using assms(1,3) unfolding chain_inv_def by auto
qed

lemma chain_inv_exhausted:
  assumes inv: "chain_inv g to vs current" and d: "distinct (map fst (wait_edges g))"
    and len: "length (wait_edges g) \<le> length vs"
  shows "(current, to) \<notin> (waits g)\<^sup>*"
proof
  let ?S = "insert current (set vs)"
  assume r: "(current, to) \<in> (waits g)\<^sup>*"
  have closed: "y \<in> ?S" if "x \<in> ?S" "(x, y) \<in> waits g" for x y
  proof (cases "x \<in> set vs")
    case True
    with inv that show ?thesis by (auto simp: chain_inv_def)
  next
    case False
    with inv that have dv: "distinct vs" "x = current" by (auto simp: chain_inv_def)
    have "card (set vs) = length vs" using dv by (simp add: distinct_card)
    moreover have "card (fst ` set (wait_edges g)) \<le> length (wait_edges g)"
      by (metis card_length length_map list.set_map)
    ultimately have "set vs = fst ` set (wait_edges g)"
      using inv len by (intro card_seteq) (auto simp: chain_inv_def)
    with False dv have "map_of (wait_edges g) x = None" by (simp add: map_of_eq_None_iff)
    with that show ?thesis by (simp add: targets_None)
  qed
  have "to \<in> ?S" by (rule closed_not_reached [OF r _ closed]) auto
  with inv show False by (auto simp: chain_inv_def)
qed

lemma walk_chain_NoPath:
  assumes "walk_chain g to n current = NoPath" "chain_inv g to vs current" "distinct (map fst (wait_edges g))"
    and "length (wait_edges g) \<le> length vs + n"
  shows "(current, to) \<notin> (waits g)\<^sup>*"
  using assms
proof (induction g to n current arbitrary: vs rule: walk_chain.induct)
  case (2 g to n current)
  show ?case
  proof (cases "map_of (wait_edges g) current")
    case None
    then have "targets_of g current = []" by (rule targets_None)
    with "2.prems"(2) show ?thesis by (auto simp: chain_inv_def elim: converse_rtranclE)
  next
    case (Some ts)
    with "2.prems"(1) obtain nxt c where ts: "ts = [(nxt, c)]" by (auto split: list.splits)
    note m = Some [unfolded ts]
    have nt: "nxt \<noteq> to" using "2.prems"(1) m by (auto split: if_splits)
    have inv: "chain_inv g to (vs @ [current]) nxt" by (rule chain_inv_step [OF "2.prems"(2) m nt])
    have "(nxt, to) \<notin> (waits g)\<^sup>*"
    proof (cases "n = 0")
      case True
      with "2.prems" show ?thesis by (intro chain_inv_exhausted [OF inv]) auto
    next
      case False
      with "2.prems"(1) m nt have "walk_chain g to n nxt = NoPath" by simp
      with "2.IH" [OF m refl refl refl nt False _ inv] "2.prems"(3,4) show ?thesis by simp
    qed
    moreover have "targets_of g current = [nxt]" using m by (simp add: targets_Some)
    ultimately show ?thesis using "2.prems"(2) by (auto simp: chain_inv_def elim: converse_rtranclE)
  qed
qed simp

text \<open>Parents lead back to the start of the search.\<close>

inductive leads :: "('n \<times> 'n) set \<Rightarrow> ('n \<rightharpoonup> 'n) \<Rightarrow> 'n \<Rightarrow> 'n \<Rightarrow> 'n list \<Rightarrow> bool" for E prev "from" where
  leads_refl: "leads E prev from from []"
| leads_step: "x \<noteq> from \<Longrightarrow> prev x = Some y \<Longrightarrow> (y, x) \<in> E \<Longrightarrow> leads E prev from y ns \<Longrightarrow> leads E prev from x (y # ns)"

lemma leads_mono:
  "leads E prev from x ns \<Longrightarrow> prev t = None \<Longrightarrow> leads E (prev(t \<mapsto> c)) from x ns"
  by (induction rule: leads.induct) (auto intro!: leads.intros)

lemma leads_walk: "leads E prev from x ns \<Longrightarrow> walk E (rev (x # ns)) \<and> last (x # ns) = from"
proof (induction rule: leads.induct)
  case (leads_step x y ns)
  then show ?case using walk_append [of "rev (y # ns)" E x] by simp
qed simp

lemma leads_read_back: "leads E prev from x ns \<Longrightarrow> read_back prev from x p = Some (Some (rev (p @ ns)))"
proof (induction arbitrary: p rule: leads.induct)
  case leads_refl
  show ?case by (simp add: read_back.simps)
next
  case (leads_step x y ns)
  then show ?case by (subst read_back.simps) simp
qed

definition search_inv :: "('n, 'f) query_wait_graph \<Rightarrow> 'n \<Rightarrow> 'n \<Rightarrow> 'n set \<Rightarrow> ('n \<rightharpoonup> 'n) \<Rightarrow> 'n list \<Rightarrow> bool" where
  "search_inv g from to open_ts prev pending \<longleftrightarrow>
     from \<in> dom prev \<and> to \<notin> dom prev \<and> set pending \<subseteq> dom prev \<and>
     (\<forall>x \<in> dom prev. \<exists>ns. leads (waits g) prev from x ns) \<and>
     (\<forall>x \<in> dom prev. x \<notin> set pending \<longrightarrow> set (targets_of g x) \<subseteq> dom prev \<union> open_ts)"

lemma visit_targets_inv:
  assumes "search_inv g from to (set ts) prev pend" "set ts \<subseteq> set (targets_of g cur)" "cur \<in> dom prev"
  shows "case visit_targets to cur ts prev pend of
      Inl prev' \<Rightarrow> to \<in> set ts \<and> (\<exists>ns. leads (waits g) prev' from cur ns)
    | Inr (prev', pend') \<Rightarrow> search_inv g from to {} prev' pend'"
  using assms
proof (induction to cur ts prev pend rule: visit_targets.induct)
  case (2 to cur t ts prev pend)
  show ?case
  proof (cases "t = to")
    case True
    with 2(3,5) show ?thesis by (auto simp: search_inv_def)
  next
    case nt: False
    show ?thesis
    proof (cases "prev t = None")
      case True
      have "search_inv g from to (set ts) (prev(t \<mapsto> cur)) (pend @ [t])"
      proof -
        have l: "\<exists>ns. leads (waits g) (prev(t \<mapsto> cur)) from x ns" if "x \<in> dom prev" for x
        proof -
          from that 2(3) obtain ns where "leads (waits g) prev from x ns" unfolding search_inv_def by blast
          from leads_mono [OF this True] show ?thesis by blast
        qed
        moreover have "t \<noteq> from" using 2(3) True by (auto simp: search_inv_def)
        moreover from this have "\<exists>ns. leads (waits g) (prev(t \<mapsto> cur)) from t ns"
        proof -
          obtain ns where "leads (waits g) (prev(t \<mapsto> cur)) from cur ns" using l [OF 2(5)] by blast
          then have "leads (waits g) (prev(t \<mapsto> cur)) from t (cur # ns)"
            using \<open>t \<noteq> from\<close> 2(4) by (intro leads_step) simp_all
          then show ?thesis by blast
        qed
        ultimately show ?thesis using 2(3) nt by (auto simp: search_inv_def)
      qed
      then have "case visit_targets to cur ts (prev(t \<mapsto> cur)) (pend @ [t]) of
          Inl prev' \<Rightarrow> to \<in> set ts \<and> (\<exists>ns. leads (waits g) prev' from cur ns)
        | Inr (prev', pend') \<Rightarrow> search_inv g from to {} prev' pend'"
        using 2(4,5) by (intro 2(1) [OF nt True]) (auto simp del: fun_upd_apply)
      with nt True show ?thesis by (auto split: sum.splits)
    next
      case False
      have eq: "dom prev \<union> set (t # ts) = dom prev \<union> set ts" using False by auto
      have "search_inv g from to (set ts) prev pend" using 2(3) unfolding search_inv_def eq by blast
      then have "case visit_targets to cur ts prev pend of
          Inl prev' \<Rightarrow> to \<in> set ts \<and> (\<exists>ns. leads (waits g) prev' from cur ns)
        | Inr (prev', pend') \<Rightarrow> search_inv g from to {} prev' pend'"
        using 2(4,5) by (intro 2(2) [OF nt False]) auto
      with nt False show ?thesis by (auto split: sum.splits)
    qed
  qed
qed simp

lemma search_path_correct:
  assumes "search_inv g from to {} prev pending"
  shows "(search_path g from to prev pending = Some None \<and> (from, to) \<notin> (waits g)\<^sup>*)
    \<or> (\<exists>p. search_path g from to prev pending = Some (Some p) \<and> walk (waits g) p \<and> hd p = from \<and> last p = to)"
  using assms
proof (induction g "from" to prev pending rule: search_path.induct)
  case (1 g "from" to prev)
  then have "x \<in> dom prev \<Longrightarrow> (x, y) \<in> waits g \<Longrightarrow> y \<in> dom prev" for x y by (auto simp: search_inv_def)
  then have "(from, to) \<notin> (waits g)\<^sup>*" using 1 closed_not_reached [of "from" to "waits g" "dom prev"]
    by (auto simp: search_inv_def)
  then show ?case by simp
next
  case (2 g "from" to prev cur pend)
  let ?ts = "sort (targets_of g cur)"
  have "search_inv g from to (set ?ts) prev pend" "cur \<in> dom prev" using "2.prems" by (auto simp: search_inv_def)
  note v = visit_targets_inv [OF this(1) _ this(2)]
  show ?case
  proof (cases "visit_targets to cur ?ts prev pend")
    case (Inl prev')
    with v obtain ns where ns: "to \<in> set (targets_of g cur)" "leads (waits g) prev' from cur ns" by auto
    let ?p = "rev ([to, cur] @ ns)"
    have "walk (waits g) ?p" "hd ?p = from" "last ?p = to"
      using leads_walk [OF ns(2)] ns(1) walk_append [of "rev (cur # ns)" "waits g" to]
      by (auto simp: hd_append hd_rev split: if_splits)
    with Inl leads_read_back [OF ns(2), of "[to, cur]"] show ?thesis by simp
  next
    case (Inr r)
    then obtain prev' pend' where r: "r = (prev', pend')" by (cases r)
    with Inr v have "search_inv g from to {} prev' pend'" by auto
    from "2.IH" [OF Inr r [symmetric] this] Inr r show ?thesis by simp
  qed
qed

text \<open>The search decides reachability and returns a walk.\<close>

lemma path_correct:
  assumes d: "distinct (map fst (wait_edges g))"
  shows "(path g from to = Some None \<and> (from, to) \<notin> (waits g)\<^sup>*)
    \<or> (\<exists>p. path g from to = Some (Some p) \<and> walk (waits g) p \<and> hd p = from \<and> last p = to)"
proof (cases "from = to")
  case True
  then show ?thesis by (simp add: path_def)
next
  case False
  show ?thesis
  proof (cases "walk_chain g to (length (wait_edges g)) from")
    case NoPath
    have "chain_inv g to [] from" using False by (simp add: chain_inv_def)
    from walk_chain_NoPath [OF NoPath this d] False NoPath show ?thesis by (simp add: path_def)
  next
    case PathFound
    from walk_chain_PathFound [OF PathFound False, of "[from]"] False PathFound show ?thesis
      by (auto simp: path_def)
  next
    case Branches
    have "leads (waits g) [from \<mapsto> from] from from []" by (rule leads_refl)
    then have "search_inv g from to {} [from \<mapsto> from] [from]" using False by (auto simp: search_inv_def)
    from search_path_correct [OF this] False Branches show ?thesis by (simp add: path_def)
  qed
qed

section \<open>Reference counts\<close>

text \<open>
  The guards alive in the process form a multiset of edges. A graph represents it when its counts are
  the multiplicities, and it retains a frame for exactly the nodes that occur in an edge.
\<close>

definition count_of :: "('n, 'f) query_wait_graph \<Rightarrow> 'n \<Rightarrow> 'n \<Rightarrow> nat" where
  "count_of g a b = (case edge_count g a b of None \<Rightarrow> 0 | Some n \<Rightarrow> n)"

definition into :: "('n \<times> 'n) multiset \<Rightarrow> 'n \<Rightarrow> nat" where
  "into W b = size {#e \<in># W. snd e = b#}"

definition tables_ok :: "('n, 'f) query_wait_graph \<Rightarrow> bool" where
  "tables_ok g \<longleftrightarrow> distinct (map fst (wait_edges g)) \<and> distinct (map fst (incoming g)) \<and> distinct (map fst (frames g)) \<and>
     (\<forall>(a, ts) \<in> set (wait_edges g). ts \<noteq> [] \<and> distinct (map fst ts) \<and> (\<forall>(b, n) \<in> set ts. 0 < n)) \<and>
     (\<forall>(b, n) \<in> set (incoming g). 0 < n)"

definition counts_ok :: "('n, 'f) query_wait_graph \<Rightarrow> ('n \<times> 'n) multiset \<Rightarrow> bool" where
  "counts_ok g W \<longleftrightarrow> tables_ok g \<and> (\<forall>a b. count_of g a b = count W (a, b)) \<and>
     (\<forall>b. (case map_of (incoming g) b of None \<Rightarrow> 0 | Some n \<Rightarrow> n) = into W b)"

definition represents :: "('n, 'f) query_wait_graph \<Rightarrow> ('n \<times> 'n) multiset \<Rightarrow> bool" where
  "represents g W \<longleftrightarrow> counts_ok g W \<and>
     (\<forall>n. map_of (frames g) n \<noteq> None \<longleftrightarrow> n \<in> fst ` set_mset W \<union> snd ` set_mset W)"

lemma into_simps [simp]:
  "into {#} b = 0" "into (add_mset e W) b = into W b + (if snd e = b then 1 else 0)"
  by (simp_all add: into_def)

lemma into_pos: "0 < into W b \<longleftrightarrow> b \<in> snd ` set_mset W"
  by (induction W) auto

lemma count_le_into: "count W (a, b) \<le> into W b"
proof -
  have "count W (a, b) = count {#e \<in># W. snd e = b#} (a, b)" by simp
  also have "\<dots> \<le> into W b" unfolding into_def by (rule count_le_size)
  finally show ?thesis .
qed

lemma into_le_size: "into W b \<le> size W"
  by (simp add: into_def size_mset_mono)

lemma map_of_in_set: "distinct (map fst m) \<Longrightarrow> map_of m k = Some v \<longleftrightarrow> (k, v) \<in> set m"
  by (auto dest: map_of_SomeD)

lemma tables_okD:
  assumes "tables_ok g"
  shows "distinct (map fst (wait_edges g))" "distinct (map fst (incoming g))" "distinct (map fst (frames g))"
    "map_of (wait_edges g) a = Some ts \<Longrightarrow> ts \<noteq> []" "map_of (wait_edges g) a = Some ts \<Longrightarrow> distinct (map fst ts)"
    "map_of (wait_edges g) a = Some ts \<Longrightarrow> map_of ts b = Some n \<Longrightarrow> 0 < n"
    "map_of (incoming g) b = Some n \<Longrightarrow> 0 < n"
  using assms unfolding tables_ok_def by (auto dest!: map_of_SomeD)

lemma tables_okI:
  assumes "distinct (map fst (wait_edges g))" "distinct (map fst (incoming g))" "distinct (map fst (frames g))"
    "\<And>a ts. map_of (wait_edges g) a = Some ts \<Longrightarrow> ts \<noteq> [] \<and> distinct (map fst ts) \<and> (\<forall>b n. map_of ts b = Some n \<longrightarrow> 0 < n)"
    "\<And>b n. map_of (incoming g) b = Some n \<Longrightarrow> 0 < n"
  shows "tables_ok g"
proof -
  have "ts \<noteq> [] \<and> distinct (map fst ts) \<and> (\<forall>(b, n) \<in> set ts. 0 < n)" if "(a, ts) \<in> set (wait_edges g)" for a ts
  proof -
    have ts: "ts \<noteq> []" "distinct (map fst ts)" "\<And>b n. map_of ts b = Some n \<Longrightarrow> 0 < n"
      using assms(4) [of a ts] that map_of_in_set [OF assms(1)] by blast+
    moreover have "0 < n" if "(b, n) \<in> set ts" for b n
      using ts(3) [of b n] that map_of_in_set [OF ts(2)] by blast
    ultimately show ?thesis by blast
  qed
  moreover have "0 < n" if "(b, n) \<in> set (incoming g)" for b n
    using assms(5) [of b n] that map_of_in_set [OF assms(2)] by blast
  ultimately show ?thesis using assms(1-3) unfolding tables_ok_def by blast
qed

lemma in_targets: "tables_ok g \<Longrightarrow> b \<in> set (targets_of g a) \<longleftrightarrow> 0 < count_of g a b"
proof (cases "map_of (wait_edges g) a")
  case (Some ts)
  assume ok: "tables_ok g"
  show ?thesis
  proof (cases "map_of ts b")
    case None
    then have "b \<notin> fst ` set ts" by (simp add: map_of_eq_None_iff)
    with None Some show ?thesis by (simp add: targets_of_def count_of_def edge_count_def)
  next
    case (Some n)
    have "b \<in> fst ` set ts" using map_of_SomeD [OF Some] by force
    with \<open>map_of (wait_edges g) a = _\<close> Some tables_okD(6) [OF ok \<open>map_of (wait_edges g) a = _\<close> Some] show ?thesis
      by (simp add: targets_of_def count_of_def edge_count_def)
  qed
qed (simp add: targets_of_def count_of_def edge_count_def)

lemma waits_counts: "counts_ok g W \<Longrightarrow> waits g = set_mset W"
  by (auto simp: counts_ok_def in_targets waits_def)

lemma edge_key: "counts_ok g W \<Longrightarrow> map_of (wait_edges g) a \<noteq> None \<longleftrightarrow> a \<in> fst ` set_mset W"
proof -
  assume r: "counts_ok g W"
  then have ok: "tables_ok g" by (simp add: counts_ok_def)
  show ?thesis
  proof (cases "map_of (wait_edges g) a")
    case None
    then have "(a, b) \<notin># W" for b unfolding waits_counts [OF r, symmetric] by (simp add: targets_None)
    then have "a \<notin> fst ` set_mset W" by auto
    with None show ?thesis by simp
  next
    case (Some ts)
    with tables_okD(4) [OF ok] obtain b where "b \<in> set (targets_of g a)" by (cases ts) (auto simp: targets_of_def)
    then have "(a, b) \<in># W" unfolding waits_counts [OF r, symmetric] by simp
    then have "a \<in> fst ` set_mset W" by force
    with Some show ?thesis by simp
  qed
qed

lemma incoming_key: "counts_ok g W \<Longrightarrow> map_of (incoming g) b \<noteq> None \<longleftrightarrow> b \<in> snd ` set_mset W"
proof -
  assume r: "counts_ok g W"
  then have "(case map_of (incoming g) b of None \<Rightarrow> 0 | Some n \<Rightarrow> n) = into W b" by (simp add: counts_ok_def)
  moreover have "0 < n" if "map_of (incoming g) b = Some n" for n
    using r that tables_okD(7) by (auto simp: counts_ok_def)
  ultimately show ?thesis unfolding into_pos [symmetric] by (cases "map_of (incoming g) b") auto
qed

lemma represents_empty: "represents empty_wait_graph {#}"
  by (simp add: represents_def counts_ok_def tables_ok_def empty_wait_graph_def count_of_def edge_count_def)

lemmas table_simps = update_conv' delete_conv' distinct_update distinct_delete

lemma map_of_or_insert [simp]:
  "map_of (or_insert k v m) j = (if map_of m j = None \<and> j = k then Some v else map_of m j)"
  by (simp add: or_insert_def table_simps)

lemma distinct_or_insert [simp]: "distinct (map fst m) \<Longrightarrow> distinct (map fst (or_insert k v m))"
  by (simp add: or_insert_def table_simps)

lemma release_frame_simps [simp]:
  "wait_edges (release_frame n g) = wait_edges g" "incoming (release_frame n g) = incoming g"
  by (simp_all add: release_frame_def)

lemma map_of_release_frame:
  "map_of (frames (release_frame n g)) j =
     (if j = n \<and> map_of (wait_edges g) n = None \<and> map_of (incoming g) n = None then None else map_of (frames g) j)"
  by (simp add: release_frame_def table_simps)

lemma distinct_release_frame: "distinct (map fst (frames g)) \<Longrightarrow> distinct (map fst (frames (release_frame n g)))"
  by (simp add: release_frame_def table_simps)

lemma countsD:
  assumes "counts_ok g W"
  shows "tables_ok g" "count_of g a b = count W (a, b)"
    "(case map_of (incoming g) b of None \<Rightarrow> 0 | Some n \<Rightarrow> n) = into W b"
  using assms unfolding counts_ok_def by blast+

text \<open>Replacing the table of one source; an empty table is dropped.\<close>

definition set_targets :: "'n \<Rightarrow> ('n \<times> nat) list \<Rightarrow> ('n \<times> ('n \<times> nat) list) list \<Rightarrow> ('n \<times> ('n \<times> nat) list) list" where
  "set_targets a ts es = (if ts = [] then AList.delete a es else AList.update a ts es)"

lemma tables_ok_set_targets:
  assumes "tables_ok g" "distinct (map fst ts)" "\<And>b n. map_of ts b = Some n \<Longrightarrow> 0 < n"
    "distinct (map fst inc)" "\<And>b n. map_of inc b = Some n \<Longrightarrow> 0 < n" "distinct (map fst fr)"
    "wait_edges h = set_targets a ts (wait_edges g)" "incoming h = inc" "frames h = fr"
  shows "tables_ok h"
proof (rule tables_okI)
  fix a' ts'
  assume "map_of (wait_edges h) a' = Some ts'"
  then have "a' = a \<and> ts' = ts \<and> ts \<noteq> [] \<or> map_of (wait_edges g) a' = Some ts'"
    using assms(7) by (auto simp: set_targets_def table_simps split: if_splits)
  with assms(2,3) tables_okD(4-6) [OF assms(1), of a' ts']
  show "ts' \<noteq> [] \<and> distinct (map fst ts') \<and> (\<forall>b n. map_of ts' b = Some n \<longrightarrow> 0 < n)" by blast
next
  show "distinct (map fst (wait_edges h))"
    using tables_okD(1) [OF assms(1)] assms(7) by (simp add: set_targets_def table_simps)
qed (use assms in auto)

lemma count_of_set_targets:
  assumes "wait_edges h = set_targets a ts (wait_edges g)"
  shows "count_of h x y = (if x = a then (case map_of ts y of None \<Rightarrow> 0 | Some n \<Rightarrow> n) else count_of g x y)"
  by (simp add: count_of_def edge_count_def assms set_targets_def table_simps)

lemma or_empty_targets:
  assumes "tables_ok g"
  shows "distinct (map fst (or_empty (map_of (wait_edges g) a)))"
    "map_of (or_empty (map_of (wait_edges g) a)) b = edge_count g a b"
    "edge_count g a b = Some n \<Longrightarrow> 0 < n"
  using tables_okD(5,6) [OF assms] by (cases "map_of (wait_edges g) a"; force simp: edge_count_def)+

lemma add_wait_represents:
  assumes r: "represents g W" and added: "add_wait g a fa b fb = Ok h'"
  shows "represents h' (add_mset (a, b) W)"
proof -
  define n i where "n = count_of g a b + 1" and "i = into W b + 1"
  define ts where "ts = AList.update b n (or_empty (map_of (wait_edges g) a))"
  define h where "h = g\<lparr>wait_edges := AList.update a ts (wait_edges g), incoming := AList.update b i (incoming g),
      frames := or_insert b fb (or_insert a fa (frames g))\<rparr>"
  have c: "counts_ok g W" using r by (simp add: represents_def)
  note ok = countsD(1) [OF c]
  have "add_wait g a fa b fb = Ok h"
    using added by (auto simp: add_wait_def countsD(3) [OF c] checked_u64_def n_def i_def ts_def h_def
        simp flip: count_of_def split: if_splits)
  with added have h': "h' = h" by simp
  have t: "map_of ts y = (if y = b then Some n else edge_count g a y)" for y
    using or_empty_targets(2) [OF ok, of a y] by (simp add: ts_def table_simps)
  have "ts \<noteq> []" using t [of b] by auto
  then have e: "wait_edges h = set_targets a ts (wait_edges g)" by (simp add: set_targets_def h_def)
  have inc: "map_of (incoming h) y = (if y = b then Some i else map_of (incoming g) y)" for y
    by (simp add: h_def table_simps)
  have "tables_ok h"
  proof (rule tables_ok_set_targets [OF ok _ _ _ _ _ e refl refl])
    fix x m
    show "map_of ts x = Some m \<Longrightarrow> 0 < m" using or_empty_targets(3) [OF ok, of a x m] by (auto simp: t n_def split: if_splits)
    show "map_of (incoming h) x = Some m \<Longrightarrow> 0 < m"
      using tables_okD(7) [OF ok, of x m] by (auto simp: inc i_def split: if_splits)
  qed (use or_empty_targets(1) [OF ok, of a] tables_okD(2,3) [OF ok] in \<open>simp_all add: ts_def h_def table_simps\<close>)
  moreover have "count_of h x y = count (add_mset (a, b) W) (x, y)" for x y
    using countsD(2) [OF c, of x y]
    by (cases "x = a"; cases "y = b") (simp_all add: count_of_set_targets [OF e] t n_def, simp_all add: count_of_def)
  moreover have "(case map_of (incoming h) y of None \<Rightarrow> 0 | Some n \<Rightarrow> n) = into (add_mset (a, b) W) y" for y
    using countsD(3) [OF c, of y] by (simp add: inc i_def)
  ultimately have "counts_ok h (add_mset (a, b) W)" unfolding counts_ok_def by blast
  moreover have "map_of (frames h) n \<noteq> None \<longleftrightarrow>
      n \<in> fst ` set_mset (add_mset (a, b) W) \<union> snd ` set_mset (add_mset (a, b) W)" for n
    using r by (auto simp: h_def represents_def)
  ultimately show ?thesis by (auto simp: represents_def h')
qed

lemma add_wait_returns:
  assumes r: "represents g W" and sz: "size W + 1 < 2 ^ 64"
  obtains h where "add_wait g a fa b fb = Ok h" "represents h (add_mset (a, b) W)"
proof -
  have c: "counts_ok g W" using r by (simp add: represents_def)
  have "into W b + 1 < 2 ^ 64" using into_le_size [of W b] sz by linarith
  moreover have "count_of g a b + 1 < 2 ^ 64"
    using count_le_into [of W a b] into_le_size [of W b] sz unfolding countsD(2) [OF c] by linarith
  ultimately obtain h where "add_wait g a fa b fb = Ok h"
    by (simp add: add_wait_def countsD(3) [OF c] fits_u64_def checked_u64_def flip: count_of_def)
  from this add_wait_represents [OF r this] show thesis by (rule that)
qed

lemma end_wait_represents:
  assumes r: "represents g (add_mset (a, b) W)"
  obtains h where "end_wait g a b = Ok h" "represents h W"
proof -
  define n i where "n = count W (a, b)" and "i = into W b"
  have rc: "counts_ok g (add_mset (a, b) W)" using r by (simp add: represents_def)
  note ok = countsD(1) [OF rc]
  have c: "edge_count g a b = Some (Suc n)"
    using countsD(2) [OF rc, of a b] by (cases "edge_count g a b") (simp_all add: count_of_def n_def)
  have im: "map_of (incoming g) b = Some (Suc i)"
    using countsD(3) [OF rc, of b] by (cases "map_of (incoming g) b") (simp_all add: i_def)
  define ts where "ts = (let old = or_empty (map_of (wait_edges g) a) in if n = 0 then AList.delete b old else AList.update b n old)"
  define g1 where "g1 = g\<lparr>wait_edges := set_targets a ts (wait_edges g),
      incoming := (if i = 0 then AList.delete b (incoming g) else AList.update b i (incoming g))\<rparr>"
  define h where "h = release_frame b (release_frame a g1)"
  have en: "end_wait g a b = Ok h"
    by (simp add: end_wait_def c im Let_def set_targets_def ts_def g1_def h_def)
  have t: "map_of ts y = (if y = b then (if n = 0 then None else Some n) else edge_count g a y)" for y
    using or_empty_targets(2) [OF ok, of a y] by (simp add: ts_def Let_def table_simps)
  have inc: "map_of (incoming h) y = (if y = b then (if i = 0 then None else Some i) else map_of (incoming g) y)" for y
    by (simp add: h_def g1_def table_simps)
  have e: "wait_edges h = set_targets a ts (wait_edges g)" by (simp add: h_def g1_def)
  have "tables_ok h"
  proof (rule tables_ok_set_targets [OF ok _ _ _ _ _ e refl refl])
    fix x m
    show "map_of ts x = Some m \<Longrightarrow> 0 < m" using or_empty_targets(3) [OF ok, of a x m] by (auto simp: t split: if_splits)
    show "map_of (incoming h) x = Some m \<Longrightarrow> 0 < m" using tables_okD(7) [OF ok, of x m] by (auto simp: inc split: if_splits)
  qed (use or_empty_targets(1) [OF ok, of a] tables_okD(2,3) [OF ok] in
      \<open>simp_all add: ts_def h_def g1_def Let_def table_simps distinct_release_frame\<close>)
  moreover have "count_of h x y = count W (x, y)" for x y
    using countsD(2) [OF rc, of x y] c
    by (cases "x = a"; cases "y = b") (simp_all add: count_of_set_targets [OF e] t, simp_all add: count_of_def n_def)
  moreover have "(case map_of (incoming h) y of None \<Rightarrow> 0 | Some n \<Rightarrow> n) = into W y" for y
    using countsD(3) [OF rc, of y] by (simp add: inc i_def split: if_splits)
  ultimately have co: "counts_ok h W" unfolding counts_ok_def by blast
  have "map_of (frames h) x \<noteq> None \<longleftrightarrow> x \<in> fst ` set_mset W \<union> snd ` set_mset W" for x
  proof -
    have "map_of (frames g) x \<noteq> None \<longleftrightarrow> x \<in> insert a (fst ` set_mset W) \<union> insert b (snd ` set_mset W)"
      using r by (simp add: represents_def)
    moreover have "map_of (frames h) x = (if x \<in> {a, b} \<and> map_of (wait_edges h) x = None \<and> map_of (incoming h) x = None
        then None else map_of (frames g) x)"
      by (auto simp: h_def map_of_release_frame g1_def)
    ultimately show ?thesis using edge_key [OF co, of x] incoming_key [OF co, of x] by auto
  qed
  with co en show thesis by (intro that [of h]) (auto simp: represents_def)
qed

section \<open>The graph over a run of the process\<close>

text \<open>
  \<open>W\<close> are the wait guards alive: \<^verbatim>\<open>begin_query_wait\<close> creates one when \<^verbatim>\<open>begin\<close> reports no cycle, and its
  drop ends the wait. Both run under the lock of the graph.
\<close>

inductive wait_reachable :: "('n :: linorder, 'f) query_wait_graph \<Rightarrow> ('n \<times> 'n) multiset \<Rightarrow> bool" where
  idle: "wait_reachable empty_wait_graph {#}"
| started: "wait_reachable g W \<Longrightarrow> begin_wait g a fa b fb = Some (Ok (Inr h)) \<Longrightarrow> wait_reachable h (add_mset (a, b) W)"
| finished: "wait_reachable g (add_mset (a, b) W) \<Longrightarrow> end_wait g a b = Ok h \<Longrightarrow> wait_reachable h W"

lemma begin_wait_path:
  assumes r: "represents g W"
  shows "(b, a) \<notin> (set_mset W)\<^sup>* \<and>
      begin_wait g a fa b fb = Some (bind_r (add_wait g a fa b fb) (\<lambda>g. Ok (Inr g)))
    \<or> (\<exists>p. walk (set_mset W) p \<and> hd p = b \<and> last p = a \<and>
        begin_wait g a fa b fb = Some (Ok (Inl (map (\<lambda>n. the (frame_of g a fa b fb n)) (a # p)))))"
proof (cases "a = b \<or> map_of (wait_edges g) b \<noteq> None")
  case False
  have c: "counts_ok g W" using r by (simp add: represents_def)
  have "b \<notin> fst ` set_mset W" using False edge_key [OF c, of b] by simp
  then have "(b, x) \<notin># W" for x by force
  with False have "(b, a) \<notin> (set_mset W)\<^sup>*" by (auto elim: converse_rtranclE)
  with False show ?thesis by (simp add: begin_wait_def)
next
  case True
  have c: "counts_ok g W" using r by (simp add: represents_def)
  note W = waits_counts [OF c]
  from path_correct [OF tables_okD(1) [OF countsD(1) [OF c]], of b a]
  show ?thesis
  proof
    assume "path g b a = Some None \<and> (b, a) \<notin> (waits g)\<^sup>*"
    with True show ?thesis by (simp add: begin_wait_def W)
  next
    assume "\<exists>p. path g b a = Some (Some p) \<and> walk (waits g) p \<and> hd p = b \<and> last p = a"
    then obtain p where p: "path g b a = Some (Some p)" "walk (set_mset W) p" "hd p = b" "last p = a"
      by (auto simp: W)
    have "frame_of g a fa b fb n \<noteq> None" if "n \<in> set (a # p)" for n
    proof -
      have "n \<in> {a, b} \<or> n \<in> snd ` set_mset W"
      proof -
        have "set p \<subseteq> insert (hd p) (snd ` set_mset W)" using p(2)
          by (induction "set_mset W" p rule: walk.induct) force+
        with that p(3) show ?thesis by auto
      qed
      then have "n \<in> {a, b} \<or> map_of (frames g) n \<noteq> None" using r unfolding represents_def by blast
      then show ?thesis by (cases "map_of (frames g) n") (auto simp: frame_of_def)
    qed
    then have "those_opt (map (frame_of g a fa b fb) (a # p)) = Some (map (\<lambda>n. the (frame_of g a fa b fb n)) (a # p))"
      unfolding those_opt_eq_Some by (simp add: list_all_iff)
    with p True show ?thesis by (auto simp: begin_wait_def)
  qed
qed

lemma wait_reachable_inv: "wait_reachable g W \<Longrightarrow> represents g W \<and> acyclic (set_mset W)"
proof (induction rule: wait_reachable.induct)
  case idle
  show ?case using represents_empty by (simp add: acyclic_def)
next
  case (started g W a fa b fb h)
  then have r: "represents g W" by simp
  from begin_wait_path [OF r, where a = a and b = b and fa = fa and fb = fb] started(2)
  have n: "(b, a) \<notin> (set_mset W)\<^sup>*" and "add_wait g a fa b fb = Ok h"
    by (auto simp: bind_r_def split: sum.splits)
  then have "represents h (add_mset (a, b) W)" by (intro add_wait_represents [OF r])
  moreover have "acyclic (set_mset (add_mset (a, b) W))" using started n by (simp add: acyclic_insert)
  ultimately show ?case by blast
next
  case (finished g a b W h)
  then have "represents h W" using end_wait_represents [of g a b W] by auto
  moreover have "acyclic (set_mset W)" using finished acyclic_subset by (metis set_mset_add_mset_insert subset_insertI)
  ultimately show ?case by blast
qed

text \<open>
  C39. Blocked queries never wait for each other in a circle: in every state the process reaches, the edges
  of the wait guards alive are acyclic, and each of these guards can be released; releasing it leaves a
  graph for exactly the remaining guards.
\<close>

theorem waiting_queries_never_deadlock:
  assumes "wait_reachable g W"
  shows "acyclic (set_mset W) \<and>
    (\<forall>a b. (a, b) \<in># W \<longrightarrow> (\<exists>h. end_wait g a b = Ok h \<and> wait_reachable h (W - {#(a, b)#})))"
proof -
  have inv: "represents g W" "acyclic (set_mset W)" using wait_reachable_inv [OF assms] by simp_all
  have "\<exists>h. end_wait g a b = Ok h \<and> wait_reachable h (W - {#(a, b)#})" if "(a, b) \<in># W" for a b
  proof -
    have W: "W = add_mset (a, b) (W - {#(a, b)#})" using that by simp
    with inv(1) obtain h where "end_wait g a b = Ok h" by (metis end_wait_represents)
    with assms W show ?thesis by (metis wait_reachable.finished)
  qed
  with inv(2) show ?thesis by blast
qed

theorem waiting_queries_never_deadlock_witness:
  "\<exists>g h. end_wait g (Node 0 1) (Node 0 2) = Ok h \<and> wait_reachable (h :: (query_node_id, string) query_wait_graph) {#}"
proof -
  let ?a = "Node 0 1" and ?b = "Node 0 2"
  let ?g = "\<lparr>wait_edges = [(?a, [(?b, 1)])], incoming = [(?b, 1)], frames = [(?a, ''a''), (?b, ''b'')]\<rparr>"
  have "begin_wait empty_wait_graph ?a ''a'' ?b ''b'' = Some (Ok (Inr ?g))"
    by (simp add: begin_wait_def empty_wait_graph_def add_wait_def edge_count_def or_insert_def checked_u64_def fits_u64_def)
  from wait_reachable.started [OF wait_reachable.idle this] have "wait_reachable ?g {#(?a, ?b)#}" .
  from waiting_queries_never_deadlock [OF this] show ?thesis by auto
qed

text \<open>
  C40. A wait is refused exactly when it would close a circle: the check returns, reports the frames of a
  walk from the waiting query through the awaited one back to itself when there is one, and otherwise
  records the wait.
\<close>

theorem begin_wait_detects_cycles:
  assumes "wait_reachable g W" "size W + 1 < 2 ^ 64"
  shows "if (b, a) \<in> (set_mset W)\<^sup>*
    then \<exists>p. walk (set_mset W) p \<and> hd p = b \<and> last p = a \<and>
      begin_wait g a fa b fb = Some (Ok (Inl (map (\<lambda>n. the (frame_of g a fa b fb n)) (a # p))))
    else \<exists>h. begin_wait g a fa b fb = Some (Ok (Inr h)) \<and> wait_reachable h (add_mset (a, b) W)"
proof -
  have r: "represents g W" using wait_reachable_inv [OF assms(1)] by simp
  note p = begin_wait_path [OF r, where a = a and b = b and fa = fa and fb = fb]
  show ?thesis
  proof (cases "(b, a) \<in> (set_mset W)\<^sup>*")
    case True
    with p show ?thesis by auto
  next
    case False
    have "\<not> (walk (set_mset W) q \<and> hd q = b \<and> last q = a)" for q using False walk_reaches by metis
    with p have "begin_wait g a fa b fb = Some (bind_r (add_wait g a fa b fb) (\<lambda>g. Ok (Inr g)))" by blast
    moreover obtain h where "add_wait g a fa b fb = Ok h" using add_wait_returns [OF r assms(2)] by metis
    ultimately have "begin_wait g a fa b fb = Some (Ok (Inr h))" by simp
    with assms(1) False show ?thesis by (auto intro: wait_reachable.started)
  qed
qed

theorem begin_wait_detects_cycles_witness:
  "\<exists>p. walk {} p \<and> hd p = Node 0 1 \<and> last p = Node 0 1 \<and>
     begin_wait empty_wait_graph (Node 0 1) ''q'' (Node 0 1) ''q'' =
       Some (Ok (Inl (map (\<lambda>n. the (frame_of empty_wait_graph (Node 0 1) ''q'' (Node 0 1) ''q'' n)) (Node 0 1 # p))))"
  using begin_wait_detects_cycles [OF wait_reachable.idle, of "Node 0 1" "Node 0 1" "''q''" "''q''"] by simp

end
