(* ===== verification/Nia_Query_Engine.thy ===== *)
theory Nia_Query_Engine
  imports Nia_Query_Graph
begin

text \<open>
  The memoising query engine (\<^verbatim>\<open>nia-query/src/database.rs\<close>, with the slot states of \<^verbatim>\<open>lib.rs\<close> and the
  thread-local stack of \<^verbatim>\<open>dependency.rs\<close>), run by one thread over shared queries of one database. A slot
  is addressed by its key; the order in which slots were created is kept, and stands for the node
  indices. Slots are not retired. The database is a state that every operation returns updated.
\<close>

section \<open>Queries\<close>

datatype 'k ice_context = InQuery 'k | NotReusable

datatype 'k query_error =
  Cycle "'k list" | InvalidInput 'k string | Internal string "'k ice_context list"

text \<open>
  A provider (\<^verbatim>\<open>execute_result\<close>) is a program that asks the database for values and continues with each
  answer, until it returns or fails.
\<close>

datatype ('k, 'v) provider =
  Return 'v
| Throw "'k query_error"
| Ask 'k "('v, 'k query_error) rust_result \<Rightarrow> ('k, 'v) provider"

datatype fingerprint_policy = NoFingerprint | StableValue | SemanticValue

record ('k, 'v, 'fp) queries =
  execute_result :: "'k \<Rightarrow> ('k, 'v) provider"
  policy :: "'k \<Rightarrow> fingerprint_policy"
  key_fingerprint :: "'k \<Rightarrow> 'v \<Rightarrow> 'fp option"
  values_equal :: "'k \<Rightarrow> 'v \<Rightarrow> 'v \<Rightarrow> bool"
  semantic_fingerprint :: "'k \<Rightarrow> nat \<Rightarrow> 'fp"
  single_consumer :: "'k \<Rightarrow> bool"
  externally_published :: "'k \<Rightarrow> bool"


section \<open>The database\<close>

type_synonym ('k, 'fp) dependency_fingerprints = "('k \<times> 'fp option) list"

datatype ('k, 'v, 'fp) query_state =
  Empty
| Consumed
| Published 'v
| Computing bool
| Validating bool
| Ready 'v "'fp option" "('k, 'fp) dependency_fingerprints"
| PotentiallyOutdated 'v 'fp "('k, 'fp) dependency_fingerprints"

record query_slot_stats =
  executions :: nat
  cache_hits :: nat
  waits :: nat
  validations :: nat
  green_validations :: nat

record ('k, 'fp) query_stack_entry =
  entry_node :: 'k
  entry_dependencies :: "'k list"
  entry_fingerprints :: "('k, 'fp) dependency_fingerprints option"

record ('k, 'v, 'fp) query_db =
  slot_order :: "'k list"
  slot_state :: "'k \<Rightarrow> ('k, 'v, 'fp) query_state"
  fingerprint_revision :: "'k \<Rightarrow> nat"
  slot_stats :: "'k \<Rightarrow> query_slot_stats"
  dep_graph :: "'k query_dependency_graph"
  query_stack :: "('k, 'fp) query_stack_entry list"
  internal_failure :: "(string \<times> 'k ice_context list) option"

definition query_db_new :: "('k, 'v, 'fp) query_db" where
  "query_db_new = \<lparr>slot_order = [], slot_state = (\<lambda>_. Empty), fingerprint_revision = (\<lambda>_. 0),
     slot_stats = (\<lambda>_. \<lparr>executions = 0, cache_hits = 0, waits = 0, validations = 0, green_validations = 0\<rparr>),
     dep_graph = empty_graph, query_stack = [], internal_failure = None\<rparr>"

definition set_slot :: "'k \<Rightarrow> ('k, 'v, 'fp) query_state \<Rightarrow> ('k, 'v, 'fp) query_db \<Rightarrow> ('k, 'v, 'fp) query_db" where
  "set_slot k s db = db\<lparr>slot_state := (slot_state db)(k := s)\<rparr>"

definition record_stat ::
  "(query_slot_stats \<Rightarrow> query_slot_stats) \<Rightarrow> 'k \<Rightarrow> ('k, 'v, 'fp) query_db \<Rightarrow> ('k, 'v, 'fp) query_db" where
  "record_stat f k db = db\<lparr>slot_stats := (slot_stats db)(k := f (slot_stats db k))\<rparr>"

abbreviation record_execution :: "'k \<Rightarrow> ('k, 'v, 'fp) query_db \<Rightarrow> ('k, 'v, 'fp) query_db" where
  "record_execution \<equiv> record_stat (\<lambda>s. s\<lparr>executions := executions s + 1\<rparr>)"

abbreviation record_cache_hit :: "'k \<Rightarrow> ('k, 'v, 'fp) query_db \<Rightarrow> ('k, 'v, 'fp) query_db" where
  "record_cache_hit \<equiv> record_stat (\<lambda>s. s\<lparr>cache_hits := cache_hits s + 1\<rparr>)"

abbreviation record_validation :: "'k \<Rightarrow> ('k, 'v, 'fp) query_db \<Rightarrow> ('k, 'v, 'fp) query_db" where
  "record_validation \<equiv> record_stat (\<lambda>s. s\<lparr>validations := validations s + 1\<rparr>)"

abbreviation record_green_validation :: "'k \<Rightarrow> ('k, 'v, 'fp) query_db \<Rightarrow> ('k, 'v, 'fp) query_db" where
  "record_green_validation \<equiv> record_stat (\<lambda>s. s\<lparr>green_validations := green_validations s + 1\<rparr>)"

definition on_graph ::
  "('k query_dependency_graph \<Rightarrow> 'k query_dependency_graph) \<Rightarrow> ('k, 'v, 'fp) query_db \<Rightarrow> ('k, 'v, 'fp) query_db" where
  "on_graph f db = db\<lparr>dep_graph := f (dep_graph db)\<rparr>"

definition slot_for :: "'k \<Rightarrow> ('k, 'v, 'fp) query_db \<Rightarrow> ('k, 'v, 'fp) query_db" where
  "slot_for k db = (if k \<in> set (slot_order db) then db else db\<lparr>slot_order := slot_order db @ [k]\<rparr>)"

text \<open>The index of a node is the position of its slot.\<close>

fun index_in :: "'k list \<Rightarrow> 'k \<Rightarrow> nat" where
  "index_in [] k = 0"
| "index_in (j # js) k = (if j = k then 0 else Suc (index_in js k))"

definition with_query_context :: "'k \<Rightarrow> 'k query_error \<Rightarrow> 'k query_error" where
  "with_query_context k e = (case e of Internal message cs \<Rightarrow> Internal message (cs @ [InQuery k]) | _ \<Rightarrow> e)"

definition internal_query_error :: "'k \<Rightarrow> string \<Rightarrow> 'k query_error" where
  "internal_query_error k message = with_query_context k (Internal message [])"

definition ensure_healthy :: "('k, 'v, 'fp) query_db \<Rightarrow> (unit, 'k query_error) rust_result" where
  "ensure_healthy db = (case internal_failure db of
     Some (message, cs) \<Rightarrow> Err (Internal message (cs @ [NotReusable])) | None \<Rightarrow> Ok ())"

definition record_internal_failure :: "'k query_error \<Rightarrow> ('k, 'v, 'fp) query_db \<Rightarrow> ('k, 'v, 'fp) query_db" where
  "record_internal_failure e db = (case e of
     Internal message cs \<Rightarrow> if internal_failure db = None then db\<lparr>internal_failure := Some (message, cs)\<rparr> else db
   | _ \<Rightarrow> db)"

subsection \<open>The stack of running queries\<close>

text \<open>The head of \<open>query_stack\<close> is the running query; its session is the one of the database.\<close>

definition record_dependency :: "'k \<Rightarrow> ('k, 'v, 'fp) query_db \<Rightarrow> ('k, 'v, 'fp) query_db" where
  "record_dependency to db = (case query_stack db of
     [] \<Rightarrow> db
   | e # es \<Rightarrow> db\<lparr>query_stack :=
       e\<lparr>entry_dependencies := set_insert to (entry_dependencies e),
         entry_fingerprints := map_option (\<lambda>m. if map_of m to = None then AList.update to None m else m)
           (entry_fingerprints e)\<rparr> # es\<rparr>)"

definition record_dependency_fingerprint :: "'k \<Rightarrow> 'fp option \<Rightarrow> ('k, 'v, 'fp) query_db \<Rightarrow> ('k, 'v, 'fp) query_db" where
  "record_dependency_fingerprint to fp db = (case query_stack db of
     [] \<Rightarrow> db
   | e # es \<Rightarrow> db\<lparr>query_stack :=
       e\<lparr>entry_fingerprints := map_option (AList.update to fp) (entry_fingerprints e)\<rparr> # es\<rparr>)"

definition check_not_recursive_node :: "'k \<Rightarrow> ('k, 'v, 'fp) query_db \<Rightarrow> (unit, 'k query_error) rust_result" where
  "check_not_recursive_node k db =
     (let stack = rev (map entry_node (query_stack db))
      in if k \<in> set stack then Err (Cycle (dropWhile (\<lambda>n. n \<noteq> k) stack @ [k])) else Ok ())"

definition enter_query ::
  "('k, 'fp) query_stack_entry \<Rightarrow> ('k, 'v, 'fp) query_db \<Rightarrow> (('k, 'v, 'fp) query_db, 'k query_error) rust_result" where
  "enter_query e db =
     bind_r (check_not_recursive_node (entry_node e) db) (\<lambda>_. Ok (db\<lparr>query_stack := e # query_stack db\<rparr>))"

definition discard :: "('k, 'v, 'fp) query_db \<Rightarrow> ('k, 'v, 'fp) query_db" where
  "discard db = db\<lparr>query_stack := tl (query_stack db)\<rparr>"

definition slot_fingerprint :: "'k \<Rightarrow> ('k, 'v, 'fp) query_db \<Rightarrow> 'fp option" where
  "slot_fingerprint k db = (case slot_state db k of Ready _ fp _ \<Rightarrow> fp | _ \<Rightarrow> None)"

definition was_invalidated :: "('k, 'v, 'fp) query_state \<Rightarrow> bool" where
  "was_invalidated s = (case s of Validating i \<Rightarrow> i | Computing i \<Rightarrow> i | _ \<Rightarrow> False)"


section \<open>Getting a value\<close>

text \<open>The fingerprint of a value just computed, by the policy of the key.\<close>

definition value_fingerprint ::
  "('k, 'v, 'fp) queries \<Rightarrow> 'k \<Rightarrow> 'v \<Rightarrow> ('v \<times> 'fp) option \<Rightarrow> ('k, 'v, 'fp) query_db \<Rightarrow>
    ('fp option \<times> ('k, 'v, 'fp) query_db, 'k query_error) rust_result" where
  "value_fingerprint q k value stale db =
     (case policy q k of
        NoFingerprint \<Rightarrow>
          if key_fingerprint q k value \<noteq> None
          then Err (internal_query_error k ''query returned a fingerprint without declaring a policy'')
          else Ok (None, db)
      | StableValue \<Rightarrow>
          (case key_fingerprint q k value of
             None \<Rightarrow> Err (internal_query_error k ''stable value query did not produce a fingerprint'')
           | Some fp \<Rightarrow> Ok (Some fp, db))
      | SemanticValue \<Rightarrow>
          if key_fingerprint q k value \<noteq> None
          then Err (internal_query_error k ''semantic value query must use values_equal, not fingerprint'')
          else (case filter_opt (\<lambda>(old, _). values_equal q k old value) stale of
                  Some (_, fp) \<Rightarrow> Ok (Some fp, db)
                | None \<Rightarrow> Ok (Some (semantic_fingerprint q k (fingerprint_revision db k)),
                    db\<lparr>fingerprint_revision := (fingerprint_revision db)(k := fingerprint_revision db k + 1)\<rparr>)))"

text \<open>
  The three long branches of \<^verbatim>\<open>try_get_cached\<close>. Their calls back into the engine are arguments; such a call
  returns \<^term>\<open>None\<close> when it does not return. \<open>validate_slot\<close> is the branch of a potentially outdated slot,
  \<open>compute_slot\<close> the one of an empty slot, \<open>publish_value\<close> the end of the latter.
\<close>

type_synonym ('a, 'k, 'v, 'fp) query_outcome =
  "(('a, 'k query_error) rust_result \<times> ('k, 'v, 'fp) query_db) option"

definition validate_slot ::
  "(('k, 'fp) dependency_fingerprints \<Rightarrow> ('k, 'v, 'fp) query_db \<Rightarrow>
      (('k \<times> query_validation_failure_reason) option, 'k, 'v, 'fp) query_outcome) \<Rightarrow>
   (('v \<times> 'fp) option \<Rightarrow> ('k, 'v, 'fp) query_db \<Rightarrow> ('v, 'k, 'v, 'fp) query_outcome) \<Rightarrow>
   'k \<Rightarrow> 'v \<Rightarrow> 'fp \<Rightarrow> ('k, 'fp) dependency_fingerprints \<Rightarrow> ('k, 'v, 'fp) query_db \<Rightarrow> ('v, 'k, 'v, 'fp) query_outcome" where
  "validate_slot validate loop k v fp ds db =
     (case check_not_recursive_node k db of
        Inl e \<Rightarrow> Some (Err e, db)
      | Inr _ \<Rightarrow>
          (case enter_query \<lparr>entry_node = k, entry_dependencies = [], entry_fingerprints = Some []\<rparr>
                  (set_slot k (Validating False) db) of
             Inl e \<Rightarrow> Some (Err e, set_slot k (PotentiallyOutdated v fp ds) (set_slot k (Validating False) db))
           | Inr db \<Rightarrow>
               (case validate (sort_key (\<lambda>d. index_in (slot_order db) (fst d)) ds) (record_validation k db) of
                  None \<Rightarrow> None
                | Some (Inl e, db) \<Rightarrow>
                    let db = discard db;
                        db = (if was_invalidated (slot_state db k)
                              then on_graph (remove_dependencies_from k) (set_slot k Empty db)
                              else set_slot k (PotentiallyOutdated v fp ds) db)
                    in Some (Err (with_query_context k e), db)
                | Some (Inr failure, db) \<Rightarrow>
                    let db = (case failure of
                                Some (dependency, reason) \<Rightarrow> on_graph (record_validation_failure k dependency reason) db
                              | None \<Rightarrow> db);
                        db = discard db
                    in if failure = None \<and> \<not> was_invalidated (slot_state db k)
                       then Some (Ok v, record_dependency_fingerprint k (Some fp)
                              (record_cache_hit k (record_green_validation k (set_slot k (Ready v (Some fp) ds) db))))
                       else loop (Some (v, fp)) (set_slot k Empty db))))"

definition publish_value ::
  "('k, 'v, 'fp) queries \<Rightarrow> 'k \<Rightarrow> ('v \<times> 'fp) option \<Rightarrow> 'v \<Rightarrow> ('k, 'v, 'fp) query_db \<Rightarrow>
    ('v, 'k query_error) rust_result \<times> ('k, 'v, 'fp) query_db" where
  "publish_value q k stale v db =
     (case value_fingerprint q k v stale db of
        Inl e \<Rightarrow> (Err e, on_graph (remove_dependencies_from k) (discard (set_slot k Empty db)))
      | Inr (fp, db) \<Rightarrow>
          if slot_state db k = Computing True
          then (Ok v, record_dependency_fingerprint k None
                 (on_graph (remove_dependencies_from k) (discard (set_slot k Empty db))))
          else
            let e = hd (query_stack db)
            in (Ok v, record_dependency_fingerprint k fp
                 (set_slot k (Ready v fp (case entry_fingerprints e of None \<Rightarrow> [] | Some m \<Rightarrow> m))
                   (on_graph (replace_dependencies_from k (entry_dependencies e)) (discard db)))))"

definition compute_slot ::
  "(('k, 'v) provider \<Rightarrow> ('k, 'v, 'fp) query_db \<Rightarrow> ('v, 'k, 'v, 'fp) query_outcome) \<Rightarrow>
   ('k, 'v, 'fp) queries \<Rightarrow> 'k \<Rightarrow> ('v \<times> 'fp) option \<Rightarrow> ('k, 'v, 'fp) query_db \<Rightarrow> ('v, 'k, 'v, 'fp) query_outcome" where
  "compute_slot run q k stale db =
     (if externally_published q k
      then Some (Err (InvalidInput k ''shared product has not been published by its producer''), db)
      else
        let db = on_graph (remove_dependencies_from k) (set_slot k (Computing False) db)
        in (case enter_query \<lparr>entry_node = k, entry_dependencies = [],
                   entry_fingerprints = (if policy q k \<noteq> NoFingerprint then Some [] else None)\<rparr> db of
              Inl e \<Rightarrow> Some (Err e, db)
            | Inr db \<Rightarrow>
                (case run (execute_result q k) (record_execution k db) of
                   None \<Rightarrow> None
                 | Some (Inl e, db) \<Rightarrow>
                     let db = on_graph (remove_dependencies_from k) (discard (set_slot k Empty db));
                         e = with_query_context k e
                     in Some (Err e, record_internal_failure e db)
                 | Some (Inr v, db) \<Rightarrow> Some (publish_value q k stale v db))))"

text \<open>
  \<open>get\<close>, the loop of \<^verbatim>\<open>try_get_cached\<close>, the execution of a provider, and the validation of recorded
  fingerprints. The first argument bounds the depth of the computation; \<^term>\<open>None\<close> means the bound was
  reached, or that a slot is being computed by another thread, for which this one would wait.
\<close>

fun get :: "nat \<Rightarrow> ('k, 'v, 'fp) queries \<Rightarrow> 'k \<Rightarrow> ('k, 'v, 'fp) query_db \<Rightarrow> ('v, 'k, 'v, 'fp) query_outcome"
  and try_get_cached ::
    "nat \<Rightarrow> ('k, 'v, 'fp) queries \<Rightarrow> 'k \<Rightarrow> ('v \<times> 'fp) option \<Rightarrow> ('k, 'v, 'fp) query_db \<Rightarrow> ('v, 'k, 'v, 'fp) query_outcome"
  and run_provider ::
    "nat \<Rightarrow> ('k, 'v, 'fp) queries \<Rightarrow> ('k, 'v) provider \<Rightarrow> ('k, 'v, 'fp) query_db \<Rightarrow> ('v, 'k, 'v, 'fp) query_outcome"
  and dependency_validation_failure ::
    "nat \<Rightarrow> ('k, 'v, 'fp) queries \<Rightarrow> ('k, 'fp) dependency_fingerprints \<Rightarrow> ('k, 'v, 'fp) query_db \<Rightarrow>
      (('k \<times> query_validation_failure_reason) option, 'k, 'v, 'fp) query_outcome" where
  "get 0 q k db = None"
| "get (Suc n) q k db =
     (case ensure_healthy db of
        Inl e \<Rightarrow> Some (Err e, db)
      | Inr _ \<Rightarrow>
          if single_consumer q k
          then Some (Err (internal_query_error k ''single-consumer query must be requested with get_owned''), db)
          else try_get_cached n q k None (record_dependency k (slot_for k db)))"
| "try_get_cached 0 q k stale db = None"
| "try_get_cached (Suc n) q k stale db =
     (case slot_state db k of
        Published _ \<Rightarrow> Some (Err (internal_query_error k ''shared query reached published owned state''), db)
      | Consumed \<Rightarrow> Some (Err (internal_query_error k ''shared query reached single-consumer state''), db)
      | Ready v fp _ \<Rightarrow> Some (Ok v, record_dependency_fingerprint k fp (record_cache_hit k db))
      | Computing _ \<Rightarrow> (case check_not_recursive_node k db of Inl e \<Rightarrow> Some (Err e, db) | Inr _ \<Rightarrow> None)
      | Validating _ \<Rightarrow> (case check_not_recursive_node k db of Inl e \<Rightarrow> Some (Err e, db) | Inr _ \<Rightarrow> None)
      | PotentiallyOutdated v fp ds \<Rightarrow>
          validate_slot (dependency_validation_failure n q) (try_get_cached n q k) k v fp ds db
      | Empty \<Rightarrow> compute_slot (run_provider n q) q k stale db)"
| "run_provider 0 q p db = None"
| "run_provider (Suc n) q p db =
     (case p of
        Return v \<Rightarrow> Some (Ok v, db)
      | Throw e \<Rightarrow> Some (Err e, db)
      | Ask k continue \<Rightarrow>
          (case get n q k db of None \<Rightarrow> None | Some (r, db) \<Rightarrow> run_provider n q (continue r) db))"
| "dependency_validation_failure 0 q ds db = None"
| "dependency_validation_failure (Suc n) q ds db =
     (case ds of
        [] \<Rightarrow> Some (Ok None, db)
      | (d, expected) # rest \<Rightarrow>
          (case expected of
             None \<Rightarrow> Some (Ok (Some (d, Unfingerprinted)), db)
           | Some fp \<Rightarrow>
               (case get n q d db of
                  None \<Rightarrow> None
                | Some (Inl e, db) \<Rightarrow> Some (Err e, db)
                | Some (Inr _, db) \<Rightarrow>
                    if slot_fingerprint d db \<noteq> Some fp then Some (Ok (Some (d, Changed)), db)
                    else dependency_validation_failure n q rest db)))"


section \<open>Invalidation\<close>

definition invalidate_state :: "('k, 'v, 'fp) query_state \<Rightarrow> ('k, 'v, 'fp) query_state" where
  "invalidate_state s = (case s of Computing _ \<Rightarrow> Computing True | Validating _ \<Rightarrow> Validating True | _ \<Rightarrow> Empty)"

datatype disposition = Cleared | Outdated

definition mark_potentially_outdated :: "('k, 'v, 'fp) query_state \<Rightarrow> ('k, 'v, 'fp) query_state \<times> disposition" where
  "mark_potentially_outdated s =
     (case s of
        Ready v fp ds \<Rightarrow>
          (case fp of Some fp \<Rightarrow> (PotentiallyOutdated v fp ds, Outdated) | None \<Rightarrow> (Empty, Cleared))
      | PotentiallyOutdated v fp ds \<Rightarrow> (PotentiallyOutdated v fp ds, Outdated)
      | Computing _ \<Rightarrow> (Computing True, Cleared)
      | Validating _ \<Rightarrow> (Validating True, Cleared)
      | _ \<Rightarrow> (Empty, Cleared))"

fun mark_dependents :: "'k list \<Rightarrow> ('k, 'v, 'fp) query_db \<Rightarrow> 'k list \<times> ('k, 'v, 'fp) query_db" where
  "mark_dependents [] db = ([], db)"
| "mark_dependents (k # ks) db =
     (case mark_potentially_outdated (slot_state db k) of
        (s, d) \<Rightarrow>
          (case mark_dependents ks (set_slot k s db) of
             (cleared, db) \<Rightarrow> (if d = Cleared then k # cleared else cleared, db)))"

definition invalidate_cached_root :: "'k \<Rightarrow> ('k, 'v, 'fp) query_db \<Rightarrow> 'k list \<times> ('k, 'v, 'fp) query_db" where
  "invalidate_cached_root root db =
     (let invalidated = collect_dependents root (dep_graph db);
          db = set_slot root (invalidate_state (slot_state db root)) db
      in case mark_dependents (tl invalidated) db of
           (cleared, db) \<Rightarrow> (invalidated, on_graph (fold remove_dependencies_from (root # cleared)) db))"

definition invalidate :: "'k \<Rightarrow> ('k, 'v, 'fp) query_db \<Rightarrow> 'k list \<times> ('k, 'v, 'fp) query_db" where
  "invalidate k db = (if k \<in> set (slot_order db) then invalidate_cached_root k db else ([k], db))"

definition validate_input ::
  "('k, 'v, 'fp) queries \<Rightarrow> 'k \<Rightarrow> 'v \<Rightarrow> ('k, 'v, 'fp) query_db \<Rightarrow>
    ('k list, 'k query_error) rust_result \<times> ('k, 'v, 'fp) query_db" where
  "validate_input q k current db =
     (if policy q k \<noteq> StableValue
      then (Err (internal_query_error k ''query must declare a stable value fingerprint before input validation''), db)
      else case key_fingerprint q k current of
             None \<Rightarrow> (Err (internal_query_error k ''stable value query did not produce a fingerprint''), db)
           | Some current_fp \<Rightarrow>
               if k \<notin> set (slot_order db) then (Ok [], db)
               else
                 let red = (case invalidate_cached_root k db of (ks, db) \<Rightarrow> (Ok ks, db))
                 in case slot_state db k of
                      Empty \<Rightarrow> (Ok [], db)
                    | Consumed \<Rightarrow> (Ok [], db)
                    | Published _ \<Rightarrow> (Ok [], db)
                    | Computing _ \<Rightarrow> red
                    | Validating _ \<Rightarrow> red
                    | PotentiallyOutdated v fp ds \<Rightarrow>
                        if fp = current_fp then (Ok [], set_slot k (Ready v (Some fp) ds) db) else red
                    | Ready v fp ds \<Rightarrow> if fp = Some current_fp then (Ok [], db) else red)"

end
