(* ===== verification/Nia_Query_Soundness.thy ===== *)
theory Nia_Query_Soundness
  imports Nia_Query_Engine
begin

text \<open>
  What the query engine promises: a value it returns, from whatever mixture of cached, validated and
  recomputed slots, is the value of a from-scratch evaluation by the current providers.
\<close>

section \<open>Reference evaluation\<close>

text \<open>A trace lists the questions of a provider with their answers.\<close>

inductive follows :: "('k, 'v) provider \<Rightarrow> ('k \<times> 'v) list \<Rightarrow> ('k, 'v) provider \<Rightarrow> bool" where
  stop: "follows p [] p"
| ask: "follows (c (Ok u)) tr p \<Longrightarrow> follows (Ask d c) ((d, u) # tr) p"

inductive_simps follows_Nil [simp]: "follows p [] p'"
inductive_cases follows_ConsE: "follows p (x # tr) p'"

lemma follows_append: "follows p tr p' \<Longrightarrow> follows p' tr' p'' \<Longrightarrow> follows p (tr @ tr') p''"
  by (induction rule: follows.induct) (auto intro: follows.intros)

inductive evaluates :: "('k, 'v, 'fp) queries \<Rightarrow> 'k \<Rightarrow> 'v \<Rightarrow> bool" for q where
  evaluates: "\<not> single_consumer q k \<Longrightarrow> \<not> externally_published q k \<Longrightarrow>
    follows (execute_result q k) tr (Return v) \<Longrightarrow> \<forall>(d, u) \<in> set tr. evaluates q d u \<Longrightarrow> evaluates q k v"

lemma follows_unique:
  "follows p tr (Return v) \<Longrightarrow> follows p tr' (Return v') \<Longrightarrow>
   (\<And>d u u'. (d, u) \<in> set tr \<Longrightarrow> (d, u') \<in> set tr' \<Longrightarrow> u = u') \<Longrightarrow> v = v'"
proof (induction p tr "Return v :: ('a, 'b) provider" arbitrary: tr' rule: follows.induct)
  case stop
  then show ?case by (auto elim: follows.cases)
next
  case (ask c u tr d)
  from ask.prems(1) obtain u' tr'' where tr': "tr' = (d, u') # tr''" "follows (c (Ok u')) tr'' (Return v')"
    by (auto elim: follows.cases)
  have "u = u'" using ask.prems(2) [of d u u'] tr'(1) by simp
  with tr' show ?case by (intro ask.hyps(2) [of tr'']) (auto intro: ask.prems(2))
qed

lemma evaluates_unique: "evaluates q k v \<Longrightarrow> evaluates q k v' \<Longrightarrow> v = v'"
proof (induction arbitrary: v' rule: evaluates.induct)
  case (evaluates k tr v)
  from evaluates.prems obtain tr' where tr': "follows (execute_result q k) tr' (Return v')"
    "\<forall>(d, u) \<in> set tr'. evaluates q d u" by (auto elim: evaluates.cases)
  show ?case by (rule follows_unique [OF evaluates.hyps(3) tr'(1)]) (use evaluates.IH tr'(2) in blast)
qed

text \<open>
  What is asked of the providers: they pass on the failure of a question, fingerprints identify values,
  and two values a key calls equal are equal.
\<close>

primrec propagates :: "('k, 'v) provider \<Rightarrow> bool" where
  "propagates (Return v) = True"
| "propagates (Throw e) = True"
| "propagates (Ask d c) = ((\<forall>e. \<exists>e'. c (Err e) = Throw e') \<and> (\<forall>r. propagates (c r)))"

definition faithful :: "('k, 'v, 'fp) queries \<Rightarrow> bool" where
  "faithful q \<longleftrightarrow>
     (\<forall>k. propagates (execute_result q k)) \<and>
     (\<forall>k v v' fp. key_fingerprint q k v = Some fp \<longrightarrow> key_fingerprint q k v' = Some fp \<longrightarrow> v = v') \<and>
     (\<forall>k r r'. semantic_fingerprint q k r = semantic_fingerprint q k r' \<longrightarrow> r = r') \<and>
     (\<forall>k v v'. values_equal q k v v' \<longrightarrow> v = v')"

section \<open>The invariant\<close>

text \<open>
  \<open>H k r\<close> is the value for which slot \<open>k\<close> drew its semantic revision \<open>r\<close>; a fingerprint names a value.
\<close>

type_synonym ('k, 'v) drawn = "'k \<Rightarrow> nat \<Rightarrow> 'v"

definition named :: "('k, 'v, 'fp) queries \<Rightarrow> ('k, 'v) drawn \<Rightarrow> ('k \<Rightarrow> nat) \<Rightarrow> 'k \<Rightarrow> 'fp \<Rightarrow> 'v \<Rightarrow> bool" where
  "named q H rv k fp v \<longleftrightarrow>
     (case policy q k of
        NoFingerprint \<Rightarrow> False
      | StableValue \<Rightarrow> key_fingerprint q k v = Some fp
      | SemanticValue \<Rightarrow> \<exists>r < rv k. fp = semantic_fingerprint q k r \<and> H k r = v)"

definition extends :: "('k, 'v) drawn \<Rightarrow> ('k \<Rightarrow> nat) \<Rightarrow> ('k, 'v) drawn \<Rightarrow> ('k \<Rightarrow> nat) \<Rightarrow> bool" where
  "extends H rv H' rv' \<longleftrightarrow> (\<forall>k. rv k \<le> rv' k \<and> (\<forall>r < rv k. H' k r = H k r))"

lemma extends_refl [simp]: "extends H rv H rv"
  by (simp add: extends_def)

lemma extends_trans: "extends H rv H' rv' \<Longrightarrow> extends H' rv' H'' rv'' \<Longrightarrow> extends H rv H'' rv''"
  unfolding extends_def by (metis le_trans less_le_trans)

lemma named_extends: "named q H rv k fp v \<Longrightarrow> extends H rv H' rv' \<Longrightarrow> named q H' rv' k fp v"
  unfolding named_def extends_def by (cases "policy q k") (simp_all, metis less_le_trans)

lemma named_unique: "faithful q \<Longrightarrow> named q H rv k fp v \<Longrightarrow> named q H rv k fp v' \<Longrightarrow> v = v'"
  unfolding named_def faithful_def by (cases "policy q k") (simp; blast)+

text \<open>The fingerprints recorded for the questions of a trace.\<close>

definition fingerprints_ok ::
  "('k, 'v, 'fp) queries \<Rightarrow> ('k, 'v) drawn \<Rightarrow> ('k \<Rightarrow> nat) \<Rightarrow> ('k, 'fp) dependency_fingerprints \<Rightarrow> ('k \<times> 'v) list \<Rightarrow> bool" where
  "fingerprints_ok q H rv m tr \<longleftrightarrow> distinct (map fst m) \<and> fst ` set m = fst ` set tr \<and>
     (\<forall>(d, u) \<in> set tr. \<forall>fp. (d, Some fp) \<in> set m \<longrightarrow> named q H rv d fp u)"

definition recorded ::
  "('k, 'v, 'fp) queries \<Rightarrow> ('k, 'v) drawn \<Rightarrow> ('k, 'v, 'fp) query_db \<Rightarrow> 'k \<Rightarrow> 'v \<Rightarrow> 'fp option \<Rightarrow>
    ('k, 'fp) dependency_fingerprints \<Rightarrow> ('k \<times> 'v) list \<Rightarrow> bool" where
  "recorded q H db k v fp ds tr \<longleftrightarrow>
     \<not> single_consumer q k \<and> \<not> externally_published q k \<and>
     follows (execute_result q k) tr (Return v) \<and> edges (dep_graph db) `` {k} = fst ` set tr \<and>
     (if policy q k = NoFingerprint then fp = None
      else (\<exists>f. fp = Some f \<and> named q H (fingerprint_revision db) k f v) \<and>
        fingerprints_ok q H (fingerprint_revision db) ds tr)"

abbreviation ready :: "('k, 'v, 'fp) query_db \<Rightarrow> 'k \<Rightarrow> 'v \<Rightarrow> bool" where
  "ready db d u \<equiv> \<exists>fp ds. slot_state db d = Ready u fp ds"

definition stack_nodes :: "('k, 'v, 'fp) query_db \<Rightarrow> 'k list" where
  "stack_nodes db = map entry_node (query_stack db)"

definition slot_ok :: "('k, 'v, 'fp) queries \<Rightarrow> ('k, 'v) drawn \<Rightarrow> ('k, 'v, 'fp) query_db \<Rightarrow> 'k \<Rightarrow> bool" where
  "slot_ok q H db k \<longleftrightarrow>
     (case slot_state db k of
        Ready v fp ds \<Rightarrow> evaluates q k v \<and>
          (\<exists>tr. recorded q H db k v fp ds tr \<and> (\<forall>(d, u) \<in> set tr. ready db d u))
      | PotentiallyOutdated v fp ds \<Rightarrow> \<exists>tr. recorded q H db k v (Some fp) ds tr
      | Empty \<Rightarrow> True
      | Computing i \<Rightarrow> \<not> i \<and> k \<in> set (stack_nodes db)
      | Validating i \<Rightarrow> \<not> i \<and> k \<in> set (stack_nodes db)
      | Consumed \<Rightarrow> False
      | Published _ \<Rightarrow> False)"

definition running :: "('k, 'v, 'fp) query_state \<Rightarrow> bool" where
  "running s \<longleftrightarrow> s = Computing False \<or> s = Validating False"

definition engine_ok :: "('k, 'v, 'fp) queries \<Rightarrow> ('k, 'v) drawn \<Rightarrow> ('k, 'v, 'fp) query_db \<Rightarrow> bool" where
  "engine_ok q H db \<longleftrightarrow> lockstep (dep_graph db) \<and> (\<forall>k. slot_ok q H db k) \<and>
     distinct (stack_nodes db) \<and> (\<forall>k \<in> set (stack_nodes db). running (slot_state db k))"

lemma engine_okD:
  assumes "engine_ok q H db"
  shows "lockstep (dep_graph db)" "slot_ok q H db k" "distinct (stack_nodes db)"
    "k \<in> set (stack_nodes db) \<Longrightarrow> running (slot_state db k)"
  using assms by (simp_all add: engine_ok_def)

text \<open>What a call leaves alone: ready slots, and the slots in \<open>S\<close>.\<close>

definition keeps :: "'k set \<Rightarrow> ('k, 'v) drawn \<Rightarrow> ('k, 'v, 'fp) query_db \<Rightarrow> ('k, 'v) drawn \<Rightarrow> ('k, 'v, 'fp) query_db \<Rightarrow> bool" where
  "keeps S H db H' db' \<longleftrightarrow> extends H (fingerprint_revision db) H' (fingerprint_revision db') \<and>
     (\<forall>k v fp ds. slot_state db k = Ready v fp ds \<longrightarrow> slot_state db' k = Ready v fp ds) \<and>
     (\<forall>k \<in> S. slot_state db' k = slot_state db k \<and> edges (dep_graph db') `` {k} = edges (dep_graph db) `` {k})"

lemma keepsD:
  assumes "keeps S H db H' db'"
  shows "extends H (fingerprint_revision db) H' (fingerprint_revision db')"
    "slot_state db k = Ready v fp ds \<Longrightarrow> slot_state db' k = Ready v fp ds"
    "k \<in> S \<Longrightarrow> slot_state db' k = slot_state db k"
    "k \<in> S \<Longrightarrow> edges (dep_graph db') `` {k} = edges (dep_graph db) `` {k}"
  using assms unfolding keeps_def by blast+

lemma keeps_trans: "keeps S H db H' db' \<Longrightarrow> keeps S H' db' H'' db'' \<Longrightarrow> keeps S H db H'' db''"
  unfolding keeps_def
  by (elim conjE, intro conjI, erule (1) extends_trans) simp_all

lemma keeps_mono: "keeps S H db H' db' \<Longrightarrow> T \<subseteq> S \<Longrightarrow> keeps T H db H' db'"
  unfolding keeps_def by blast

text \<open>Fields the invariant does not read.\<close>

definition same_core :: "('k, 'v, 'fp) query_db \<Rightarrow> ('k, 'v, 'fp) query_db \<Rightarrow> bool" where
  "same_core db db' \<longleftrightarrow> slot_state db' = slot_state db \<and> fingerprint_revision db' = fingerprint_revision db \<and>
     edges (dep_graph db') = edges (dep_graph db) \<and> lockstep (dep_graph db') = lockstep (dep_graph db) \<and>
     stack_nodes db' = stack_nodes db"

lemma same_core_engine_ok:
  assumes "same_core db db'"
  shows "engine_ok q H db' \<longleftrightarrow> engine_ok q H db"
proof -
  note c = assms [unfolded same_core_def]
  have "recorded q H db' = recorded q H db" by (intro ext) (simp add: recorded_def c)
  then have "slot_ok q H db' k = slot_ok q H db k" for k
    using c by (cases "slot_state db k") (simp_all add: slot_ok_def)
  with c show ?thesis by (simp add: engine_ok_def)
qed

lemma same_core_keeps: "same_core db db' \<Longrightarrow> keeps S H db H db'"
  unfolding same_core_def keeps_def by simp

text \<open>One slot changes, which was not ready.\<close>

lemma fingerprints_ok_extends:
  assumes ok: "fingerprints_ok q H rv ds tr" and ext: "extends H rv H' rv'"
  shows "fingerprints_ok q H' rv' ds tr"
proof -
  have "named q H' rv' d fp u" if "(d, u) \<in> set tr" "(d, Some fp) \<in> set ds" for d u fp
  proof (rule named_extends [OF _ ext])
    show "named q H rv d fp u" using ok that unfolding fingerprints_ok_def by blast
  qed
  with ok show ?thesis by (simp add: fingerprints_ok_def Ball_def)
qed

lemma recorded_mono:
  assumes r: "recorded q H db k v fp ds tr" and ext: "extends H (fingerprint_revision db) H' (fingerprint_revision db')"
    and e: "edges (dep_graph db') `` {k} = edges (dep_graph db) `` {k}"
  shows "recorded q H' db' k v fp ds tr"
proof (cases "policy q k = NoFingerprint")
  case True
  then show ?thesis using r unfolding recorded_def e by simp
next
  case False
  then obtain f where f: "fp = Some f" "named q H (fingerprint_revision db) k f v"
    and ok: "fingerprints_ok q H (fingerprint_revision db) ds tr" using r unfolding recorded_def by auto
  have "named q H' (fingerprint_revision db') k f v" using f(2) ext by (rule named_extends)
  with False f(1) fingerprints_ok_extends [OF ok ext] show ?thesis using r unfolding recorded_def e by simp
qed

lemma engine_ok_update:
  assumes ok: "engine_ok q H db" and lock: "lockstep (dep_graph db')"
    and nr: "\<And>v fp ds. slot_state db k \<noteq> Ready v fp ds"
    and other: "\<And>j. j \<noteq> k \<Longrightarrow> slot_state db' j = slot_state db j"
      "\<And>j. j \<noteq> k \<Longrightarrow> edges (dep_graph db') `` {j} = edges (dep_graph db) `` {j}"
      "\<And>j. j \<noteq> k \<Longrightarrow> j \<in> set (stack_nodes db') \<longleftrightarrow> j \<in> set (stack_nodes db)"
    and ext: "extends H (fingerprint_revision db) H' (fingerprint_revision db')"
    and k: "slot_ok q H' db' k" "k \<in> set (stack_nodes db') \<Longrightarrow> running (slot_state db' k)"
    and dist: "distinct (stack_nodes db')"
  shows "engine_ok q H' db'" "keeps (set (stack_nodes db) - {k}) H db H' db'"
proof -
  have r: "ready db' d u" if "ready db d u" for d u using that nr other(1) [of d] by (cases "d = k") auto
  have "slot_ok q H' db' j" for j
  proof (cases "j = k")
    case False
    note j = other [OF False] and okj = engine_okD(2) [OF ok, of j]
    show ?thesis
    proof (cases "slot_state db j")
      case (Ready v fp ds)
      with okj obtain tr where tr: "evaluates q j v" "recorded q H db j v fp ds tr" "\<forall>(d, u) \<in> set tr. ready db d u"
        by (auto simp: slot_ok_def)
      have "\<forall>(d, u) \<in> set tr. ready db' d u" using tr(3) r by blast
      with tr(1) recorded_mono [OF tr(2) ext j(2)] show ?thesis
        unfolding slot_ok_def j(1) Ready query_state.case by blast
    next
      case (PotentiallyOutdated v fp ds)
      with okj obtain tr where "recorded q H db j v (Some fp) ds tr" by (auto simp: slot_ok_def)
      from recorded_mono [OF this ext j(2)] show ?thesis
        unfolding slot_ok_def j(1) PotentiallyOutdated query_state.case by blast
    qed (use okj j in \<open>auto simp: slot_ok_def\<close>)
  qed (use k in simp)
  moreover have "running (slot_state db' j)" if "j \<in> set (stack_nodes db')" for j
    using that other(1,3) [of j] k(2) engine_okD(4) [OF ok, of j] by (cases "j = k") auto
  ultimately show "engine_ok q H' db'" using lock dist by (simp add: engine_ok_def)
  have "slot_state db' j = Ready v fp ds" if "slot_state db j = Ready v fp ds" for j v fp ds
    using that nr other(1) [of j] by (cases "j = k") auto
  then show "keeps (set (stack_nodes db) - {k}) H db H' db'" using ext other by (auto simp: keeps_def)
qed

section \<open>Effect of the small operations\<close>

named_theorems db_simps \<open>fields of an updated database\<close>

lemma set_slot_fields [db_simps]:
  "slot_state (set_slot k s db) = (slot_state db)(k := s)" "fingerprint_revision (set_slot k s db) = fingerprint_revision db"
  "dep_graph (set_slot k s db) = dep_graph db" "query_stack (set_slot k s db) = query_stack db"
  "slot_order (set_slot k s db) = slot_order db" "internal_failure (set_slot k s db) = internal_failure db"
  by (simp_all add: set_slot_def)

lemma record_stat_fields [db_simps]:
  "slot_state (record_stat f k db) = slot_state db" "fingerprint_revision (record_stat f k db) = fingerprint_revision db"
  "dep_graph (record_stat f k db) = dep_graph db" "query_stack (record_stat f k db) = query_stack db"
  "slot_order (record_stat f k db) = slot_order db" "internal_failure (record_stat f k db) = internal_failure db"
  by (simp_all add: record_stat_def)

lemma on_graph_fields [db_simps]:
  "slot_state (on_graph f db) = slot_state db" "fingerprint_revision (on_graph f db) = fingerprint_revision db"
  "dep_graph (on_graph f db) = f (dep_graph db)" "query_stack (on_graph f db) = query_stack db"
  "slot_order (on_graph f db) = slot_order db" "internal_failure (on_graph f db) = internal_failure db"
  by (simp_all add: on_graph_def)

lemma slot_for_fields [db_simps]:
  "slot_state (slot_for k db) = slot_state db" "fingerprint_revision (slot_for k db) = fingerprint_revision db"
  "dep_graph (slot_for k db) = dep_graph db" "query_stack (slot_for k db) = query_stack db"
  "internal_failure (slot_for k db) = internal_failure db"
  by (simp_all add: slot_for_def)

lemma discard_fields [db_simps]:
  "slot_state (discard db) = slot_state db" "fingerprint_revision (discard db) = fingerprint_revision db"
  "dep_graph (discard db) = dep_graph db" "query_stack (discard db) = tl (query_stack db)"
  "slot_order (discard db) = slot_order db" "internal_failure (discard db) = internal_failure db"
  by (simp_all add: discard_def)

definition note_dependency :: "'k \<Rightarrow> ('k, 'fp) query_stack_entry \<Rightarrow> ('k, 'fp) query_stack_entry" where
  "note_dependency to e = e\<lparr>entry_dependencies := set_insert to (entry_dependencies e),
     entry_fingerprints := map_option (\<lambda>m. if map_of m to = None then AList.update to None m else m) (entry_fingerprints e)\<rparr>"

definition note_fingerprint :: "'k \<Rightarrow> 'fp option \<Rightarrow> ('k, 'fp) query_stack_entry \<Rightarrow> ('k, 'fp) query_stack_entry" where
  "note_fingerprint to fp e = e\<lparr>entry_fingerprints := map_option (AList.update to fp) (entry_fingerprints e)\<rparr>"

definition on_top :: "('a \<Rightarrow> 'a) \<Rightarrow> 'a list \<Rightarrow> 'a list" where
  "on_top f xs = (case xs of [] \<Rightarrow> [] | e # es \<Rightarrow> f e # es)"

lemma on_top_simps [simp]: "on_top f [] = []" "on_top f (e # es) = f e # es" "tl (on_top f xs) = tl xs"
  by (simp_all add: on_top_def split: list.split)

lemma record_dependency_fields [db_simps]:
  "slot_state (record_dependency k db) = slot_state db" "fingerprint_revision (record_dependency k db) = fingerprint_revision db"
  "dep_graph (record_dependency k db) = dep_graph db" "slot_order (record_dependency k db) = slot_order db"
  "internal_failure (record_dependency k db) = internal_failure db"
  "query_stack (record_dependency k db) = on_top (note_dependency k) (query_stack db)"
  by (simp_all add: record_dependency_def note_dependency_def split: list.split)

lemma record_dependency_fingerprint_fields [db_simps]:
  "slot_state (record_dependency_fingerprint k fp db) = slot_state db"
  "fingerprint_revision (record_dependency_fingerprint k fp db) = fingerprint_revision db"
  "dep_graph (record_dependency_fingerprint k fp db) = dep_graph db"
  "slot_order (record_dependency_fingerprint k fp db) = slot_order db"
  "internal_failure (record_dependency_fingerprint k fp db) = internal_failure db"
  "query_stack (record_dependency_fingerprint k fp db) = on_top (note_fingerprint k fp) (query_stack db)"
  by (simp_all add: record_dependency_fingerprint_def note_fingerprint_def split: list.split)

lemma record_internal_failure_fields [db_simps]:
  "slot_state (record_internal_failure e db) = slot_state db"
  "fingerprint_revision (record_internal_failure e db) = fingerprint_revision db"
  "dep_graph (record_internal_failure e db) = dep_graph db" "query_stack (record_internal_failure e db) = query_stack db"
  "slot_order (record_internal_failure e db) = slot_order db"
  by (simp_all add: record_internal_failure_def split: query_error.split)

lemma entry_node_note [simp]:
  "entry_node (note_dependency k e) = entry_node e" "entry_node (note_fingerprint k fp e) = entry_node e"
  by (simp_all add: note_dependency_def note_fingerprint_def)

lemma stack_nodes_on_top:
  "(\<And>e. entry_node (f e) = entry_node e) \<Longrightarrow> map entry_node (on_top f s) = map entry_node s"
  by (cases s) simp_all

lemma same_core_small [simp]:
  "same_core db (record_stat f k db)" "same_core db (slot_for k db)" "same_core db (record_dependency k db)"
  "same_core db (record_dependency_fingerprint k fp db)" "same_core db (record_internal_failure e db)"
  "same_core db (on_graph (record_validation_failure k d r) db)"
  by (simp_all add: same_core_def stack_nodes_def db_simps stack_nodes_on_top)

lemma same_core_trans: "same_core a b \<Longrightarrow> same_core b c \<Longrightarrow> same_core a c"
  by (simp add: same_core_def)

lemma same_core_refl [simp]: "same_core db db"
  by (simp add: same_core_def)

lemma core_after:
  assumes "engine_ok q H' db1" "keeps S H db H' db1" "same_core db1 db2"
  shows "engine_ok q H' db2" "keeps S H db H' db2"
  using assms same_core_engine_ok [OF assms(3), of q H'] keeps_trans [OF assms(2) same_core_keeps [OF assms(3)]] by simp_all

lemma check_not_recursive_node_iff:
  "check_not_recursive_node k db = Ok () \<longleftrightarrow> k \<notin> set (stack_nodes db)"
  "(\<exists>e. check_not_recursive_node k db = Err e) \<longleftrightarrow> k \<in> set (stack_nodes db)"
  by (auto simp: check_not_recursive_node_def stack_nodes_def Let_def)

section \<open>What each call guarantees\<close>

lemma begin_slot:
  assumes ok: "engine_ok q H db" and k: "k \<notin> set (stack_nodes db)" "\<And>v fp ds. slot_state db k \<noteq> Ready v fp ds"
    and s: "running s" "slot_state db1 = (slot_state db)(k := s)" "stack_nodes db1 = k # stack_nodes db"
    and g: "lockstep (dep_graph db1)" "\<And>j. j \<noteq> k \<Longrightarrow> edges (dep_graph db1) `` {j} = edges (dep_graph db) `` {j}"
    and rv: "fingerprint_revision db1 = fingerprint_revision db"
  shows "engine_ok q H db1" "keeps (set (stack_nodes db)) H db H db1"
proof -
  have "slot_ok q H db1 k" using s by (auto simp: slot_ok_def running_def)
  note u = engine_ok_update [OF ok g(1) k(2) _ g(2), of H]
  show "engine_ok q H db1"
    using \<open>slot_ok q H db1 k\<close> s k(1) rv engine_okD(3) [OF ok] by (intro u(1)) auto
  have "keeps (set (stack_nodes db) - {k}) H db H db1"
    using \<open>slot_ok q H db1 k\<close> s k(1) rv engine_okD(3) [OF ok] by (intro u(2)) auto
  with k(1) show "keeps (set (stack_nodes db)) H db H db1" by simp
qed

lemma end_slot:
  assumes ok: "engine_ok q H db" and st: "stack_nodes db = k # ks" "stack_nodes db1 = ks"
    and s: "slot_state db1 = (slot_state db)(k := s)" "slot_ok q H' db1 k"
    and g: "lockstep (dep_graph db1)" "\<And>j. j \<noteq> k \<Longrightarrow> edges (dep_graph db1) `` {j} = edges (dep_graph db) `` {j}"
    and ext: "extends H (fingerprint_revision db) H' (fingerprint_revision db1)"
  shows "engine_ok q H' db1" "keeps (set ks) H db H' db1"
proof -
  have run: "running (slot_state db k)" and d: "distinct (k # ks)"
    using engine_okD(3,4) [OF ok] st(1) by (auto simp del: distinct.simps)
  then have nr: "slot_state db k \<noteq> Ready v fp ds" for v fp ds by (auto simp: running_def)
  note u = engine_ok_update [OF ok g(1) nr _ g(2) _ ext s(2)]
  show "engine_ok q H' db1" using s(1) st d by (intro u(1)) auto
  have "keeps (set (stack_nodes db) - {k}) H db H' db1" using s(1) st d by (intro u(2)) auto
  with d st show "keeps (set ks) H db H' db1" by simp
qed

definition loop_result :: "'k \<Rightarrow> ('v, 'k query_error) rust_result \<Rightarrow> ('k, 'v, 'fp) query_db \<Rightarrow> ('k, 'v, 'fp) query_db \<Rightarrow> bool" where
  "loop_result k r db db' \<longleftrightarrow>
     (case r of
        Inl _ \<Rightarrow> query_stack db' = query_stack db \<and> \<not> (\<exists>v. ready db' k v)
      | Inr v \<Rightarrow> \<exists>fp ds. slot_state db' k = Ready v fp ds \<and> query_stack db' = on_top (note_fingerprint k fp) (query_stack db))"

definition loop_post where
  "loop_post q H k r db db' \<longleftrightarrow>
     (\<exists>H'. engine_ok q H' db' \<and> keeps (set (stack_nodes db)) H db H' db') \<and> loop_result k r db db'"

definition stale_ok :: "('k, 'v, 'fp) queries \<Rightarrow> ('k, 'v) drawn \<Rightarrow> ('k, 'v, 'fp) query_db \<Rightarrow> 'k \<Rightarrow> ('v \<times> 'fp) option \<Rightarrow> bool" where
  "stale_ok q H db k stale \<longleftrightarrow> (\<forall>old fp. stale = Some (old, fp) \<longrightarrow> named q H (fingerprint_revision db) k fp old)"

definition loop_sound :: "('k, 'v, 'fp) queries \<Rightarrow> nat \<Rightarrow> bool" where
  "loop_sound q n \<longleftrightarrow> (\<forall>k stale db r db' H. try_get_cached n q k stale db = Some (r, db') \<longrightarrow> engine_ok q H db \<longrightarrow>
     \<not> single_consumer q k \<longrightarrow> stale_ok q H db k stale \<longrightarrow> loop_post q H k r db db')"

definition get_sound :: "('k, 'v, 'fp) queries \<Rightarrow> nat \<Rightarrow> bool" where
  "get_sound q n \<longleftrightarrow> (\<forall>k db r db' H. get n q k db = Some (r, db') \<longrightarrow> engine_ok q H db \<longrightarrow>
     (\<exists>H'. engine_ok q H' db' \<and> keeps (set (stack_nodes db)) H db H' db') \<and>
     (case r of
        Inl _ \<Rightarrow> tl (query_stack db') = tl (query_stack db) \<and> stack_nodes db' = stack_nodes db \<and>
          (internal_failure db = None \<and> \<not> single_consumer q k \<longrightarrow> \<not> (\<exists>v. ready db' k v))
      | Inr v \<Rightarrow> \<exists>fp ds. slot_state db' k = Ready v fp ds \<and>
          query_stack db' = on_top (note_fingerprint k fp \<circ> note_dependency k) (query_stack db)))"

definition validation_sound :: "('k, 'v, 'fp) queries \<Rightarrow> nat \<Rightarrow> bool" where
  "validation_sound q n \<longleftrightarrow> (\<forall>ds db r db' H. dependency_validation_failure n q ds db = Some (r, db') \<longrightarrow> engine_ok q H db \<longrightarrow>
     (\<exists>H'. engine_ok q H' db' \<and> keeps (set (stack_nodes db)) H db H' db') \<and>
     tl (query_stack db') = tl (query_stack db) \<and> stack_nodes db' = stack_nodes db \<and>
     (r = Ok None \<longrightarrow> (\<forall>(d, x) \<in> set ds. \<exists>fp u ds'. x = Some fp \<and> slot_state db' d = Ready u (Some fp) ds')))"

text \<open>The entry of a running provider that has asked the questions of a trace.\<close>

definition noting :: "('k, 'v, 'fp) queries \<Rightarrow> ('k, 'v) drawn \<Rightarrow> ('k, 'v, 'fp) query_db \<Rightarrow> ('k, 'fp) query_stack_entry \<Rightarrow>
    ('k \<times> 'v) list \<Rightarrow> bool" where
  "noting q H db e tr \<longleftrightarrow> distinct (entry_dependencies e) \<and> set (entry_dependencies e) = fst ` set tr \<and>
     (\<forall>(d, u) \<in> set tr. ready db d u) \<and>
     (\<forall>m. entry_fingerprints e = Some m \<longrightarrow> fingerprints_ok q H (fingerprint_revision db) m tr)"

definition provider_post ::
  "('k, 'v, 'fp) queries \<Rightarrow> ('k, 'v) drawn \<Rightarrow> ('k, 'v) provider \<Rightarrow> ('v, 'k query_error) rust_result \<Rightarrow>
    ('k, 'v, 'fp) query_db \<Rightarrow> ('k, 'v, 'fp) query_db \<Rightarrow> ('k, 'fp) query_stack_entry \<Rightarrow> ('k \<times> 'v) list \<Rightarrow>
    ('k, 'v) drawn \<Rightarrow> ('k, 'fp) query_stack_entry \<Rightarrow> bool" where
  "provider_post q H p r db db' e tr H' e' \<longleftrightarrow>
     engine_ok q H' db' \<and> keeps (set (stack_nodes db)) H db H' db' \<and>
     query_stack db' = e' # tl (query_stack db) \<and> entry_node e' = entry_node e \<and>
     (\<forall>v. r = Ok v \<longrightarrow> (entry_fingerprints e' = None \<longleftrightarrow> entry_fingerprints e = None) \<and>
        (\<exists>tr'. follows p tr' (Return v) \<and> noting q H' db' e' (tr @ tr')))"

definition provider_sound :: "('k, 'v, 'fp) queries \<Rightarrow> nat \<Rightarrow> bool" where
  "provider_sound q n \<longleftrightarrow> (\<forall>p db r db' H e es tr. run_provider n q p db = Some (r, db') \<longrightarrow> propagates p \<longrightarrow>
     engine_ok q H db \<longrightarrow> query_stack db = e # es \<longrightarrow> noting q H db e tr \<longrightarrow>
     (\<exists>H' e'. provider_post q H p r db db' e tr H' e'))"

lemma get_step:
  assumes "loop_sound q n"
  shows "get_sound q (Suc n)"
  unfolding get_sound_def
proof (intro allI impI)
  fix k db r db' H
  assume g: "get (Suc n) q k db = Some (r, db')" and ok: "engine_ok q H db"
  let ?db = "record_dependency k (slot_for k db)"
  have c: "same_core db ?db" by (rule same_core_trans [of _ "slot_for k db"]) simp_all
  show "(\<exists>H'. engine_ok q H' db' \<and> keeps (set (stack_nodes db)) H db H' db') \<and>
     (case r of
        Inl _ \<Rightarrow> tl (query_stack db') = tl (query_stack db) \<and> stack_nodes db' = stack_nodes db \<and>
          (internal_failure db = None \<and> \<not> single_consumer q k \<longrightarrow> \<not> (\<exists>v. ready db' k v))
      | Inr v \<Rightarrow> \<exists>fp ds. slot_state db' k = Ready v fp ds \<and>
          query_stack db' = on_top (note_fingerprint k fp \<circ> note_dependency k) (query_stack db))"
  proof (cases "(\<exists>e. ensure_healthy db = Err e) \<or> single_consumer q k")
    case True
    with g have "db' = db" "\<exists>e. r = Err e" by (auto split: sum.splits)
    moreover have "\<not> (internal_failure db = None \<and> \<not> single_consumer q k)"
      using True by (cases "internal_failure db") (auto simp: ensure_healthy_def)
    ultimately show ?thesis using ok same_core_keeps [of db db "set (stack_nodes db)" H] by auto
  next
    case False
    with g have t: "try_get_cached n q k None ?db = Some (r, db')" by (auto split: sum.splits)
    have "loop_post q H k r ?db db'"
      using assms t False ok same_core_engine_ok [OF c, of q H] unfolding loop_sound_def
      by (auto simp: stale_ok_def)
    moreover have "stack_nodes ?db = stack_nodes db" using c by (simp add: same_core_def)
    ultimately obtain H' where H': "engine_ok q H' db'" "keeps (set (stack_nodes db)) H ?db H' db'"
      and r: "loop_result k r ?db db'" by (auto simp: loop_post_def)
    have "keeps (set (stack_nodes db)) H db H' db'" using keeps_trans [OF same_core_keeps [OF c] H'(2)] .
    moreover have "case r of
        Inl _ \<Rightarrow> tl (query_stack db') = tl (query_stack db) \<and> stack_nodes db' = stack_nodes db \<and>
          (internal_failure db = None \<and> \<not> single_consumer q k \<longrightarrow> \<not> (\<exists>v. ready db' k v))
      | Inr v \<Rightarrow> \<exists>fp ds. slot_state db' k = Ready v fp ds \<and>
          query_stack db' = on_top (note_fingerprint k fp \<circ> note_dependency k) (query_stack db)"
    proof (cases r)
      case (Inl e)
      with r show ?thesis by (simp add: loop_result_def stack_nodes_def db_simps stack_nodes_on_top)
    next
      case (Inr v)
      with r show ?thesis by (cases "query_stack db") (auto simp: loop_result_def db_simps)
    qed
    ultimately show ?thesis using H'(1) by blast
  qed
qed

lemma validation_step:
  assumes get: "get_sound q n" and rest: "validation_sound q n"
  shows "validation_sound q (Suc n)"
  unfolding validation_sound_def
proof (intro allI impI)
  fix ds db r db' H
  assume v: "dependency_validation_failure (Suc n) q ds db = Some (r, db')" and ok: "engine_ok q H db"
  let ?goal = "(\<exists>H'. engine_ok q H' db' \<and> keeps (set (stack_nodes db)) H db H' db') \<and>
     tl (query_stack db') = tl (query_stack db) \<and> stack_nodes db' = stack_nodes db \<and>
     (r = Ok None \<longrightarrow> (\<forall>(d, x) \<in> set ds. \<exists>fp u ds'. x = Some fp \<and> slot_state db' d = Ready u (Some fp) ds'))"
  have triv: ?goal if "db' = db" "r = Ok None \<Longrightarrow> ds = []"
    using that ok same_core_keeps [of db db "set (stack_nodes db)" H] by auto
  show ?goal
  proof (cases ds)
    case Nil
    with v show ?thesis by (intro triv) auto
  next
    case (Cons x rest')
    obtain d y where x: "x = (d, y)" by (cases x)
    show ?thesis
    proof (cases y)
      case None
      with v Cons x show ?thesis by (intro triv) auto
    next
      case (Some fp)
      with v Cons x obtain r1 db1 where g: "get n q d db = Some (r1, db1)" by (auto split: option.splits)
      from get [unfolded get_sound_def, rule_format, OF g ok] obtain H1 where
        H1: "engine_ok q H1 db1" "keeps (set (stack_nodes db)) H db H1 db1" by blast
      have st: "tl (query_stack db1) = tl (query_stack db)" "stack_nodes db1 = stack_nodes db"
        using get [unfolded get_sound_def, rule_format, OF g ok]
        by (cases r1; cases "query_stack db"; auto simp: stack_nodes_def)+
      have ready1: "ready db1 d u" if "r1 = Ok u" for u
        using get [unfolded get_sound_def, rule_format, OF g ok] that by auto
      show ?thesis
      proof (cases "(\<exists>e. r1 = Err e) \<or> slot_fingerprint d db1 \<noteq> Some fp")
        case True
        with v Cons x Some g have "db' = db1" "r \<noteq> Ok None" by (auto split: sum.splits if_splits)
        with H1 st show ?thesis by auto
      next
        case False
        then obtain u where u: "r1 = Ok u" "slot_fingerprint d db1 = Some fp" by (cases r1) auto
        with v Cons x Some g have v': "dependency_validation_failure n q rest' db1 = Some (r, db')" by simp
        from ready1 [OF u(1)] u(2) obtain ds1 where d: "slot_state db1 d = Ready u (Some fp) ds1"
          by (auto simp: slot_fingerprint_def)
        from rest [unfolded validation_sound_def, rule_format, OF v' H1(1)] obtain H2 where
          H2: "engine_ok q H2 db'" "keeps (set (stack_nodes db1)) H1 db1 H2 db'" by blast
        have "keeps (set (stack_nodes db)) H db H2 db'" using keeps_trans [OF H1(2)] H2(2) st(2) by simp
        moreover have "slot_state db' d = Ready u (Some fp) ds1" using keepsD(2) [OF H2(2) d] .
        ultimately show ?thesis
          using rest [unfolded validation_sound_def, rule_format, OF v' H1(1)] H2(1) st Cons x Some by auto
      qed
    qed
  qed
qed

lemma ready_named:
  assumes ok: "engine_ok q H db" and k: "slot_state db k = Ready v (Some fp) ds"
  shows "named q H (fingerprint_revision db) k fp v"
proof -
  from engine_okD(2) [OF ok, of k] k obtain tr where "recorded q H db k v (Some fp) ds tr" by (auto simp: slot_ok_def)
  then show ?thesis by (cases "policy q k = NoFingerprint") (simp_all add: recorded_def)
qed

lemma fingerprints_ok_update:
  assumes ok: "fingerprints_ok q H rv m tr"
    and u: "\<And>u'. (d, u') \<in> set tr \<Longrightarrow> u' = u" "\<And>f. fp = Some f \<Longrightarrow> named q H rv d f u"
    and m': "\<And>x. map_of m' x = ((map_of m)(d \<mapsto> fp)) x" "distinct (map fst m')"
  shows "fingerprints_ok q H rv m' (tr @ [(d, u)])"
proof -
  have dm: "distinct (map fst m)" and dom: "fst ` set m = fst ` set tr" using ok by (simp_all add: fingerprints_ok_def)
  have "fst ` set m' = dom (map_of m')" by (simp add: dom_map_of_conv_image_fst)
  also have "\<dots> = insert d (dom (map_of m))" by (auto simp: m'(1) dom_def)
  also have "\<dots> = insert d (fst ` set tr)" by (simp add: dom_map_of_conv_image_fst dom)
  finally have d: "fst ` set m' = fst ` set (tr @ [(d, u)])" by simp
  have "named q H rv x f w" if x: "(x, w) \<in> set (tr @ [(d, u)])" "(x, Some f) \<in> set m'" for x w f
  proof (cases "x = d")
    case True
    with map_of_is_SomeI [OF m'(2) x(2)] have "fp = Some f" unfolding m'(1) by simp
    moreover have "w = u" using x(1) True u(1) by auto
    ultimately show ?thesis using u(2) True by simp
  next
    case False
    with map_of_is_SomeI [OF m'(2) x(2)] have "map_of m x = Some (Some f)" unfolding m'(1) by simp
    then have "(x, Some f) \<in> set m" by (rule map_of_SomeD)
    moreover have "(x, w) \<in> set tr" using x(1) False by simp
    ultimately show ?thesis using ok unfolding fingerprints_ok_def by blast
  qed
  with d m'(2) show ?thesis by (simp add: fingerprints_ok_def Ball_def)
qed

lemma noting_keeps:
  assumes n: "noting q H db e tr" and k: "keeps S H db H' db'"
  shows "noting q H' db' e tr"
proof -
  have "ready db' d u" if "(d, u) \<in> set tr" for d u
    using n that keepsD(2) [OF k] unfolding noting_def by blast
  moreover have "fingerprints_ok q H' (fingerprint_revision db') m tr" if "entry_fingerprints e = Some m" for m
    using n that fingerprints_ok_extends [OF _ keepsD(1) [OF k]] unfolding noting_def by blast
  ultimately show ?thesis using n by (auto simp: noting_def)
qed

lemma noting_ask:
  assumes ok: "engine_ok q H db" and n: "noting q H db e tr" and d: "slot_state db d = Ready u fp ds"
  shows "noting q H db (note_fingerprint d fp (note_dependency d e)) (tr @ [(d, u)])"
proof -
  let ?e = "note_fingerprint d fp (note_dependency d e)"
  have same: "u' = u" if "(d, u') \<in> set tr" for u'
    using n that d unfolding noting_def by fastforce
  have "fingerprints_ok q H (fingerprint_revision db) m' (tr @ [(d, u)])" if m': "entry_fingerprints ?e = Some m'" for m'
  proof -
    from m' obtain m where m: "entry_fingerprints e = Some m"
      and m'': "m' = AList.update d fp (if map_of m d = None then AList.update d None m else m)"
      by (auto simp: note_fingerprint_def note_dependency_def)
    from n m have f: "fingerprints_ok q H (fingerprint_revision db) m tr" by (simp add: noting_def)
    then have "distinct (map fst m)" by (simp add: fingerprints_ok_def)
    then have dist: "distinct (map fst m')" unfolding m'' by (simp add: distinct_update)
    show ?thesis
      by (rule fingerprints_ok_update [where fp = fp, OF f same _ _ dist])
        (auto simp: m'' update_conv' ready_named [OF ok] d)
  qed
  moreover have "distinct (entry_dependencies ?e)" "set (entry_dependencies ?e) = fst ` set (tr @ [(d, u)])"
    using n by (auto simp: noting_def note_fingerprint_def note_dependency_def set_insert_def)
  moreover have "\<forall>(x, w) \<in> set (tr @ [(d, u)]). ready db x w" using n d by (auto simp: noting_def)
  ultimately show ?thesis by (simp add: noting_def)
qed

lemma provider_post_ask:
  assumes H1: "engine_ok q H1 db1" "keeps (set (stack_nodes db)) H db H1 db1" and st: "query_stack db = e # es"
    and st1: "query_stack db1 = e1 # es"
    and e1: "e1 = note_fingerprint d fp (note_dependency d e)"
    and post: "provider_post q H1 (c (Ok u)) r db1 db' e1 (tr @ [(d, u)]) H2 e2"
  shows "provider_post q H (Ask d c) r db db' e tr H2 e2"
proof -
  have "stack_nodes db1 = stack_nodes db" using st st1 e1 by (simp add: stack_nodes_def)
  then have k: "keeps (set (stack_nodes db)) H db H2 db'"
    using keeps_trans [OF H1(2)] post by (simp add: provider_post_def)
  have "entry_fingerprints e2 = None \<longleftrightarrow> entry_fingerprints e = None"
    "\<exists>tr'. follows (Ask d c) tr' (Return v) \<and> noting q H2 db' e2 (tr @ tr')" if "r = Ok v" for v
  proof -
    from post that obtain tr' where tr': "follows (c (Ok u)) tr' (Return v)" "noting q H2 db' e2 ((tr @ [(d, u)]) @ tr')"
      unfolding provider_post_def by blast
    from follows.ask [of c u tr' "Return v" d] tr' show "\<exists>tr'. follows (Ask d c) tr' (Return v) \<and> noting q H2 db' e2 (tr @ tr')"
      by (intro exI [of _ "(d, u) # tr'"]) simp
    have "entry_fingerprints e2 = None \<longleftrightarrow> entry_fingerprints e1 = None" using post that unfolding provider_post_def by blast
    then show "entry_fingerprints e2 = None \<longleftrightarrow> entry_fingerprints e = None"
      by (simp add: e1 note_fingerprint_def note_dependency_def)
  qed
  with k post st st1 e1 show ?thesis unfolding provider_post_def by simp
qed

lemma provider_step:
  assumes get: "get_sound q n" and rest: "provider_sound q n"
  shows "provider_sound q (Suc n)"
  unfolding provider_sound_def
proof (intro allI impI)
  fix p db r db' H e es tr
  assume run: "run_provider (Suc n) q p db = Some (r, db')" and p: "propagates p" and ok: "engine_ok q H db"
    and st: "query_stack db = e # es" and n: "noting q H db e tr"
  show "\<exists>H' e'. provider_post q H p r db db' e tr H' e'"
  proof (cases p)
    case (Return v)
    with run have r: "db' = db" "r = Ok v" by auto
    have "follows p [] (Return v)" "noting q H db e (tr @ [])" using Return n by simp_all
    then have "\<exists>tr'. follows p tr' (Return v) \<and> noting q H db e (tr @ tr')" by blast
    with r ok st same_core_keeps [of db db "set (stack_nodes db)" H] have "provider_post q H p r db db' e tr H e"
      unfolding provider_post_def by simp
    then show ?thesis by blast
  next
    case (Throw x)
    with run have "db' = db" "r = Err x" by auto
    with ok st same_core_keeps [of db db "set (stack_nodes db)" H] have "provider_post q H p r db db' e tr H e"
      by (simp add: provider_post_def)
    then show ?thesis by blast
  next
    case (Ask d c)
    with run obtain r1 db1 where g: "get n q d db = Some (r1, db1)" and run1: "run_provider n q (c r1) db1 = Some (r, db')"
      by (auto split: option.splits)
    note G = get [unfolded get_sound_def, rule_format, OF g ok]
    from G obtain H1 where H1: "engine_ok q H1 db1" "keeps (set (stack_nodes db)) H db H1 db1" by blast
    show ?thesis
    proof (cases r1)
      case (Inl x)
      from p Ask obtain x' where "c (Err x) = Throw x'" by auto
      with run1 Inl have "db' = db1" "r = Err x'" by (cases n; simp)+
      moreover obtain e1 where "query_stack db1 = e1 # es" "entry_node e1 = entry_node e"
        using G Inl st by (cases "query_stack db1") (auto simp: stack_nodes_def)
      ultimately have "provider_post q H p r db db' e tr H1 e1" using H1 st by (simp add: provider_post_def)
      then show ?thesis by blast
    next
      case (Inr u)
      with G obtain fp ds where d: "slot_state db1 d = Ready u fp ds"
        and st1: "query_stack db1 = note_fingerprint d fp (note_dependency d e) # es" (is "_ = ?e1 # es")
        using st by auto
      have n1: "noting q H1 db1 ?e1 (tr @ [(d, u)])" using noting_ask [OF H1(1) noting_keeps [OF n H1(2)] d] .
      have p1: "propagates (c (Ok u))" using p Ask by simp
      from rest [unfolded provider_sound_def, rule_format, OF run1 [unfolded Inr] p1 H1(1) st1 n1] obtain H2 e2 where
        "provider_post q H1 (c (Ok u)) r db1 db' ?e1 (tr @ [(d, u)]) H2 e2" by blast
      from provider_post_ask [where c = c, OF H1 st st1 refl this] Ask show ?thesis by blast
    qed
  qed
qed

text \<open>A slot turns empty when its query leaves the stack.\<close>

lemma end_slot_empty:
  assumes ok: "engine_ok q H db" and st: "stack_nodes db = k # ks" "stack_nodes db1 = ks"
    and s: "slot_state db1 = (slot_state db)(k := Empty)" "fingerprint_revision db1 = fingerprint_revision db"
    and g: "lockstep (dep_graph db1)" "\<And>j. j \<noteq> k \<Longrightarrow> edges (dep_graph db1) `` {j} = edges (dep_graph db) `` {j}"
  shows "engine_ok q H db1" "keeps (set ks) H db H db1"
proof -
  have "slot_ok q H db1 k" using s(1) by (simp add: slot_ok_def)
  from end_slot [OF ok st s(1) this g] s(2) show "engine_ok q H db1" "keeps (set ks) H db H db1" by simp_all
qed

lemma edges_except:
  "j \<noteq> k \<Longrightarrow> (E - {k} \<times> UNIV) `` {j} = E `` {j}" "j \<noteq> k \<Longrightarrow> (E - {k} \<times> UNIV \<union> {k} \<times> T) `` {j} = E `` {j}"
  "(E - {k} \<times> UNIV \<union> {k} \<times> T) `` {k} = T"
  by auto

lemma value_fingerprint_sound:
  assumes f: "faithful q" and stale: "stale_ok q H db k stale"
    and v: "value_fingerprint q k v stale db = Ok (fp, db')"
  shows "\<exists>rv. db' = db\<lparr>fingerprint_revision := rv\<rparr>"
    and "\<exists>H'. extends H (fingerprint_revision db) H' (fingerprint_revision db') \<and>
      (if policy q k = NoFingerprint then fp = None
       else \<exists>f. fp = Some f \<and> named q H' (fingerprint_revision db') k f v)"
proof -
  let ?r = "fingerprint_revision db"
  have upd: "db = db\<lparr>fingerprint_revision := fingerprint_revision db\<rparr>" by simp
  show "\<exists>rv. db' = db\<lparr>fingerprint_revision := rv\<rparr>"
  proof (cases "db' = db")
    case True with upd show ?thesis by blast
  next
    case False
    with v show ?thesis
      by (cases "policy q k"; cases "filter_opt (\<lambda>(old, _). values_equal q k old v) stale")
        (auto simp: value_fingerprint_def split: if_splits option.splits)
  qed
  show "\<exists>H'. extends H ?r H' (fingerprint_revision db') \<and>
      (if policy q k = NoFingerprint then fp = None
       else \<exists>f. fp = Some f \<and> named q H' (fingerprint_revision db') k f v)"
  proof (cases "policy q k")
    case NoFingerprint
    with v show ?thesis by (intro exI [of _ H]) (auto simp: value_fingerprint_def split: if_splits)
  next
    case StableValue
    with v obtain f' where "key_fingerprint q k v = Some f'" "fp = Some f'" "db' = db"
      by (cases "key_fingerprint q k v") (auto simp: value_fingerprint_def)
    with StableValue show ?thesis by (intro exI [of _ H]) (simp add: named_def)
  next
    case SemanticValue
    show ?thesis
    proof (cases "filter_opt (\<lambda>(old, _). values_equal q k old v) stale")
      case None
      with v SemanticValue have "fp = Some (semantic_fingerprint q k (?r k))"
        "fingerprint_revision db' = ?r(k := ?r k + 1)" by (auto simp: value_fingerprint_def split: if_splits)
      with SemanticValue show ?thesis
        by (intro exI [of _ "H(k := (H k)(?r k := v))"]) (auto simp: extends_def named_def)
    next
      case (Some x)
      obtain old f' where x: "x = (old, f')" by (cases x)
      with Some have s: "stale = Some (old, f')" "values_equal q k old v"
        by (auto simp: filter_opt_def split: option.splits if_splits)
      with f have "old = v" unfolding faithful_def by blast
      with s stale have "named q H ?r k f' v" by (simp add: stale_ok_def)
      moreover have "db' = db" "fp = Some f'"
        using v SemanticValue Some x by (auto simp: value_fingerprint_def split: if_splits)
      ultimately show ?thesis using SemanticValue by (intro exI [of _ H]) simp
    qed
  qed
qed

text \<open>The value of a provider that ran to its end.\<close>

lemma publish_sound:
  assumes f: "faithful q" and ok: "engine_ok q H db" and stale: "stale_ok q H db k stale"
    and st: "query_stack db = e # es" "entry_node e = k" and k: "slot_state db k = Computing False"
    and no: "\<not> single_consumer q k" "\<not> externally_published q k"
    and e: "entry_fingerprints e = None \<longleftrightarrow> policy q k = NoFingerprint"
    and tr: "follows (execute_result q k) tr (Return v)" "noting q H db e tr"
    and p: "publish_value q k stale v db = (r, db')"
  shows "(\<exists>H'. engine_ok q H' db' \<and> keeps (set (map entry_node es)) H db H' db') \<and>
    (case r of
       Inl _ \<Rightarrow> query_stack db' = es \<and> \<not> (\<exists>v. ready db' k v)
     | Inr v \<Rightarrow> \<exists>fp ds. slot_state db' k = Ready v fp ds \<and> query_stack db' = on_top (note_fingerprint k fp) es)"
proof (cases "value_fingerprint q k v stale db")
  case (Inl x)
  let ?db = "on_graph (remove_dependencies_from k) (discard (set_slot k Empty db))"
  have d: "db' = ?db" "r = Err x" using p Inl by (simp_all add: publish_value_def)
  have "engine_ok q H ?db" "keeps (set (map entry_node es)) H db H ?db"
    by (rule end_slot_empty [OF ok];
        use st engine_okD(1) [OF ok] in \<open>auto simp: stack_nodes_def db_simps\<close>)+
  with d st show ?thesis by (auto simp: db_simps)
next
  case (Inr y)
  obtain fp db1 where y: "y = (fp, db1)" by (cases y)
  note vf = value_fingerprint_sound [OF f stale Inr [unfolded y]]
  from vf(1) obtain rv where rv: "db1 = db\<lparr>fingerprint_revision := rv\<rparr>" by blast
  from vf(2) obtain H' where H': "extends H (fingerprint_revision db) H' (fingerprint_revision db1)"
    and fp: "if policy q k = NoFingerprint then fp = None else \<exists>f. fp = Some f \<and> named q H' (fingerprint_revision db1) k f v"
    by blast
  let ?ds = "case entry_fingerprints e of None \<Rightarrow> [] | Some m \<Rightarrow> m"
  let ?db2 = "set_slot k (Ready v fp ?ds) (on_graph (replace_dependencies_from k (entry_dependencies e)) (discard db1))"
  have d: "db' = record_dependency_fingerprint k fp ?db2" "r = Ok v"
    using p Inr y st k rv by (auto simp: publish_value_def Let_def)
  have tr_ready: "ready db d u" if "(d, u) \<in> set tr" for d u using tr(2) that unfolding noting_def by blast
  have "evaluates q d u" if "(d, u) \<in> set tr" for d u
    using tr_ready [OF that] engine_okD(2) [OF ok, of d] by (auto simp: slot_ok_def)
  then have ev: "evaluates q k v" using no tr(1) by (intro evaluates.intros [of q k tr]) auto
  have "fingerprints_ok q H' (fingerprint_revision db1) ?ds tr" if "policy q k \<noteq> NoFingerprint"
    using that e tr(2) fingerprints_ok_extends [OF _ H'] by (auto simp: noting_def)
  then have rec: "recorded q H' ?db2 k v fp ?ds tr"
    using no tr fp by (auto simp: recorded_def db_simps edges_except noting_def)
  have "\<forall>(d, u) \<in> set tr. ready ?db2 d u"
  proof clarify
    fix d u assume "(d, u) \<in> set tr"
    from tr_ready [OF this] k have "d \<noteq> k" "ready db d u" by auto
    then show "ready ?db2 d u" by (simp add: db_simps rv)
  qed
  with ev rec have slot: "slot_ok q H' ?db2 k" by (simp add: slot_ok_def db_simps) blast
  have "engine_ok q H' ?db2" "keeps (set (map entry_node es)) H db H' ?db2"
    by (rule end_slot [OF ok _ _ _ slot];
        use st engine_okD(1) [OF ok] H' rv tr(2) in \<open>auto simp: stack_nodes_def db_simps noting_def\<close>)+
  then have "engine_ok q H' db'" "keeps (set (map entry_node es)) H db H' db'"
    unfolding d(1) by (rule core_after [OF _ _ same_core_small(4)])+
  moreover have "query_stack db' = on_top (note_fingerprint k fp) es" using d st rv by (simp add: db_simps)
  moreover have "slot_state db' k = Ready v fp ?ds" using d by (simp add: db_simps)
  ultimately show ?thesis using d(2) by auto
qed

lemma not_running_not_on_stack: "engine_ok q H db \<Longrightarrow> \<not> running (slot_state db k) \<Longrightarrow> k \<notin> set (stack_nodes db)"
  by (auto simp: engine_ok_def)

lemma enter_query_Ok:
  "entry_node e \<notin> set (stack_nodes db) \<Longrightarrow> enter_query e db = Ok (db\<lparr>query_stack := e # query_stack db\<rparr>)"
  using check_not_recursive_node_iff(1) [of "entry_node e" db] by (simp add: enter_query_def)

lemma loop_post_core:
  assumes "engine_ok q H db" "same_core db db'" "loop_result k r db db'"
  shows "loop_post q H k r db db'"
  using assms same_core_engine_ok [of db db'] same_core_keeps [of db db'] unfolding loop_post_def by blast

lemma stale_ok_keeps:
  assumes s: "stale_ok q H db k stale" and "keeps S H db H' db'"
  shows "stale_ok q H' db' k stale"
  unfolding stale_ok_def
proof (intro allI impI)
  fix old fp assume "stale = Some (old, fp)"
  with s have "named q H (fingerprint_revision db) k fp old" by (simp add: stale_ok_def)
  then show "named q H' (fingerprint_revision db') k fp old" using keepsD(1) [OF assms(2)] by (rule named_extends)
qed

text \<open>The database in which the provider of an empty slot runs.\<close>

definition computing :: "('k, 'v, 'fp) queries \<Rightarrow> 'k \<Rightarrow> ('k, 'v, 'fp) query_db \<Rightarrow> ('k, 'v, 'fp) query_db" where
  "computing q k db = record_execution k
     ((on_graph (remove_dependencies_from k) (set_slot k (Computing False) db))\<lparr>query_stack :=
       \<lparr>entry_node = k, entry_dependencies = [],
         entry_fingerprints = (if policy q k \<noteq> NoFingerprint then Some [] else None)\<rparr> # query_stack db\<rparr>)"

lemma compute_slot_enters:
  assumes "k \<notin> set (stack_nodes db)" "\<not> externally_published q k"
  shows "compute_slot run q k stale db =
    (case run (execute_result q k) (computing q k db) of
       None \<Rightarrow> None
     | Some (Inl x, db) \<Rightarrow> Some (Err (with_query_context k x), record_internal_failure (with_query_context k x)
         (on_graph (remove_dependencies_from k) (discard (set_slot k Empty db))))
     | Some (Inr v, db) \<Rightarrow> Some (publish_value q k stale v db))"
proof -
  let ?db = "on_graph (remove_dependencies_from k) (set_slot k (Computing False) db)"
  let ?e = "\<lparr>entry_node = k, entry_dependencies = [],
    entry_fingerprints = (if policy q k \<noteq> NoFingerprint then Some [] else None)\<rparr>"
  have "enter_query ?e ?db = Ok (?db\<lparr>query_stack := ?e # query_stack ?db\<rparr>)"
    using assms(1) by (intro enter_query_Ok) (simp add: stack_nodes_def db_simps)
  then show ?thesis using assms(2) unfolding compute_slot_def computing_def Let_def by (simp add: db_simps)
qed

lemma computing_fields:
  "slot_state (computing q k db) = (slot_state db)(k := Computing False)"
  "stack_nodes (computing q k db) = k # stack_nodes db" "tl (query_stack (computing q k db)) = query_stack db"
  "internal_failure (computing q k db) = internal_failure db"
  by (simp_all add: computing_def db_simps stack_nodes_def)

lemma computing_ok:
  assumes ok: "engine_ok q H db" and k: "slot_state db k = Empty"
  shows "k \<notin> set (stack_nodes db)" "engine_ok q H (computing q k db)" "keeps (set (stack_nodes db)) H db H (computing q k db)"
proof -
  show nk: "k \<notin> set (stack_nodes db)" using not_running_not_on_stack [OF ok] k by (simp add: running_def)
  show "engine_ok q H (computing q k db)" "keeps (set (stack_nodes db)) H db H (computing q k db)"
    by (rule begin_slot [OF ok nk, where s = "Computing False"];
        use k engine_okD(1) [OF ok] in \<open>auto simp: running_def computing_def db_simps stack_nodes_def\<close>)+
qed

lemma compute_sound:
  assumes f: "faithful q" and run: "provider_sound q n" and ok: "engine_ok q H db" and k: "slot_state db k = Empty"
    and no: "\<not> single_consumer q k" and stale: "stale_ok q H db k stale"
    and c: "compute_slot (run_provider n q) q k stale db = Some (r, db')"
  shows "loop_post q H k r db db'"
proof (cases "externally_published q k")
  case True
  with c have "db' = db" "\<exists>e. r = Err e" by (auto simp: compute_slot_def)
  with ok k show ?thesis by (intro loop_post_core) (auto simp: loop_result_def)
next
  case False
  note B = computing_ok [OF ok k]
  let ?db1 = "computing q k db"
  obtain e where e: "query_stack ?db1 = e # query_stack db" "entry_node e = k" "noting q H ?db1 e []"
    "entry_fingerprints e = None \<longleftrightarrow> policy q k = NoFingerprint"
    by (simp add: computing_def db_simps noting_def fingerprints_ok_def)
  from c obtain r1 db2 where run1: "run_provider n q (execute_result q k) ?db1 = Some (r1, db2)"
    and r1: "(r, db') = (case r1 of
        Inl x \<Rightarrow> (Err (with_query_context k x), record_internal_failure (with_query_context k x)
          (on_graph (remove_dependencies_from k) (discard (set_slot k Empty db2))))
      | Inr v \<Rightarrow> publish_value q k stale v db2)"
    by (auto simp: compute_slot_enters [OF B(1) False] split: option.splits sum.splits)
  have pr: "propagates (execute_result q k)" using f by (simp add: faithful_def)
  from run [unfolded provider_sound_def, rule_format, OF run1 pr B(2) e(1,3)] obtain H2 e2 where
    post: "provider_post q H (execute_result q k) r1 ?db1 db2 e [] H2 e2" by blast
  then have H2: "engine_ok q H2 db2" "keeps (set (stack_nodes ?db1)) H ?db1 H2 db2"
    and st2: "query_stack db2 = e2 # query_stack db" "entry_node e2 = k"
    using e by (simp_all add: provider_post_def)
  have sub: "set (stack_nodes db) \<subseteq> set (stack_nodes ?db1)" "k \<in> set (stack_nodes ?db1)"
    by (auto simp: computing_fields)
  have K2: "keeps (set (stack_nodes db)) H db H2 db2" using keeps_trans [OF B(3) keeps_mono [OF H2(2) sub(1)]] .
  have k2: "slot_state db2 k = Computing False" using keepsD(3) [OF H2(2) sub(2)] by (simp add: computing_fields)
  show ?thesis
  proof (cases r1)
    case (Inl x)
    let ?db = "on_graph (remove_dependencies_from k) (discard (set_slot k Empty db2))"
    have d: "db' = record_internal_failure (with_query_context k x) ?db" "r = Err (with_query_context k x)"
      using r1 Inl by simp_all
    have "engine_ok q H2 ?db" "keeps (set (stack_nodes db)) H2 db2 H2 ?db"
      by (rule end_slot_empty [OF H2(1)];
          use st2 engine_okD(1) [OF H2(1)] in \<open>auto simp: stack_nodes_def db_simps\<close>)+
    then have "engine_ok q H2 db'" "keeps (set (stack_nodes db)) H2 db2 H2 db'"
      unfolding d(1) by (rule core_after [OF _ _ same_core_small(5)])+
    then have "engine_ok q H2 db'" "keeps (set (stack_nodes db)) H db H2 db'" using keeps_trans [OF K2] by blast+
    moreover have "loop_result k r db db'" using d st2 by (simp add: loop_result_def db_simps)
    ultimately show ?thesis unfolding loop_post_def by blast
  next
    case (Inr v)
    with r1 have p: "publish_value q k stale v db2 = (r, db')" by simp
    have "stale_ok q H2 db2 k stale" by (rule stale_ok_keeps [OF stale K2])
    moreover from post Inr obtain tr where "follows (execute_result q k) tr (Return v)" "noting q H2 db2 e2 tr"
      unfolding provider_post_def by auto
    moreover have "entry_fingerprints e2 = None \<longleftrightarrow> policy q k = NoFingerprint"
      using post Inr e(4) unfolding provider_post_def by simp
    ultimately have P: "(\<exists>H'. engine_ok q H' db' \<and> keeps (set (map entry_node (query_stack db))) H2 db2 H' db') \<and>
        (case r of Inl _ \<Rightarrow> query_stack db' = query_stack db \<and> \<not> (\<exists>v. ready db' k v)
         | Inr v \<Rightarrow> \<exists>fp ds. slot_state db' k = Ready v fp ds \<and> query_stack db' = on_top (note_fingerprint k fp) (query_stack db))"
      by (intro publish_sound [OF f H2(1) _ st2 k2 no False _ _ _ p])
    then obtain H' where "engine_ok q H' db'" "keeps (set (stack_nodes db)) H2 db2 H' db'"
      unfolding stack_nodes_def by blast
    with K2 have "engine_ok q H' db'" "keeps (set (stack_nodes db)) H db H' db'" by (blast intro: keeps_trans)+
    with P show ?thesis unfolding loop_post_def loop_result_def by blast
  qed
qed

text \<open>The recorded trace of a slot whose fingerprints are all found again.\<close>

lemma validated_trace:
  assumes f: "faithful q" and ok: "engine_ok q H db" and ds: "fingerprints_ok q H (fingerprint_revision db) ds tr"
    and val: "\<forall>(d, x) \<in> set ds. \<exists>fp u ds'. x = Some fp \<and> slot_state db d = Ready u (Some fp) ds'"
    and d: "(d, u) \<in> set tr"
  shows "ready db d u" "evaluates q d u"
proof -
  have "d \<in> fst ` set ds" using ds d unfolding fingerprints_ok_def by force
  then obtain x where x: "(d, x) \<in> set ds" by force
  with val obtain fp w ds' where w: "x = Some fp" "slot_state db d = Ready w (Some fp) ds'" by blast
  from x w ds d have "named q H (fingerprint_revision db) d fp u" unfolding fingerprints_ok_def by blast
  with named_unique [OF f this ready_named [OF ok w(2)]] w(2) show "ready db d u" by blast
  then show "evaluates q d u" using engine_okD(2) [OF ok, of d] by (auto simp: slot_ok_def)
qed

lemma green_sound:
  assumes f: "faithful q" and ok: "engine_ok q H db" and st: "stack_nodes db = k # ks" and k: "running (slot_state db k)"
    and tr: "recorded q H db k v (Some fp) ds tr"
    and val: "\<forall>(d, x) \<in> set ds. \<exists>fp u ds'. x = Some fp \<and> slot_state db d = Ready u (Some fp) ds'"
  defines "db1 \<equiv> set_slot k (Ready v (Some fp) ds) (discard db)"
  shows "engine_ok q H db1" "keeps (set ks) H db H db1"
proof -
  have ds: "fingerprints_ok q H (fingerprint_revision db) ds tr" using tr unfolding recorded_def by (auto split: if_splits)
  note vt = validated_trace [OF f ok ds val]
  have ev: "evaluates q k v" using tr vt(2) unfolding recorded_def by (intro evaluates.intros [of q k tr]) auto
  have rec: "recorded q H db1 k v (Some fp) ds tr"
    by (rule recorded_mono [OF tr]) (simp_all add: db1_def db_simps)
  have "\<forall>(d, u) \<in> set tr. ready db1 d u"
  proof clarify
    fix d u assume "(d, u) \<in> set tr"
    from vt(1) [OF this] k have "d \<noteq> k" "ready db d u" by (auto simp: running_def)
    then show "ready db1 d u" by (simp add: db1_def db_simps)
  qed
  with ev rec have slot: "slot_ok q H db1 k" by (simp add: slot_ok_def db1_def db_simps) blast
  show "engine_ok q H db1" "keeps (set ks) H db H db1"
    by (rule end_slot [OF ok st _ _ slot];
        use st engine_okD(1) [OF ok] in \<open>auto simp: db1_def stack_nodes_def db_simps map_tl\<close>)+
qed

text \<open>The database in which the dependencies of an outdated slot are validated, and the one after.\<close>

definition validating :: "'k \<Rightarrow> ('k, 'v, 'fp) query_db \<Rightarrow> ('k, 'v, 'fp) query_db" where
  "validating k db = record_validation k ((set_slot k (Validating False) db)\<lparr>query_stack :=
     \<lparr>entry_node = k, entry_dependencies = [], entry_fingerprints = Some []\<rparr> # query_stack db\<rparr>)"

abbreviation in_node_order ::
  "('k, 'v, 'fp) query_db \<Rightarrow> ('k, 'fp) dependency_fingerprints \<Rightarrow> ('k, 'fp) dependency_fingerprints" where
  "in_node_order db \<equiv> sort_key (\<lambda>d. index_in (slot_order db) (fst d))"

definition note_failure :: "'k \<Rightarrow> ('k \<times> query_validation_failure_reason) option \<Rightarrow> ('k, 'v, 'fp) query_db \<Rightarrow> ('k, 'v, 'fp) query_db" where
  "note_failure k failure db =
     (case failure of Some (d, reason) \<Rightarrow> on_graph (record_validation_failure k d reason) db | None \<Rightarrow> db)"

lemma note_failure_fields [db_simps]:
  "slot_state (note_failure k f db) = slot_state db" "fingerprint_revision (note_failure k f db) = fingerprint_revision db"
  "query_stack (note_failure k f db) = query_stack db" "internal_failure (note_failure k f db) = internal_failure db"
  "edges (dep_graph (note_failure k f db)) = edges (dep_graph db)"
  "lockstep (dep_graph (note_failure k f db)) = lockstep (dep_graph db)"
  by (auto simp: note_failure_def db_simps split: option.split)

lemma validate_slot_enters:
  assumes "k \<notin> set (stack_nodes db)"
  shows "validate_slot validate loop k v fp ds db =
    (case validate (in_node_order db ds) (validating k db) of
       None \<Rightarrow> None
     | Some (Inl e, db) \<Rightarrow> Some (Err (with_query_context k e),
         if was_invalidated (slot_state (discard db) k)
         then on_graph (remove_dependencies_from k) (set_slot k Empty (discard db))
         else set_slot k (PotentiallyOutdated v fp ds) (discard db))
     | Some (Inr failure, db) \<Rightarrow>
         if failure = None \<and> \<not> was_invalidated (slot_state (discard (note_failure k failure db)) k)
         then Some (Ok v, record_dependency_fingerprint k (Some fp) (record_cache_hit k (record_green_validation k
                (set_slot k (Ready v (Some fp) ds) (discard (note_failure k failure db))))))
         else loop (Some (v, fp)) (set_slot k Empty (discard (note_failure k failure db))))"
proof -
  let ?db = "set_slot k (Validating False) db"
  let ?e = "\<lparr>entry_node = k, entry_dependencies = [], entry_fingerprints = Some []\<rparr>"
  have e: "enter_query ?e ?db = Ok (?db\<lparr>query_stack := ?e # query_stack ?db\<rparr>)"
    using assms by (intro enter_query_Ok) (simp add: stack_nodes_def db_simps)
  have c: "check_not_recursive_node k db = Ok ()" using assms by (simp add: check_not_recursive_node_iff(1))
  show ?thesis unfolding validate_slot_def e c validating_def note_failure_def Let_def by (simp add: db_simps)
qed

lemma validating_fields:
  "slot_state (validating k db) = (slot_state db)(k := Validating False)" "dep_graph (validating k db) = dep_graph db"
  "stack_nodes (validating k db) = k # stack_nodes db" "tl (query_stack (validating k db)) = query_stack db"
  "internal_failure (validating k db) = internal_failure db"
  by (simp_all add: validating_def db_simps stack_nodes_def)

lemma validating_ok:
  assumes ok: "engine_ok q H db" and k: "slot_state db k = PotentiallyOutdated v fp ds"
  shows "k \<notin> set (stack_nodes db)" "engine_ok q H (validating k db)" "keeps (set (stack_nodes db)) H db H (validating k db)"
proof -
  show nk: "k \<notin> set (stack_nodes db)" using not_running_not_on_stack [OF ok] k by (simp add: running_def)
  show "engine_ok q H (validating k db)" "keeps (set (stack_nodes db)) H db H (validating k db)"
    by (rule begin_slot [OF ok nk, where s = "Validating False"];
        use k engine_okD(1) [OF ok] in \<open>auto simp: running_def validating_def db_simps stack_nodes_def\<close>)+
qed

lemma validated_ok:
  assumes val: "validation_sound q n" and ok: "engine_ok q H db" and k: "slot_state db k = PotentiallyOutdated v fp ds"
    and run: "dependency_validation_failure n q ds' (validating k db) = Some (r1, db2)"
  obtains H2 where "engine_ok q H2 db2" "keeps (set (stack_nodes db)) H db H2 db2"
    "tl (query_stack db2) = query_stack db" "stack_nodes db2 = k # stack_nodes db" "slot_state db2 k = Validating False"
    "edges (dep_graph db2) `` {k} = edges (dep_graph db) `` {k}"
    "r1 = Ok None \<Longrightarrow> \<forall>(d, x) \<in> set ds'. \<exists>fp u ds'. x = Some fp \<and> slot_state db2 d = Ready u (Some fp) ds'"
proof -
  note B = validating_ok [OF ok k]
  let ?db1 = "validating k db"
  note V = val [unfolded validation_sound_def, rule_format, OF run B(2)]
  from V obtain H2 where H2: "engine_ok q H2 db2" "keeps (set (stack_nodes ?db1)) H ?db1 H2 db2" by blast
  have k1: "k \<in> set (stack_nodes ?db1)" "set (stack_nodes db) \<subseteq> set (stack_nodes ?db1)" by (auto simp: validating_fields)
  show thesis
  proof (rule that [OF H2(1)])
    show "keeps (set (stack_nodes db)) H db H2 db2" using keeps_trans [OF B(3) keeps_mono [OF H2(2) k1(2)]] .
    show "slot_state db2 k = Validating False" "edges (dep_graph db2) `` {k} = edges (dep_graph db) `` {k}"
      using keepsD(3,4) [OF H2(2) k1(1)] by (simp_all add: validating_fields)
  qed (use V in \<open>simp_all add: validating_fields\<close>)
qed

lemma revalidation_failed:
  assumes ok: "engine_ok q H db" and st: "stack_nodes db = k # ks"
  shows "engine_ok q H (set_slot k Empty (discard (note_failure k failure db)))"
    "keeps (set ks) H db H (set_slot k Empty (discard (note_failure k failure db)))"
  by (rule end_slot_empty [OF ok st];
      use st engine_okD(1) [OF ok] in \<open>simp add: stack_nodes_def db_simps map_tl\<close>)+

lemma validate_sound:
  assumes f: "faithful q" and val: "validation_sound q n" and loop: "loop_sound q n" and ok: "engine_ok q H db"
    and k: "slot_state db k = PotentiallyOutdated v fp ds" and no: "\<not> single_consumer q k"
    and c: "validate_slot (dependency_validation_failure n q) (try_get_cached n q k) k v fp ds db = Some (r, db')"
  shows "loop_post q H k r db db'"
proof -
  obtain tr where tr: "recorded q H db k v (Some fp) ds tr" using engine_okD(2) [OF ok, of k] k by (auto simp: slot_ok_def)
  note c' = c [unfolded validate_slot_enters [OF validating_ok(1) [OF ok k]]]
  then obtain r1 db2 where run1: "dependency_validation_failure n q (in_node_order db ds) (validating k db) = Some (r1, db2)"
    by (cases "dependency_validation_failure n q (in_node_order db ds) (validating k db)") auto
  obtain H2 where H2: "engine_ok q H2 db2" and K2: "keeps (set (stack_nodes db)) H db H2 db2"
    and st2: "tl (query_stack db2) = query_stack db" "stack_nodes db2 = k # stack_nodes db" and k2: "slot_state db2 k = Validating False"
    and e2: "edges (dep_graph db2) `` {k} = edges (dep_graph db) `` {k}"
    and V: "r1 = Ok None \<Longrightarrow> \<forall>(d, x) \<in> set (in_node_order db ds). \<exists>fp u ds'. x = Some fp \<and> slot_state db2 d = Ready u (Some fp) ds'"
    by (rule validated_ok [OF val ok k run1]) blast
  have tr2: "recorded q H2 db2 k v (Some fp) ds tr" by (rule recorded_mono [OF tr keepsD(1) [OF K2] e2])
  show ?thesis
  proof (cases r1)
    case (Inl x)
    let ?db = "set_slot k (PotentiallyOutdated v fp ds) (discard db2)"
    have d: "db' = ?db" "r = Err (with_query_context k x)"
      using c' run1 Inl k2 by (auto simp: was_invalidated_def db_simps)
    have "recorded q H2 ?db k v (Some fp) ds tr" by (rule recorded_mono [OF tr2]) (simp_all add: db_simps)
    then have slot: "slot_ok q H2 ?db k" by (auto simp: slot_ok_def db_simps)
    have "engine_ok q H2 ?db" "keeps (set (stack_nodes db)) H2 db2 H2 ?db"
      by (rule end_slot [OF H2 st2(2) _ _ slot];
          use st2 engine_okD(1) [OF H2] in \<open>simp add: stack_nodes_def db_simps\<close>)+
    with keeps_trans [OF K2] have "engine_ok q H2 ?db" "keeps (set (stack_nodes db)) H db H2 ?db" by blast+
    then show ?thesis unfolding loop_post_def d using st2(1) by (auto simp: loop_result_def db_simps)
  next
    case (Inr failure)
    show ?thesis
    proof (cases failure)
      case None
      let ?db = "set_slot k (Ready v (Some fp) ds) (discard db2)"
      have d: "db' = record_dependency_fingerprint k (Some fp) (record_cache_hit k (record_green_validation k ?db))" "r = Ok v"
        using c' run1 Inr None k2 by (auto simp: was_invalidated_def note_failure_def db_simps)
      have "\<forall>(d, x) \<in> set ds. \<exists>fp u ds'. x = Some fp \<and> slot_state db2 d = Ready u (Some fp) ds'"
        using V Inr None by simp
      from green_sound [OF f H2 st2(2) _ tr2 this] k2 have
        G: "engine_ok q H2 ?db" "keeps (set (stack_nodes db)) H2 db2 H2 ?db" by (simp_all add: running_def)
      have "same_core ?db db'" unfolding d by (intro same_core_trans [OF _ same_core_small(4)] same_core_trans [OF _ same_core_small(1)] same_core_small(1))
      from core_after [OF G(1) keeps_trans [OF K2 G(2)] this]
      have "engine_ok q H2 db'" "keeps (set (stack_nodes db)) H db H2 db'" .
      moreover have "loop_result k r db db'" using d st2(1) by (simp add: loop_result_def db_simps)
      ultimately show ?thesis unfolding loop_post_def by blast
    next
      case (Some y)
      let ?db = "set_slot k Empty (discard (note_failure k failure db2))"
      have t: "try_get_cached n q k (Some (v, fp)) ?db = Some (r, db')"
        using c' run1 Inr Some by simp
      have E: "engine_ok q H2 ?db" "keeps (set (stack_nodes db)) H2 db2 H2 ?db"
        by (rule revalidation_failed [OF H2 st2(2)])+
      have "named q H (fingerprint_revision db) k fp v" using tr unfolding recorded_def by (auto split: if_splits)
      then have "stale_ok q H db k (Some (v, fp))" by (simp add: stale_ok_def)
      then have "stale_ok q H2 ?db k (Some (v, fp))" by (rule stale_ok_keeps [OF _ keeps_trans [OF K2 E(2)]])
      with loop [unfolded loop_sound_def, rule_format, OF t E(1) no] have L: "loop_post q H2 k r ?db db'" .
      have n: "stack_nodes ?db = stack_nodes db" and s: "query_stack ?db = query_stack db"
        using st2(1) by (simp_all add: stack_nodes_def db_simps)
      have "loop_result k r db db'" using L unfolding loop_post_def loop_result_def s by blast
      moreover obtain H' where "engine_ok q H' db'" "keeps (set (stack_nodes db)) H2 ?db H' db'"
        using L unfolding loop_post_def n by blast
      moreover from this(2) have "keeps (set (stack_nodes db)) H db H' db'" by (rule keeps_trans [OF keeps_trans [OF K2 E(2)]])
      ultimately show ?thesis unfolding loop_post_def by blast
    qed
  qed
qed

lemma loop_step:
  assumes f: "faithful q" and val: "validation_sound q n" and loop: "loop_sound q n" and run: "provider_sound q n"
  shows "loop_sound q (Suc n)"
  unfolding loop_sound_def
proof (intro allI impI)
  fix k stale db r db' H
  assume t: "try_get_cached (Suc n) q k stale db = Some (r, db')" and ok: "engine_ok q H db"
    and no: "\<not> single_consumer q k" and stale: "stale_ok q H db k stale"
  have same: "loop_post q H k r db db'" if "db' = db" "\<exists>e. r = Err e" "\<not> (\<exists>v. ready db k v)"
    using that ok by (intro loop_post_core) (auto simp: loop_result_def)
  show "loop_post q H k r db db'"
  proof (cases "slot_state db k")
    case (Ready v fp ds)
    with t have d: "db' = record_dependency_fingerprint k fp (record_cache_hit k db)" "r = Ok v" by simp_all
    have "same_core db db'" unfolding d by (rule same_core_trans [OF same_core_small(1,4)])
    moreover have "loop_result k r db db'" using d Ready by (simp add: loop_result_def db_simps)
    ultimately show ?thesis using ok by (intro loop_post_core)
  next
    case (PotentiallyOutdated v fp ds)
    with t show ?thesis by (intro validate_sound [OF f val loop ok _ no]) simp_all
  next
    case Empty
    with t show ?thesis by (intro compute_sound [OF f run ok _ no stale]) simp_all
  next
    case (Computing i)
    with t show ?thesis by (intro same) (auto split: sum.splits)
  next
    case (Validating i)
    with t show ?thesis by (intro same) (auto split: sum.splits)
  qed (use t same in auto)
qed

theorem engine_sound:
  assumes "faithful q"
  shows "loop_sound q n \<and> get_sound q n \<and> provider_sound q n \<and> validation_sound q n"
proof (induction n)
  case 0
  show ?case by (simp add: loop_sound_def get_sound_def provider_sound_def validation_sound_def)
next
  case (Suc n)
  with loop_step [OF assms] get_step provider_step validation_step show ?case by blast
qed

end
