(* ===== verification/Nia_Query_Sessions.thy ===== *)
theory Nia_Query_Sessions
  imports Nia_Query_Soundness
begin

text \<open>
  Sessions: any sequence of gets, provider edits followed by invalidation, and validated inputs. Whatever
  the sequence, a value returned is the one a from-scratch evaluation gives.
\<close>

section \<open>Slots have a node\<close>

text \<open>Only a slot that was handed out holds anything, and a call never forgets one.\<close>

definition slots_known :: "('k, 'v, 'fp) query_db \<Rightarrow> bool" where
  "slots_known db \<longleftrightarrow> (\<forall>k. k \<notin> set (slot_order db) \<longrightarrow> slot_state db k = Empty)"

definition grows :: "('k, 'v, 'fp) query_db \<Rightarrow> ('k, 'v, 'fp) query_db \<Rightarrow> bool" where
  "grows db db' \<longleftrightarrow> set (slot_order db) \<subseteq> set (slot_order db') \<and> (slots_known db \<longrightarrow> slots_known db')"

lemma grows_trans: "grows a b \<Longrightarrow> grows b c \<Longrightarrow> grows a c"
  by (auto simp: grows_def)

lemma growsI: "slot_order db' = slot_order db \<Longrightarrow> slot_state db' = slot_state db \<Longrightarrow> grows db db'"
  by (simp add: grows_def slots_known_def)

lemma grows_set_slot: "k \<in> set (slot_order db) \<Longrightarrow> slot_order db' = slot_order db \<Longrightarrow>
   slot_state db' = (slot_state db)(k := s) \<Longrightarrow> grows db db'"
  by (auto simp: grows_def slots_known_def)

lemma grows_in: "grows db db' \<Longrightarrow> k \<in> set (slot_order db) \<Longrightarrow> k \<in> set (slot_order db')"
  by (auto simp: grows_def)

lemma grows_slot_for: "grows db (slot_for k db)" "k \<in> set (slot_order (slot_for k db))"
  by (auto simp: grows_def slots_known_def slot_for_def)

definition outcome_grows where
  "outcome_grows db r \<longleftrightarrow> (\<forall>x db'. r = Some (x, db') \<longrightarrow> grows db db')"

lemma outcome_grows_after: "grows a b \<Longrightarrow> outcome_grows b r \<Longrightarrow> outcome_grows a r"
  unfolding outcome_grows_def using grows_trans by blast

lemma outcome_grows_simps [simp]: "outcome_grows db None" "outcome_grows db (Some (x, db')) \<longleftrightarrow> grows db db'"
  by (simp_all add: outcome_grows_def)

lemma enter_query_fields:
  "enter_query e db = Ok db' \<Longrightarrow> slot_order db' = slot_order db \<and> slot_state db' = slot_state db"
  by (cases "check_not_recursive_node (entry_node e) db") (auto simp: enter_query_def)

lemma value_fingerprint_fields:
  "value_fingerprint q k v stale db = Ok (fp, db') \<Longrightarrow> slot_order db' = slot_order db \<and> slot_state db' = slot_state db"
  by (cases "policy q k"; cases "filter_opt (\<lambda>(old, _). values_equal q k old v) stale")
    (auto simp: value_fingerprint_def split: if_splits option.splits)

lemma publish_value_grows:
  assumes "k \<in> set (slot_order db)" "publish_value q k stale v db = (r, db')"
  shows "grows db db'"
proof (cases "value_fingerprint q k v stale db")
  case (Inl e)
  with assms show ?thesis by (intro grows_set_slot [where s = Empty]) (auto simp: publish_value_def db_simps)
next
  case (Inr x)
  obtain fp db1 where x: "x = (fp, db1)" by (cases x)
  note vf = value_fingerprint_fields [OF Inr [unfolded x]]
  show ?thesis
  proof (cases "slot_state db1 k = Computing True")
    case True
    with assms Inr x vf show ?thesis by (intro grows_set_slot [where s = Empty]) (auto simp: publish_value_def db_simps)
  next
    case False
    with assms Inr x vf show ?thesis by (intro grows_set_slot) (auto simp: publish_value_def db_simps Let_def)
  qed
qed

lemma compute_slot_grows:
  assumes k: "k \<in> set (slot_order db)" and run: "\<And>p db. outcome_grows db (run p db)"
  shows "outcome_grows db (compute_slot run q k stale db)"
proof (cases "externally_published q k")
  case True
  then show ?thesis by (simp add: compute_slot_def growsI)
next
  case False
  define db0 where "db0 = on_graph (remove_dependencies_from k) (set_slot k (Computing False) db)"
  define e :: "('a, 'c) query_stack_entry" where "e = \<lparr>entry_node = k, entry_dependencies = [],
    entry_fingerprints = (if policy q k \<noteq> NoFingerprint then Some [] else None)\<rparr>"
  have g0: "grows db db0" using k by (intro grows_set_slot) (auto simp: db0_def db_simps)
  show ?thesis
  proof (cases "enter_query e db0")
    case (Inl x)
    with False g0 show ?thesis by (simp add: compute_slot_def e_def db0_def Let_def)
  next
    case (Inr db1)
    have g1: "grows db (record_execution k db1)" using g0 enter_query_fields [OF Inr]
      by (intro grows_trans [OF g0 growsI]) (auto simp: db_simps)
    have c: "compute_slot run q k stale db = (case run (execute_result q k) (record_execution k db1) of
         None \<Rightarrow> None
       | Some (Inl x, db) \<Rightarrow> Some (Err (with_query_context k x), record_internal_failure (with_query_context k x)
           (on_graph (remove_dependencies_from k) (discard (set_slot k Empty db))))
       | Some (Inr v, db) \<Rightarrow> Some (publish_value q k stale v db))"
      using False Inr unfolding compute_slot_def e_def db0_def Let_def by simp
    show ?thesis
    proof (cases "run (execute_result q k) (record_execution k db1)")
      case None
      with c show ?thesis by simp
    next
      case (Some y)
      obtain r db2 where y: "y = (r, db2)" by (cases y)
      have g2: "grows db db2" using run [of "record_execution k db1" "execute_result q k"] Some y
        by (intro grows_trans [OF g1]) simp
      have k2: "k \<in> set (slot_order db2)" using grows_in [OF g2 k] .
      show ?thesis
      proof (cases r)
        case (Inl x)
        with c Some y show ?thesis using k2
          by (auto simp: Let_def intro!: grows_trans [OF g2 grows_set_slot] simp: db_simps)
      next
        case (Inr v)
        with c Some y show ?thesis using publish_value_grows [OF k2, of q stale v]
          by (cases "publish_value q k stale v db2") (auto intro: grows_trans [OF g2])
      qed
    qed
  qed
qed

lemma validate_slot_grows:
  assumes k: "k \<in> set (slot_order db)" and val: "\<And>ds db. outcome_grows db (validate ds db)"
    and loop: "\<And>stale db. k \<in> set (slot_order db) \<Longrightarrow> outcome_grows db (loop stale db)"
  shows "outcome_grows db (validate_slot validate loop k v fp ds db)"
proof (cases "check_not_recursive_node k db")
  case (Inl x)
  then show ?thesis by (simp add: validate_slot_def growsI)
next
  case (Inr u)
  define db0 where "db0 = set_slot k (Validating False) db"
  define e :: "('a, 'c) query_stack_entry" where "e = \<lparr>entry_node = k, entry_dependencies = [], entry_fingerprints = Some []\<rparr>"
  have g0: "grows db db0" using k by (intro grows_set_slot) (auto simp: db0_def db_simps)
  show ?thesis
  proof (cases "enter_query e db0")
    case (Inl x)
    with Inr have "validate_slot validate loop k v fp ds db = Some (Err x, set_slot k (PotentiallyOutdated v fp ds) db0)"
      unfolding validate_slot_def e_def db0_def by simp
    moreover have "grows db0 (set_slot k (PotentiallyOutdated v fp ds) db0)"
      using grows_in [OF g0 k] by (intro grows_set_slot) (auto simp: db_simps)
    ultimately show ?thesis using grows_trans [OF g0] by simp
  next
    case e1: (Inr db1)
    define ds' where "ds' = sort_key (\<lambda>d. index_in (slot_order db1) (fst d)) ds"
    have g1: "grows db (record_validation k db1)" using enter_query_fields [OF e1]
      by (intro grows_trans [OF g0 growsI]) (auto simp: db_simps)
    show ?thesis
    proof (cases "validate ds' (record_validation k db1)")
      case None
      with Inr e1 show ?thesis unfolding validate_slot_def e_def db0_def ds'_def by simp
    next
      case (Some y)
      obtain r db2 where y: "y = (r, db2)" by (cases y)
      have g2: "grows db db2" using val [of "record_validation k db1" ds'] Some y
        by (intro grows_trans [OF g1]) simp
      have k2: "k \<in> set (slot_order db2)" using grows_in [OF g2 k] .
      show ?thesis
      proof (cases r)
        case (Inl x)
        define db3 where "db3 = (if was_invalidated (slot_state (discard db2) k)
          then on_graph (remove_dependencies_from k) (set_slot k Empty (discard db2))
          else set_slot k (PotentiallyOutdated v fp ds) (discard db2))"
        have "validate_slot validate loop k v fp ds db = Some (Err (with_query_context k x), db3)"
          using Inr e1 Some y Inl unfolding validate_slot_def e_def db0_def ds'_def Let_def db3_def by simp
        moreover have "grows db db3" using k2
          by (intro grows_trans [OF g2 grows_set_slot [where k = k and s = "slot_state db3 k"]]) (auto simp: db3_def db_simps)
        ultimately show ?thesis by simp
      next
        case r: (Inr failure)
        define db3 where "db3 = discard (case failure of
            Some (dependency, reason) \<Rightarrow> on_graph (record_validation_failure k dependency reason) db2 | None \<Rightarrow> db2)"
        have f3: "slot_order db3 = slot_order db2" "slot_state db3 = slot_state db2"
          by (auto simp: db3_def db_simps split: option.split)
        have c: "validate_slot validate loop k v fp ds db =
            (if failure = None \<and> \<not> was_invalidated (slot_state db3 k)
             then Some (Ok v, record_dependency_fingerprint k (Some fp)
                    (record_cache_hit k (record_green_validation k (set_slot k (Ready v (Some fp) ds) db3))))
             else loop (Some (v, fp)) (set_slot k Empty db3))"
          using Inr e1 Some y r unfolding validate_slot_def e_def db0_def ds'_def Let_def db3_def by simp
        have g3: "grows db (set_slot k Empty db3)"
          using f3 k2 by (intro grows_trans [OF g2 grows_set_slot]) (auto simp: db_simps)
        then have "outcome_grows db (loop (Some (v, fp)) (set_slot k Empty db3))"
          using loop grows_in [OF g3 k] outcome_grows_after by blast
        moreover have "grows db (record_dependency_fingerprint k (Some fp)
            (record_cache_hit k (record_green_validation k (set_slot k (Ready v (Some fp) ds) db3))))"
          using f3 k2 by (intro grows_trans [OF g2 grows_set_slot]) (auto simp: db_simps)
        ultimately show ?thesis using c by simp
      qed
    qed
  qed
qed

lemma engine_grows:
  "outcome_grows db (get n q k db)"
  "k \<in> set (slot_order db) \<Longrightarrow> outcome_grows db (try_get_cached n q k stale db)"
  "outcome_grows db (run_provider n q p db)"
  "outcome_grows db (dependency_validation_failure n q ds db)"
proof (induction n arbitrary: k db stale p ds)
  case 0
  {
    case 1 then show ?case by simp
  next
    case 2 then show ?case by simp
  next
    case 3 then show ?case by simp
  next
    case 4 then show ?case by simp
  }
next
  case (Suc n)
  {
    case 1
    have "grows db (record_dependency k (slot_for k db))" "k \<in> set (slot_order (record_dependency k (slot_for k db)))"
      using grows_trans [OF grows_slot_for(1) growsI, of "record_dependency k (slot_for k db)" k db] grows_slot_for(2) [of k db]
      by (auto simp: db_simps)
    with Suc.IH(2) show ?case
      by (auto split: sum.split intro: outcome_grows_after growsI)
  next
    case 2
    have "grows db (record_dependency_fingerprint k fp (record_cache_hit k db))" for fp
      by (intro growsI) (simp_all add: db_simps)
    then show ?case
      using compute_slot_grows [OF 2, of "run_provider n q" q stale] validate_slot_grows [OF 2, of "dependency_validation_failure n q"] Suc.IH(2-4)
      by (cases "slot_state db k") (auto simp: growsI split: sum.split)
  next
    case 3
    show ?case
    proof (cases p)
      case (Ask d c)
      then show ?thesis using Suc.IH(1) [of db d] Suc.IH(3)
        by (auto split: option.split intro: outcome_grows_after simp: outcome_grows_def intro: grows_trans)
    qed (simp_all add: growsI)
  next
    case 4
    have "grows db db1" "outcome_grows db (dependency_validation_failure n q rest db1)" if "get n q d db = Some (x, db1)" for d x db1 rest
    proof -
      from Suc.IH(1) [of db d] that show g: "grows db db1" by simp
      show "outcome_grows db (dependency_validation_failure n q rest db1)" by (rule outcome_grows_after [OF g Suc.IH(4)])
    qed
    then show ?case by (cases ds) (auto split: option.split sum.split prod.split simp: growsI)
  }
qed

section \<open>Invalidation\<close>

lemma mark_dependents_fields:
  assumes "mark_dependents ks db = (cleared, db')"
  shows "slot_order db' = slot_order db \<and> fingerprint_revision db' = fingerprint_revision db \<and>
    dep_graph db' = dep_graph db \<and> query_stack db' = query_stack db \<and> internal_failure db' = internal_failure db"
  using assms by (induction ks arbitrary: db cleared) (fastforce simp: db_simps split: prod.splits)+

lemma mark_dependents_spec:
  assumes "mark_dependents ks db = (cleared, db')" "distinct ks"
  shows "slot_state db' j = (if j \<in> set ks then fst (mark_potentially_outdated (slot_state db j)) else slot_state db j)"
    "cleared = filter (\<lambda>j. snd (mark_potentially_outdated (slot_state db j)) = Cleared) ks"
proof -
  have "(\<forall>j. slot_state db' j = (if j \<in> set ks then fst (mark_potentially_outdated (slot_state db j)) else slot_state db j)) \<and>
    cleared = filter (\<lambda>j. snd (mark_potentially_outdated (slot_state db j)) = Cleared) ks"
    using assms
  proof (induction ks arbitrary: db cleared)
    case (Cons k ks)
    obtain s d where sd: "mark_potentially_outdated (slot_state db k) = (s, d)" by fastforce
    obtain c db1 where m: "mark_dependents ks (set_slot k s db) = (c, db1)" by fastforce
    from Cons.prems sd m have e: "db' = db1" "cleared = (if d = Cleared then k # c else c)" by auto
    from Cons.prems have dist: "distinct ks" "k \<notin> set ks" by auto
    note IH = Cons.IH [OF m [folded e(1)] dist(1)]
    have "filter (\<lambda>j. snd (mark_potentially_outdated (slot_state (set_slot k s db) j)) = Cleared) ks =
        filter (\<lambda>j. snd (mark_potentially_outdated (slot_state db j)) = Cleared) ks"
      using dist(2) by (intro filter_cong) (auto simp: db_simps)
    then show ?case using IH sd e(2) dist(2) by (auto simp: db_simps)
  qed simp
  then show "slot_state db' j = (if j \<in> set ks then fst (mark_potentially_outdated (slot_state db j)) else slot_state db j)"
    "cleared = filter (\<lambda>j. snd (mark_potentially_outdated (slot_state db j)) = Cleared) ks" by blast+
qed

lemma fold_remove_dependencies:
  "edges (fold remove_dependencies_from ks g) = edges g - set ks \<times> UNIV"
  "lockstep g \<Longrightarrow> lockstep (fold remove_dependencies_from ks g)"
  by (induction ks arbitrary: g) auto

text \<open>What an invalidation makes of each slot.\<close>

definition invalidated_state :: "'k \<Rightarrow> ('k, 'v, 'fp) query_db \<Rightarrow> 'k \<Rightarrow> ('k, 'v, 'fp) query_state" where
  "invalidated_state root db j =
     (if j = root then invalidate_state (slot_state db j)
      else if (j, root) \<in> (edges (dep_graph db))\<^sup>* then fst (mark_potentially_outdated (slot_state db j))
      else slot_state db j)"

lemma invalidate_cached_root_spec:
  assumes "invalidate_cached_root root db = (ks, db')" and g: "lockstep (dep_graph db)"
  shows "ks = collect_dependents root (dep_graph db)" "slot_state db' j = invalidated_state root db j"
    "slot_order db' = slot_order db" "fingerprint_revision db' = fingerprint_revision db"
    "query_stack db' = query_stack db" "internal_failure db' = internal_failure db" "lockstep (dep_graph db')"
    "edges (dep_graph db') `` {j} =
       (if j = root \<or> (j, root) \<in> (edges (dep_graph db))\<^sup>* \<and> snd (mark_potentially_outdated (slot_state db j)) = Cleared
        then {} else edges (dep_graph db) `` {j})"
proof -
  note D = collect_dependents_spec [OF g, of root]
  from D(3) obtain ys where ys: "collect_dependents root (dep_graph db) = root # ys" by blast
  with D(1,2) have dist: "distinct ys" "root \<notin> set ys" and mem: "j \<in> set ys \<longleftrightarrow> j \<noteq> root \<and> (j, root) \<in> (edges (dep_graph db))\<^sup>*" for j
    by auto
  let ?db = "set_slot root (invalidate_state (slot_state db root)) db"
  obtain c db1 where m: "mark_dependents ys ?db = (c, db1)" by fastforce
  have e: "ks = root # ys" "db' = on_graph (fold remove_dependencies_from (root # c)) db1"
    using assms(1) m ys by (auto simp: invalidate_cached_root_def Let_def)
  note M = mark_dependents_spec [OF m dist(1)] and F = mark_dependents_fields [OF m]
  show "ks = collect_dependents root (dep_graph db)" using e ys by simp
  show "slot_state db' j = invalidated_state root db j"
    using M(1) [of j] dist(2) mem [of j] e(2) by (simp add: invalidated_state_def db_simps)
  show "slot_order db' = slot_order db" "fingerprint_revision db' = fingerprint_revision db"
    "query_stack db' = query_stack db" "internal_failure db' = internal_failure db"
    using F e(2) by (simp_all add: db_simps)
  have dg: "dep_graph db' = fold remove_dependencies_from (root # c) (dep_graph db)" using e(2) F by (simp add: db_simps)
  show "lockstep (dep_graph db')" unfolding dg using g by (rule fold_remove_dependencies(2))
  have "j \<in> set c \<longleftrightarrow> j \<noteq> root \<and> (j, root) \<in> (edges (dep_graph db))\<^sup>* \<and> snd (mark_potentially_outdated (slot_state db j)) = Cleared"
    unfolding M(2) using mem [of j] by (auto simp: db_simps)
  then show "edges (dep_graph db') `` {j} =
       (if j = root \<or> (j, root) \<in> (edges (dep_graph db))\<^sup>* \<and> snd (mark_potentially_outdated (slot_state db j)) = Cleared
        then {} else edges (dep_graph db) `` {j})"
    unfolding dg fold_remove_dependencies by auto
qed

text \<open>Between calls the stack is empty, and no slot is being computed.\<close>

definition idle :: "('k, 'v, 'fp) queries \<Rightarrow> ('k, 'v) drawn \<Rightarrow> ('k, 'v, 'fp) query_db \<Rightarrow> bool" where
  "idle q H db \<longleftrightarrow> engine_ok q H db \<and> query_stack db = [] \<and> slots_known db"

lemma idle_cases:
  assumes "idle q H db"
  obtains "slot_state db k = Empty" | v fp ds where "slot_state db k = Ready v fp ds"
    | v fp ds where "slot_state db k = PotentiallyOutdated v fp ds"
  using assms engine_okD(2) [of q H db k]
  by (cases "slot_state db k") (auto simp: idle_def slot_ok_def stack_nodes_def)

lemma invalidated_state_cases:
  assumes "idle q H db"
  shows "invalidated_state root db j =
    (if j = root then Empty
     else if (j, root) \<in> (edges (dep_graph db))\<^sup>*
     then case slot_state db j of
            Ready v fp ds \<Rightarrow> (case fp of Some f \<Rightarrow> PotentiallyOutdated v f ds | None \<Rightarrow> Empty)
          | s \<Rightarrow> s
     else slot_state db j)"
  by (rule idle_cases [OF assms, of j])
    (auto simp: invalidated_state_def invalidate_state_def mark_potentially_outdated_def split: option.split)

lemma slot_ok_outdated:
  assumes ok: "slot_ok q H db j" and s: "slot_state db j = Ready v (Some f) ds \<or> slot_state db j = PotentiallyOutdated v f ds"
    and s': "slot_state db' j = PotentiallyOutdated v f ds" and rv: "fingerprint_revision db' = fingerprint_revision db"
    and e: "edges (dep_graph db') `` {j} = edges (dep_graph db) `` {j}"
  shows "slot_ok q H db' j"
proof -
  from ok s obtain tr where tr: "recorded q H db j v (Some f) ds tr" by (auto simp: slot_ok_def)
  have "extends H (fingerprint_revision db) H (fingerprint_revision db')" by (simp add: rv)
  from recorded_mono [OF tr this e] s' show ?thesis by (auto simp: slot_ok_def)
qed

lemma slot_ok_unaffected:
  assumes ok: "slot_ok q H db j" and s: "slot_state db j = Ready v fp ds" "slot_state db' j = Ready v fp ds"
    and rv: "fingerprint_revision db' = fingerprint_revision db"
    and e: "edges (dep_graph db') `` {j} = edges (dep_graph db) `` {j}"
    and d: "\<And>d. (j, d) \<in> edges (dep_graph db) \<Longrightarrow> slot_state db' d = slot_state db d"
  shows "slot_ok q H db' j"
proof -
  from ok s obtain tr where tr: "evaluates q j v" "recorded q H db j v fp ds tr" "\<forall>(d, u) \<in> set tr. ready db d u"
    by (auto simp: slot_ok_def)
  have "edges (dep_graph db) `` {j} = fst ` set tr" using tr(2) by (simp add: recorded_def)
  then have "(j, d) \<in> edges (dep_graph db)" if "(d, u) \<in> set tr" for d u using that by force
  then have r: "\<forall>(d, u) \<in> set tr. ready db' d u" using tr(3) d by fastforce
  have "extends H (fingerprint_revision db) H (fingerprint_revision db')" by (simp add: rv)
  from tr(1) recorded_mono [OF tr(2) this e] r show ?thesis unfolding slot_ok_def s(2) query_state.case by blast
qed

lemma invalidate_cached_root_idle:
  assumes ok: "idle q H db" and i: "invalidate_cached_root root db = (ks, db')"
  shows "idle q H db'" "slot_state db' root = Empty" "slot_state db j = Empty \<Longrightarrow> slot_state db' j = Empty"
proof -
  let ?E = "edges (dep_graph db)"
  have g: "lockstep (dep_graph db)" using ok engine_okD(1) by (auto simp: idle_def)
  note S = invalidate_cached_root_spec [OF i g] and C = invalidated_state_cases [OF ok, of root]
  have st': "slot_state db' j = invalidated_state root db j" for j by (rule S(2))
  show "slot_state db' root = Empty" "slot_state db j = Empty \<Longrightarrow> slot_state db' j = Empty"
    unfolding st' C by simp_all
  have far: "slot_state db' j = slot_state db j" "?E `` {j} = edges (dep_graph db') `` {j}" if "(j, root) \<notin> ?E\<^sup>*" for j
    using that S(8) [of j] unfolding st' C by auto
  have "slot_ok q H db' j" for j
  proof -
    have okj: "slot_ok q H db j" using ok by (simp add: idle_def engine_ok_def)
    show ?thesis
    proof (rule idle_cases [OF ok, of j])
      assume "slot_state db j = Empty"
      then show ?thesis by (simp add: slot_ok_def st' C)
    next
      fix v fp ds assume r: "slot_state db j = PotentiallyOutdated v fp ds"
      show ?thesis
      proof (cases "j = root")
        case False
        then show ?thesis using r S(8) [of j]
          by (intro slot_ok_outdated [OF okj _ _ S(4)]) (auto simp: st' C mark_potentially_outdated_def)
      qed (simp add: slot_ok_def st' C)
    next
      fix v fp ds assume r: "slot_state db j = Ready v fp ds"
      show ?thesis
      proof (cases "(j, root) \<in> ?E\<^sup>*")
        case True
        show ?thesis
        proof (cases "j = root \<or> fp = None")
          case False
          then obtain f where "fp = Some f" by auto
          then show ?thesis using r True False S(8) [of j]
            by (intro slot_ok_outdated [OF okj _ _ S(4), of v f ds]) (auto simp: st' C mark_potentially_outdated_def)
        qed (use r True in \<open>auto simp: slot_ok_def st' C\<close>)
      next
        case False
        have "slot_state db' d = slot_state db d" if "(j, d) \<in> ?E" for d
          using that False by (intro far(1)) (meson converse_rtrancl_into_rtrancl)
        with far [OF False] r show ?thesis by (intro slot_ok_unaffected [OF okj r _ S(4)]) auto
      qed
    qed
  qed
  moreover have "slots_known db'" using ok by (auto simp: idle_def slots_known_def S(3) st' C)
  ultimately show "idle q H db'" using S(5,7) ok by (simp add: idle_def engine_ok_def stack_nodes_def)
qed

section \<open>Changing providers\<close>

lemma follows_same:
  "follows p tr (Return v) \<Longrightarrow> follows p tr' (Return v') \<Longrightarrow>
   (\<And>d u u'. (d, u) \<in> set tr \<Longrightarrow> (d, u') \<in> set tr' \<Longrightarrow> u = u') \<Longrightarrow> tr = tr'"
proof (induction p tr "Return v :: ('a, 'b) provider" arbitrary: tr' rule: follows.induct)
  case stop
  then show ?case by (auto elim: follows.cases)
next
  case (ask c u tr d)
  from ask.prems(1) obtain u' tr'' where tr': "tr' = (d, u') # tr''" "follows (c (Ok u')) tr'' (Return v')"
    by (auto elim: follows.cases)
  have "u = u'" using ask.prems(2) [of d u u'] tr'(1) by simp
  moreover from this tr' have "tr = tr''" by (intro ask.hyps(2)) (auto intro: ask.prems(2))
  ultimately show ?case using tr'(1) by simp
qed

abbreviation with_providers :: "('k \<Rightarrow> ('k, 'v) provider) \<Rightarrow> ('k, 'v, 'fp) queries \<Rightarrow> ('k, 'v, 'fp) queries" where
  "with_providers ex q \<equiv> q\<lparr>execute_result := ex\<rparr>"

text \<open>Ready slots form a closed part of the dependencies, so they evaluate by the unchanged providers only.\<close>

lemma ready_evaluates_with:
  assumes ok: "engine_ok q H db" and ev: "evaluates q k v" and r: "ready db k v"
    and ex: "\<And>k v. ready db k v \<Longrightarrow> ex k = execute_result q k"
  shows "evaluates (with_providers ex q) k v"
  using ev r
proof (induction rule: evaluates.induct)
  case (evaluates k tr v)
  from evaluates.prems engine_okD(2) [OF ok, of k] obtain fp ds tr' where
    tr': "recorded q H db k v fp ds tr'" "\<forall>(d, u) \<in> set tr'. ready db d u" by (auto simp: slot_ok_def)
  have ev': "evaluates q d u" if "(d, u) \<in> set tr'" for d u
    using tr'(2) that engine_okD(2) [OF ok, of d] by (fastforce simp: slot_ok_def)
  have "tr = tr'"
  proof (rule follows_same [OF evaluates.hyps(3)])
    show "follows (execute_result q k) tr' (Return v)" using tr'(1) by (simp add: recorded_def)
    show "u = u'" if "(d, u) \<in> set tr" "(d, u') \<in> set tr'" for d u u'
      using evaluates.IH that(1) ev' [OF that(2)] evaluates_unique by fast
  qed
  with evaluates.IH tr'(2) have "\<forall>(d, u) \<in> set tr. evaluates (with_providers ex q) d u" by fast
  with evaluates.hyps ex [OF evaluates.prems] show ?case by (intro evaluates.intros [of _ _ tr]) simp_all
qed

lemma recorded_with:
  assumes "recorded q H db k v fp ds tr" "ex k = execute_result q k"
  shows "recorded (with_providers ex q) H db k v fp ds tr"
proof -
  have n: "named (with_providers ex q) = named q" by (intro ext) (simp add: named_def split: fingerprint_policy.split)
  have "fingerprints_ok (with_providers ex q) = fingerprints_ok q" by (intro ext) (simp add: fingerprints_ok_def n)
  with n assms show ?thesis by (simp add: recorded_def)
qed

lemma idle_with:
  assumes ok: "idle q H db" and ex: "\<And>k. slot_state db k \<noteq> Empty \<Longrightarrow> ex k = execute_result q k"
  shows "idle (with_providers ex q) H db"
proof -
  have e: "engine_ok q H db" using ok by (simp add: idle_def)
  have exr: "ex k = execute_result q k" if "ready db k v" for k v using that ex [of k] by auto
  have "slot_ok (with_providers ex q) H db k" for k
  proof (rule idle_cases [OF ok, of k])
    fix v fp ds assume r: "slot_state db k = Ready v fp ds"
    with engine_okD(2) [OF e, of k] obtain tr where tr: "evaluates q k v" "recorded q H db k v fp ds tr" "\<forall>(d, u) \<in> set tr. ready db d u"
      by (auto simp: slot_ok_def)
    have "evaluates (with_providers ex q) k v" by (rule ready_evaluates_with [OF e tr(1) _ exr]) (use r in auto)
    moreover have "recorded (with_providers ex q) H db k v fp ds tr" by (rule recorded_with [OF tr(2)]) (use r ex in simp)
    ultimately show ?thesis using tr(3) unfolding slot_ok_def r query_state.case by blast
  next
    fix v fp ds assume r: "slot_state db k = PotentiallyOutdated v fp ds"
    with engine_okD(2) [OF e, of k] obtain tr where tr: "recorded q H db k v (Some fp) ds tr" by (auto simp: slot_ok_def)
    have "recorded (with_providers ex q) H db k v (Some fp) ds tr" by (rule recorded_with [OF tr]) (use r ex in simp)
    then show ?thesis unfolding slot_ok_def r query_state.case by blast
  qed (simp add: slot_ok_def)
  with ok show ?thesis by (simp add: idle_def engine_ok_def)
qed

lemma invalidate_idle:
  assumes ok: "idle q H db" and i: "invalidate k db = (ks, db')"
  shows "idle q H db'" "slot_state db' k = Empty" "slot_state db j = Empty \<Longrightarrow> slot_state db' j = Empty"
proof -
  have "idle q H db' \<and> slot_state db' k = Empty \<and> (slot_state db j = Empty \<longrightarrow> slot_state db' j = Empty)"
  proof (cases "k \<in> set (slot_order db)")
    case True
    with i have "invalidate_cached_root k db = (ks, db')" by (simp add: invalidate_def)
    from invalidate_cached_root_idle [OF ok this] show ?thesis by blast
  next
    case False
    with i ok show ?thesis by (auto simp: invalidate_def idle_def slots_known_def)
  qed
  then show "idle q H db'" "slot_state db' k = Empty" "slot_state db j = Empty \<Longrightarrow> slot_state db' j = Empty" by blast+
qed

definition invalidate_all :: "'k list \<Rightarrow> ('k, 'v, 'fp) query_db \<Rightarrow> ('k, 'v, 'fp) query_db" where
  "invalidate_all ks db = fold (\<lambda>k db. snd (invalidate k db)) ks db"

lemma invalidate_all_idle:
  assumes "idle q H db"
  shows "idle q H (invalidate_all ks db) \<and> (\<forall>k. k \<in> set ks \<or> slot_state db k = Empty \<longrightarrow> slot_state (invalidate_all ks db) k = Empty)"
  using assms unfolding invalidate_all_def
proof (induction ks arbitrary: db)
  case (Cons k ks)
  obtain xs db1 where i: "invalidate k db = (xs, db1)" by fastforce
  note I = invalidate_idle [OF Cons.prems i]
  from Cons.IH [OF I(1)] I(2,3) i show ?case by auto
qed simp

text \<open>An input is a key without dependencies; its new value is compared by fingerprint.\<close>

lemma validate_input_idle:
  assumes f: "faithful q" and ok: "idle q H db" and k: "execute_result q k = Return old"
    and v: "validate_input q k current db = (Ok ks, db')"
  shows "idle (with_providers ((execute_result q)(k := Return current)) q) H db'"
proof -
  let ?ex = "(execute_result q)(k := Return current)"
  have empty: ?thesis if "idle q H db'" "slot_state db' k = Empty"
    using that by (intro idle_with) auto
  have red: ?thesis if "invalidate_cached_root k db = (ks, db')"
    using invalidate_cached_root_idle [OF ok that] by (intro empty)
  from v obtain f' where p: "policy q k = StableValue" "key_fingerprint q k current = Some f'"
    by (auto simp: validate_input_def split: if_splits option.splits)
  have same: "w = current" if r: "recorded q H db k w (Some f') ds tr" for w ds tr
  proof -
    from r p have "key_fingerprint q k w = Some f'" by (simp add: recorded_def named_def)
    with p f show ?thesis unfolding faithful_def by blast
  qed
  have val: "w = old" "tr = []" if r: "recorded q H db k w fp ds tr" for w fp ds tr
    using r k by (auto simp: recorded_def elim: follows.cases)
  show ?thesis
  proof (cases "k \<in> set (slot_order db)")
    case False
    with v p ok have "db' = db" "slot_state db k = Empty" by (auto simp: validate_input_def idle_def slots_known_def)
    with ok show ?thesis by (intro empty) simp_all
  next
    case True
    have e: "slot_ok q H db k" using ok by (simp add: idle_def engine_ok_def)
    show ?thesis
    proof (rule idle_cases [OF ok, of k])
      assume s: "slot_state db k = Empty"
      with v p True have "db' = db" by (auto simp: validate_input_def)
      with s ok show ?thesis by (intro empty) simp_all
    next
      fix w fp ds assume s: "slot_state db k = Ready w fp ds"
      with e obtain tr where tr: "recorded q H db k w fp ds tr" by (auto simp: slot_ok_def)
      show ?thesis
      proof (cases "fp = Some f'")
        case True
        with same tr val(1) [OF tr] have "old = current" by blast
        then have "?ex = execute_result q" using k by auto
        moreover have "db' = db" using v p True s \<open>k \<in> set (slot_order db)\<close> by (auto simp: validate_input_def)
        ultimately show ?thesis using ok by simp
      next
        case False
        with v p s True show ?thesis by (intro red) (auto simp: validate_input_def Let_def split: prod.splits)
      qed
    next
      fix w fp ds assume s: "slot_state db k = PotentiallyOutdated w fp ds"
      with e obtain tr where tr: "recorded q H db k w (Some fp) ds tr" by (auto simp: slot_ok_def)
      show ?thesis
      proof (cases "fp = f'")
        case True
        with same tr val(1) [OF tr] have "old = current" "w = old" by blast+
        then have ex: "?ex = execute_result q" using k by auto
        have d: "db' = set_slot k (Ready w (Some fp) ds) db"
          using v p True s \<open>k \<in> set (slot_order db)\<close> by (auto simp: validate_input_def)
        have "evaluates q k w" using tr val [OF tr] by (intro evaluates.intros [of q k "[]"]) (auto simp: recorded_def k)
        moreover have "recorded q H db' k w (Some fp) ds tr" by (rule recorded_mono [OF tr]) (simp_all add: d db_simps)
        ultimately have slot: "slot_ok q H db' k" using val(2) [OF tr] by (auto simp: slot_ok_def d db_simps)
        have eo: "engine_ok q H db" using ok by (simp add: idle_def)
        have "engine_ok q H db'"
          by (rule engine_ok_update(1) [OF eo _ _ _ _ _ _ slot])
            (use ok s engine_okD(1) [OF eo] in \<open>simp_all add: d db_simps idle_def stack_nodes_def\<close>)
        then have "idle q H db'" using ok True \<open>k \<in> set (slot_order db)\<close> by (auto simp: idle_def d db_simps slots_known_def)
        with ex show ?thesis by simp
      next
        case False
        with v p s True show ?thesis by (intro red) (auto simp: validate_input_def Let_def split: prod.splits)
      qed
    qed
  qed
qed


section \<open>Sessions\<close>

text \<open>
  A database as a compiler session leaves it: new, after a get, after providers changed for the keys then
  invalidated, and after an input got a new value.
\<close>

inductive session :: "('k, 'v, 'fp) queries \<Rightarrow> ('k, 'v, 'fp) query_db \<Rightarrow> bool" where
  start: "faithful q \<Longrightarrow> session q query_db_new"
| get: "session q db \<Longrightarrow> get n q k db = Some (r, db') \<Longrightarrow> session q db'"
| edit: "session q db \<Longrightarrow> faithful (with_providers ex q) \<Longrightarrow> \<forall>k. k \<notin> set ks \<longrightarrow> ex k = execute_result q k \<Longrightarrow>
    session (with_providers ex q) (invalidate_all ks db)"
| input: "session q db \<Longrightarrow> execute_result q k = Return old \<Longrightarrow> validate_input q k current db = (Ok ks, db') \<Longrightarrow>
    session (with_providers ((execute_result q)(k := Return current)) q) db'"

lemma idle_new: "idle q H query_db_new"
  by (simp add: idle_def engine_ok_def slot_ok_def slots_known_def query_db_new_def stack_nodes_def)

lemma get_idle:
  assumes f: "faithful q" and ok: "idle q H db" and g: "get n q k db = Some (r, db')"
  shows "\<exists>H'. idle q H' db'" "r = Ok v \<Longrightarrow> evaluates q k v"
proof -
  have e: "engine_ok q H db" "query_stack db = []" "slots_known db" using ok by (auto simp: idle_def)
  have "get_sound q n" using engine_sound [OF f] by blast
  note G = this [unfolded get_sound_def, rule_format, OF g e(1)]
  from G obtain H' where H': "engine_ok q H' db'" by blast
  have st: "query_stack db' = []" using G e(2) by (cases r) (auto simp: stack_nodes_def)
  have "grows db db'" using engine_grows(1) [of db n q k] g by simp
  with e(3) H' st show "\<exists>H'. idle q H' db'" by (auto simp: grows_def idle_def)
  show "evaluates q k v" if "r = Ok v"
    using G that engine_okD(2) [OF H', of k] by (auto simp: slot_ok_def)
qed

lemma session_idle: "session q db \<Longrightarrow> faithful q \<and> (\<exists>H. idle q H db)"
proof (induction rule: session.induct)
  case (start q)
  then show ?case using idle_new by blast
next
  case (get q db n k r db')
  then obtain H where H: "faithful q" "idle q H db" by blast
  from get_idle(1) [OF H get.hyps(2)] H(1) show ?case by simp
next
  case (edit q db ex ks)
  then obtain H where H: "idle q H db" by blast
  note I = invalidate_all_idle [OF H, of ks]
  have "idle (with_providers ex q) H (invalidate_all ks db)" using I edit.hyps by (intro idle_with) auto
  with edit.hyps show ?case by blast
next
  case (input q db k old current ks db')
  then obtain H where H: "faithful q" "idle q H db" by blast
  have "faithful (with_providers ((execute_result q)(k := Return current)) q)" using H(1) by (simp add: faithful_def)
  with validate_input_idle [OF H input.hyps(2,3)] show ?case by blast
qed

section \<open>Properties\<close>

text \<open>
  A small program for the witnesses: key 0 is an input, key 1 halves it, every other key adds ten to key 1.
\<close>

definition demo_queries :: "(nat \<Rightarrow> (nat, nat) provider) \<Rightarrow> (nat, nat, nat) queries" where
  "demo_queries ex = \<lparr>execute_result = ex, policy = \<lambda>_. StableValue, key_fingerprint = \<lambda>_ v. Some v,
     values_equal = \<lambda>_. (=), semantic_fingerprint = \<lambda>_ r. r, single_consumer = \<lambda>_. False,
     externally_published = \<lambda>_. False\<rparr>"

definition try_ask :: "'k \<Rightarrow> ('v \<Rightarrow> ('k, 'v) provider) \<Rightarrow> ('k, 'v) provider" where
  "try_ask d c = Ask d (\<lambda>r. case r of Inl e \<Rightarrow> Throw e | Inr u \<Rightarrow> c u)"

definition demo_providers :: "nat \<Rightarrow> nat \<Rightarrow> (nat, nat) provider" where
  "demo_providers x k =
     (if k = 0 then Return x
      else if k = 1 then try_ask 0 (\<lambda>u. Return (u div 2))
      else try_ask 1 (\<lambda>u. Return (u + 10)))"

definition demo :: "nat \<Rightarrow> (nat, nat, nat) queries" where
  "demo x = demo_queries (demo_providers x)"

definition after_get :: "nat \<Rightarrow> ('k, 'v, 'fp) queries \<Rightarrow> 'k \<Rightarrow> ('k, 'v, 'fp) query_db \<Rightarrow> ('k, 'v, 'fp) query_db" where
  "after_get n q k db = snd (the (get n q k db))"

definition result_of :: "('a, 'k, 'v, 'fp) query_outcome \<Rightarrow> ('a, 'k query_error) rust_result option" where
  "result_of x = map_option fst x"

lemma result_of_Some: "result_of x = Some r \<Longrightarrow> x = Some (r, snd (the x))"
  by (cases x) (auto simp: result_of_def)

lemma session_after_get: "session q db \<Longrightarrow> result_of (get n q k db) = Some r \<Longrightarrow> session q (after_get n q k db)"
  unfolding after_get_def by (rule session.get) (auto dest: result_of_Some)

lemma faithful_demo: "faithful (demo_queries ex) \<longleftrightarrow> (\<forall>k. propagates (ex k))"
  by (simp add: faithful_def demo_queries_def)

lemma propagates_try_ask [simp]: "propagates (try_ask d c) \<longleftrightarrow> (\<forall>u. propagates (c u))"
  by (auto simp: try_ask_def split: sum.split)

lemma faithful_demo_x: "faithful (demo x)"
  by (simp add: demo_def faithful_demo demo_providers_def)

definition demo_db :: "(nat, nat, nat) query_db" where
  "demo_db = snd (validate_input (demo 3) 0 2 (after_get 20 (demo 3) 2 query_db_new))"

lemma demo_session: "session (demo 2) demo_db"
proof -
  let ?db = "after_get 20 (demo 3) 2 query_db_new"
  have "session (demo 3) ?db"
    by (rule session_after_get [OF session.start [OF faithful_demo_x]]) code_simp
  moreover have "execute_result (demo 3) 0 = Return 3" by (simp add: demo_def demo_queries_def demo_providers_def)
  moreover have "fst (validate_input (demo 3) 0 2 ?db) = Ok [0, 1, 2]" by code_simp
  then have "validate_input (demo 3) 0 2 ?db = (Ok [0, 1, 2], demo_db)" by (simp add: demo_db_def prod_eq_iff)
  ultimately have "session (with_providers ((execute_result (demo 3))(0 := Return 2)) (demo 3)) demo_db" by (rule session.input)
  moreover have "with_providers ((execute_result (demo 3))(0 := Return 2)) (demo 3) = demo 2"
    by (simp add: demo_def demo_queries_def fun_eq_iff demo_providers_def)
  ultimately show ?thesis by simp
qed

text \<open>
  C1. Soundness of incremental evaluation. However a session mixed gets, edited providers followed by the
  invalidation of their keys, and validated inputs, a value that \<^verbatim>\<open>get\<close> returns is the value a
  from-scratch evaluation by the current providers gives, and no other is.
\<close>

theorem session_values_are_current:
  assumes "session q db" "get n q k db = Some (Ok v, db')"
  shows "evaluates q k v \<and> (\<forall>w. evaluates q k w \<longleftrightarrow> w = v)"
proof -
  from session_idle [OF assms(1)] obtain H where H: "faithful q" "idle q H db" by blast
  have "evaluates q k v" by (rule get_idle(2) [OF H assms(2) refl])
  then show ?thesis using evaluates_unique [of q k v] by metis
qed

theorem session_values_are_current_witness:
  "result_of (get 20 (demo 2) 2 demo_db) = Some (Ok 11) \<and> evaluates (demo 2) 2 11 \<and> session (demo 2) demo_db"
proof -
  have r: "result_of (get 20 (demo 2) 2 demo_db) = Some (Ok 11)" by code_simp
  from session_values_are_current [OF demo_session result_of_Some [OF r]] r demo_session show ?thesis by blast
qed

text \<open>
  C29. Invalidation. Invalidating a key returns it with exactly the keys that depend on it through recorded
  dependencies. Afterwards none of these serves its value without validation or execution, the key itself is
  empty, every other slot is as before, and the database is again one of a session.
\<close>

theorem invalidate_outdates_dependents:
  assumes s: "session q db" and k: "k \<in> set (slot_order db)" and i: "invalidate k db = (ks, db')"
  shows "set ks = {j. (j, k) \<in> (edges (dep_graph db))\<^sup>*} \<and> distinct ks \<and> slot_state db' k = Empty \<and>
    (\<forall>j. (if j \<in> set ks then \<not> (\<exists>v. ready db' j v) else slot_state db' j = slot_state db j)) \<and> session q db'"
proof -
  from session_idle [OF s] obtain H where H: "faithful q" "idle q H db" by blast
  then have g: "lockstep (dep_graph db)" by (simp add: idle_def engine_ok_def)
  from i k have i': "invalidate_cached_root k db = (ks, db')" by (simp add: invalidate_def)
  note S = invalidate_cached_root_spec [OF i' g] and C = invalidated_state_cases [OF H(2), of k]
  have ks: "set ks = {j. (j, k) \<in> (edges (dep_graph db))\<^sup>*}" "distinct ks"
    using collect_dependents_spec [OF g, of k] S(1) by auto
  have "session (with_providers (execute_result q) q) (invalidate_all [k] db)"
    using H(1) by (intro session.edit [OF s]) simp_all
  then have "session q db'" using i by (simp add: invalidate_all_def)
  moreover have "if j \<in> set ks then \<not> (\<exists>v. ready db' j v) else slot_state db' j = slot_state db j" for j
    unfolding ks(1) S(2) C by (auto split: query_state.split option.split)
  moreover have "slot_state db' k = Empty" unfolding S(2) C by simp
  ultimately show ?thesis using ks by blast
qed

theorem invalidate_outdates_dependents_witness:
  "set [0, 1, 2] = {j. (j, 0) \<in> (edges (dep_graph (after_get 20 (demo 3) 2 query_db_new)))\<^sup>*} \<and>
   slot_state (snd (invalidate (0 :: nat) (after_get 20 (demo 3) 2 query_db_new))) 0 = Empty"
proof -
  let ?db = "after_get 20 (demo 3) 2 query_db_new"
  have s: "session (demo 3) ?db" by (rule session_after_get [OF session.start [OF faithful_demo_x]]) code_simp
  have k: "0 \<in> set (slot_order ?db)" by code_simp
  have "fst (invalidate 0 ?db) = [0, 1, 2]" by code_simp
  then have "invalidate 0 ?db = ([0, 1, 2], snd (invalidate 0 ?db))" by (simp add: prod_eq_iff)
  from invalidate_outdates_dependents [OF s k this] show ?thesis by blast
qed

end
