(* ===== verification/Nia_Query_Liveness.thy ===== *)
theory Nia_Query_Liveness
  imports Nia_Query_Sessions
begin

text \<open>
  That the engine answers: fuel only bounds the depth of a computation, and with providers that ask only
  keys of a smaller rank and never fail, enough fuel gives a value, whatever the cache holds.
\<close>

section \<open>More fuel, same answer\<close>

definition less_defined :: "'a option \<Rightarrow> 'a option \<Rightarrow> bool" where
  "less_defined x y \<longleftrightarrow> (\<forall>z. x = Some z \<longrightarrow> y = Some z)"

lemma less_defined_simps [simp]: "less_defined x x" "less_defined None y" "less_defined (Some z) y \<longleftrightarrow> y = Some z"
  by (auto simp: less_defined_def)

lemma less_defined_case:
  "less_defined x y \<Longrightarrow> (\<And>r db. x = Some (r, db) \<Longrightarrow> less_defined (f r db) (g r db)) \<Longrightarrow>
   less_defined (case x of None \<Rightarrow> None | Some (r, db) \<Rightarrow> f r db) (case y of None \<Rightarrow> None | Some (r, db) \<Rightarrow> g r db)"
  by (cases x) auto

lemma less_defined_outcome:
  "less_defined x y \<Longrightarrow> (\<And>e db. x = Some (Inl e, db) \<Longrightarrow> less_defined (fl e db) (gl e db)) \<Longrightarrow>
   (\<And>v db. x = Some (Inr v, db) \<Longrightarrow> less_defined (fr v db) (gr v db)) \<Longrightarrow>
   less_defined (case x of None \<Rightarrow> None | Some (Inl e, db) \<Rightarrow> fl e db | Some (Inr v, db) \<Rightarrow> fr v db)
     (case y of None \<Rightarrow> None | Some (Inl e, db) \<Rightarrow> gl e db | Some (Inr v, db) \<Rightarrow> gr v db)"
  by (cases x) (auto split: sum.split)

lemma compute_slot_mono:
  assumes "\<And>p db. less_defined (run p db) (run' p db)"
  shows "less_defined (compute_slot run q k stale db) (compute_slot run' q k stale db)"
  unfolding compute_slot_def Let_def
  by (simp split: sum.split) (auto intro!: less_defined_outcome assms)

lemma validate_slot_mono:
  assumes "\<And>ds db. less_defined (val ds db) (val' ds db)" "\<And>s db. less_defined (loop s db) (loop' s db)"
  shows "less_defined (validate_slot val loop k v fp ds db) (validate_slot val' loop' k v fp ds db)"
  unfolding validate_slot_def Let_def
  by (simp split: sum.split) (auto intro!: less_defined_outcome assms)

lemma engine_mono_Suc:
  "less_defined (get n q k db) (get (Suc n) q k db)"
  "less_defined (try_get_cached n q k stale db) (try_get_cached (Suc n) q k stale db)"
  "less_defined (run_provider n q p db) (run_provider (Suc n) q p db)"
  "less_defined (dependency_validation_failure n q ds db) (dependency_validation_failure (Suc n) q ds db)"
proof (induction n arbitrary: k db stale p ds)
  case 0
  {
    case 1 then show ?case by simp
  next
    case 2 then show ?case by simp
  next
    case 3 then show ?case by simp
  next
    case 4 then show ?case by simp
  }
next
  case (Suc n)
  {
    case 1
    show ?case unfolding get.simps(2) [of n q k db] get.simps(2) [of "Suc n" q k db] by (auto split: sum.split intro: Suc.IH(2) simp del: try_get_cached.simps)
  next
    case 2
    show ?case unfolding try_get_cached.simps(2) [of n q k stale db] try_get_cached.simps(2) [of "Suc n" q k stale db]
      by (cases "slot_state db k") (auto intro: compute_slot_mono validate_slot_mono Suc.IH simp del: get.simps try_get_cached.simps run_provider.simps dependency_validation_failure.simps)
  next
    case 3
    show ?case unfolding run_provider.simps(2) [of n q p db] run_provider.simps(2) [of "Suc n" q p db]
      by (cases p) (auto intro!: less_defined_case Suc.IH simp del: get.simps run_provider.simps)
  next
    case 4
    show ?case
    proof (cases ds)
      case (Cons x rest)
      obtain d y where x: "x = (d, y)" by (cases x)
      show ?thesis unfolding Cons x dependency_validation_failure.simps(2) [of n q "(d, y) # rest" db]
          dependency_validation_failure.simps(2) [of "Suc n" q "(d, y) # rest" db]
        using Suc.IH(1) [of d db] Suc.IH(4)
        by (cases y; cases "get n q d db") (auto split: sum.split simp del: get.simps dependency_validation_failure.simps)
    qed simp
  }
qed

lemma mono_le:
  assumes "\<And>n. less_defined (f n) (f (Suc n))" "f n = Some x" "n \<le> m"
  shows "f m = Some x"
  using assms(3,2) by (induction rule: dec_induct) (use assms(1) in \<open>auto simp: less_defined_def\<close>)

lemmas more_fuel = mono_le [of "\<lambda>n. get n q k db", OF engine_mono_Suc(1)]
  mono_le [of "\<lambda>n. try_get_cached n q k stale db", OF engine_mono_Suc(2)]
  mono_le [of "\<lambda>n. run_provider n q p db", OF engine_mono_Suc(3)]
  mono_le [of "\<lambda>n. dependency_validation_failure n q ds db", OF engine_mono_Suc(4)] for q k db stale p ds


section \<open>Ranked providers\<close>

text \<open>
  A provider settles below \<open>m\<close> when whatever values its questions get, it returns, and its questions have
  rank below \<open>m\<close>. Queries are total by a rank when every provider settles below the rank of its key, and
  the fingerprint of a key is the one its policy declares.
\<close>

primrec settles :: "('k \<Rightarrow> nat) \<Rightarrow> nat \<Rightarrow> ('k, 'v) provider \<Rightarrow> bool" where
  "settles rk m (Return v) = True"
| "settles rk m (Throw e) = False"
| "settles rk m (Ask d c) = (rk d < m \<and> (\<forall>u. settles rk m (c (Ok u))))"

definition total_by :: "('k \<Rightarrow> nat) \<Rightarrow> ('k, 'v, 'fp) queries \<Rightarrow> bool" where
  "total_by rk q \<longleftrightarrow> (\<forall>k. settles rk (rk k) (execute_result q k) \<and> \<not> single_consumer q k \<and> \<not> externally_published q k \<and>
     (\<forall>v. key_fingerprint q k v \<noteq> None \<longleftrightarrow> policy q k = StableValue))"

lemma settles_follows: "follows p tr p' \<Longrightarrow> settles rk m p \<Longrightarrow> (d, u) \<in> set tr \<Longrightarrow> rk d < m"
  by (induction rule: follows.induct) auto

text \<open>A healthy database whose running queries all have rank at least \<open>m\<close>.\<close>

definition above :: "('k, 'v, 'fp) queries \<Rightarrow> ('k \<Rightarrow> nat) \<Rightarrow> nat \<Rightarrow> ('k, 'v, 'fp) query_db \<Rightarrow> bool" where
  "above q rk m db \<longleftrightarrow> (\<exists>H. engine_ok q H db) \<and> internal_failure db = None \<and> (\<forall>j \<in> set (stack_nodes db). m \<le> rk j)"

definition answers :: "('k, 'v, 'fp) queries \<Rightarrow> ('k \<Rightarrow> nat) \<Rightarrow> nat \<Rightarrow> bool" where
  "answers q rk m \<longleftrightarrow> (\<forall>k db. rk k < m \<longrightarrow> above q rk (Suc (rk k)) db \<longrightarrow>
     (\<exists>n v db'. get n q k db = Some (Ok v, db') \<and> internal_failure db' = None))"

lemma above_mono: "above q rk m db \<Longrightarrow> m' \<le> m \<Longrightarrow> above q rk m' db"
  by (auto simp: above_def)

lemma above_get:
  assumes f: "faithful q" and a: "above q rk m db" and g: "get n q k db = Some (r, db')" and h: "internal_failure db' = None"
  shows "above q rk m db'"
proof -
  from a obtain H where ok: "engine_ok q H db" by (auto simp: above_def)
  have "get_sound q n" using engine_sound [OF f] by blast
  note G = this [unfolded get_sound_def, rule_format, OF g ok]
  have "stack_nodes db' = stack_nodes db"
    using G by (cases r; cases "query_stack db") (auto simp: stack_nodes_def)
  with G a h show ?thesis by (auto simp: above_def)
qed

lemma run_provider_answers:
  assumes f: "faithful q" and ans: "answers q rk m"
  shows "settles rk m p \<Longrightarrow> above q rk m db \<Longrightarrow>
    \<exists>n v db'. run_provider n q p db = Some (Ok v, db') \<and> internal_failure db' = None"
proof (induction p arbitrary: db)
  case (Return v)
  then show ?case by (intro exI [of _ 1]) (auto simp: above_def)
next
  case (Ask d c)
  from Ask.prems have d: "rk d < m" by simp
  have "above q rk (Suc (rk d)) db" using above_mono [OF Ask.prems(2)] d by simp
  with ans d obtain n1 u db1 where g: "get n1 q d db = Some (Ok u, db1)" "internal_failure db1 = None"
    unfolding answers_def by blast
  have "settles rk m (c (Ok u))" using Ask.prems by simp
  from Ask.IH [OF _ this above_get [OF f Ask.prems(2) g]] obtain n2 v db2 where
    r: "run_provider n2 q (c (Ok u)) db1 = Some (Ok v, db2)" "internal_failure db2 = None" by blast
  have "run_provider (Suc (max n1 n2)) q (Ask d c) db = Some (Ok v, db2)"
    using more_fuel(1) [OF g(1), of "max n1 n2"] more_fuel(3) [OF r(1), of "max n1 n2"] by simp
  with r(2) show ?case by blast
qed simp

lemma validation_answers:
  assumes f: "faithful q" and ans: "answers q rk m"
  shows "\<forall>(d, x) \<in> set ds. rk d < m \<Longrightarrow> above q rk m db \<Longrightarrow>
    \<exists>n r db'. dependency_validation_failure n q ds db = Some (Ok r, db') \<and> internal_failure db' = None"
proof (induction ds arbitrary: db)
  case Nil
  then show ?case by (intro exI [of _ 1]) (auto simp: above_def)
next
  case (Cons x ds)
  obtain d y where x: "x = (d, y)" by (cases x)
  show ?case
  proof (cases y)
    case None
    with x Cons.prems show ?thesis by (intro exI [of _ 1]) (auto simp: above_def)
  next
    case (Some fp)
    from Cons.prems x have d: "rk d < m" by simp
    have "above q rk (Suc (rk d)) db" using above_mono [OF Cons.prems(2)] d by simp
    with ans d obtain n1 u db1 where g: "get n1 q d db = Some (Ok u, db1)" "internal_failure db1 = None"
      unfolding answers_def by blast
    from Cons.IH [OF _ above_get [OF f Cons.prems(2) g]] Cons.prems(1) obtain n2 r db2 where
      r: "dependency_validation_failure n2 q ds db1 = Some (Ok r, db2)" "internal_failure db2 = None" by auto
    note s = more_fuel(1) [OF g(1), of "max n1 n2"] more_fuel(4) [OF r(1), of "max n1 n2"]
    show ?thesis
    proof (cases "slot_fingerprint d db1 = Some fp")
      case True
      with s x Some have "dependency_validation_failure (Suc (max n1 n2)) q (x # ds) db = Some (Ok r, db2)" by simp
      with r(2) show ?thesis by blast
    next
      case False
      with s x Some have "dependency_validation_failure (Suc (max n1 n2)) q (x # ds) db = Some (Ok (Some (d, Changed)), db1)" by simp
      with g(2) show ?thesis by blast
    qed
  qed
qed

lemma value_fingerprint_total:
  assumes "total_by rk q"
  obtains fp db' where "value_fingerprint q k v stale db = Ok (fp, db')" "internal_failure db' = internal_failure db"
proof -
  have "key_fingerprint q k v \<noteq> None \<longleftrightarrow> policy q k = StableValue" using assms by (simp add: total_by_def)
  then show thesis
    by (cases "policy q k"; cases "filter_opt (\<lambda>(old, _). values_equal q k old v) stale")
      (auto simp: value_fingerprint_def intro: that)
qed

lemma publish_value_total:
  assumes "total_by rk q" "internal_failure db = None"
  shows "\<exists>db'. publish_value q k stale v db = (Ok v, db') \<and> internal_failure db' = None"
proof -
  obtain fp db1 where "value_fingerprint q k v stale db = Ok (fp, db1)" "internal_failure db1 = internal_failure db"
    by (rule value_fingerprint_total [OF assms(1)])
  with assms(2) show ?thesis by (simp add: publish_value_def db_simps Let_def)
qed

lemma compute_answers:
  assumes f: "faithful q" and t: "total_by rk q" and ans: "answers q rk (rk k)"
    and a: "above q rk (Suc (rk k)) db" and k: "slot_state db k = Empty"
  shows "\<exists>n v db'. try_get_cached n q k stale db = Some (Ok v, db') \<and> internal_failure db' = None"
proof -
  from a obtain H where ok: "engine_ok q H db" by (auto simp: above_def)
  note C = computing_ok [OF ok k]
  have "above q rk (rk k) (computing q k db)"
    using a C(2) by (auto simp: above_def computing_fields)
  moreover have t': "settles rk (rk k) (execute_result q k)" "\<not> externally_published q k" using t by (auto simp: total_by_def)
  ultimately obtain n v db2 where r: "run_provider n q (execute_result q k) (computing q k db) = Some (Ok v, db2)"
    "internal_failure db2 = None" using run_provider_answers [OF f ans] by blast
  from publish_value_total [OF t r(2)] obtain db' where p: "publish_value q k stale v db2 = (Ok v, db')" "internal_failure db' = None"
    by blast
  have "try_get_cached (Suc n) q k stale db = Some (Ok v, db')"
    using k r(1) p(1) by (simp add: compute_slot_enters [OF C(1) t'(2)])
  with p(2) show ?thesis by blast
qed

lemma recorded_ranks:
  assumes "total_by rk q" "recorded q H db k v (Some fp) ds tr"
  shows "\<forall>(d, x) \<in> set ds. rk d < rk k"
proof -
  have "fst ` set ds = fst ` set tr" "follows (execute_result q k) tr (Return v)"
    using assms(2) by (auto simp: recorded_def fingerprints_ok_def split: if_splits)
  moreover have "settles rk (rk k) (execute_result q k)" using assms(1) by (simp add: total_by_def)
  ultimately have "rk d < rk k" if "(d, x) \<in> set ds" for d x
    using settles_follows that by (metis (no_types, lifting) fst_conv image_iff prod.collapse)
  then show ?thesis by blast
qed

lemma validate_answers:
  assumes f: "faithful q" and t: "total_by rk q" and ans: "answers q rk (rk k)"
    and a: "above q rk (Suc (rk k)) db" and k: "slot_state db k = PotentiallyOutdated v fp ds"
  shows "\<exists>n v db'. try_get_cached n q k stale db = Some (Ok v, db') \<and> internal_failure db' = None"
proof -
  from a obtain H where ok: "engine_ok q H db" by (auto simp: above_def)
  note C = validating_ok [OF ok k]
  have "above q rk (rk k) (validating k db)"
    using a C(2) by (auto simp: above_def validating_fields)
  moreover from engine_okD(2) [OF ok, of k] k obtain tr where "recorded q H db k v (Some fp) ds tr" by (auto simp: slot_ok_def)
  from recorded_ranks [OF t this] have "\<forall>(d, x) \<in> set (in_node_order db ds). rk d < rk k" by simp
  ultimately obtain n1 r db2 where r: "dependency_validation_failure n1 q (in_node_order db ds) (validating k db) = Some (Ok r, db2)"
    "internal_failure db2 = None" using validation_answers [OF f ans] by blast
  have val: "validation_sound q n1" using engine_sound [OF f] by blast
  obtain H2 where H2: "engine_ok q H2 db2" "stack_nodes db2 = k # stack_nodes db" "slot_state db2 k = Validating False"
    by (rule validated_ok [OF val ok k r(1)]) blast
  show ?thesis
  proof (cases r)
    case None
    let ?db = "record_dependency_fingerprint k (Some fp) (record_cache_hit k (record_green_validation k
      (set_slot k (Ready v (Some fp) ds) (discard db2))))"
    have "try_get_cached (Suc n1) q k stale db = Some (Ok v, ?db)"
      using k r(1) None H2(3) by (simp add: validate_slot_enters [OF C(1)] was_invalidated_def note_failure_def db_simps)
    moreover have "internal_failure ?db = None" using r(2) by (simp add: db_simps)
    ultimately show ?thesis by blast
  next
    case (Some y)
    let ?db = "set_slot k Empty (discard (note_failure k r db2))"
    have E: "engine_ok q H2 ?db" by (rule revalidation_failed(1) [OF H2(1,2)])
    have st: "stack_nodes ?db = stack_nodes db" using H2(2) by (simp add: stack_nodes_def db_simps map_tl)
    have fl: "internal_failure ?db = None" using r(2) by (simp add: db_simps)
    have "above q rk (Suc (rk k)) ?db" unfolding above_def st fl using E a by (auto simp: above_def)
    from compute_answers [OF f t ans this, of "Some (v, fp)"] obtain n2 w db' where
      w: "try_get_cached n2 q k (Some (v, fp)) ?db = Some (Ok w, db')" "internal_failure db' = None"
      by (auto simp: db_simps)
    have "try_get_cached (Suc (max n1 n2)) q k stale db = Some (Ok w, db')"
      using k more_fuel(4) [OF r(1), of "max n1 n2"] more_fuel(2) [OF w(1), of "max n1 n2"] Some
      by (simp add: validate_slot_enters [OF C(1)])
    with w(2) show ?thesis by blast
  qed
qed

lemma get_answers:
  assumes f: "faithful q" and t: "total_by rk q" and ans: "answers q rk (rk k)" and a: "above q rk (Suc (rk k)) db"
  shows "\<exists>n v db'. get n q k db = Some (Ok v, db') \<and> internal_failure db' = None"
proof -
  let ?db = "record_dependency k (slot_for k db)"
  have c: "same_core db ?db" by (rule same_core_trans [of _ "slot_for k db"]) simp_all
  from a obtain H where ok: "engine_ok q H ?db" using same_core_engine_ok [OF c] by (auto simp: above_def)
  have a': "above q rk (Suc (rk k)) ?db"
    using a ok c by (auto simp: above_def same_core_def db_simps)
  then have nk: "k \<notin> set (stack_nodes ?db)" by (auto simp: above_def)
  have "\<exists>n v db'. try_get_cached n q k None ?db = Some (Ok v, db') \<and> internal_failure db' = None"
  proof (cases "slot_state ?db k")
    case (Ready v fp ds)
    with a' show ?thesis by (intro exI [of _ 1]) (auto simp: above_def db_simps)
  qed (use compute_answers [OF f t ans a'] validate_answers [OF f t ans a'] engine_okD(2) [OF ok, of k] nk
        in \<open>auto simp: slot_ok_def\<close>)
  then obtain n v db' where n: "try_get_cached n q k None ?db = Some (Ok v, db')" "internal_failure db' = None" by blast
  have "ensure_healthy db = Ok ()" "\<not> single_consumer q k"
    using a t by (auto simp: above_def ensure_healthy_def total_by_def)
  with n(1) have "get (Suc n) q k db = Some (Ok v, db')" by simp
  with n(2) show ?thesis by blast
qed

theorem engine_answers: "faithful q \<Longrightarrow> total_by rk q \<Longrightarrow> answers q rk m"
proof (induction m)
  case 0
  then show ?case by (simp add: answers_def)
next
  case (Suc m)
  then have IH: "answers q rk m" by blast
  show ?case
    unfolding answers_def
  proof (intro allI impI)
    fix k db assume k: "rk k < Suc m" and a: "above q rk (Suc (rk k)) db"
    have "answers q rk (rk k)" using IH k unfolding answers_def by (metis less_Suc_eq less_trans)
    with get_answers [OF Suc.prems] a show "\<exists>n v db'. get n q k db = Some (Ok v, db') \<and> internal_failure db' = None" by blast
  qed
qed

section \<open>Validation without execution\<close>

text \<open>Fields a validation that finds every fingerprint again leaves alone.\<close>

definition same_work :: "('k, 'v, 'fp) query_db \<Rightarrow> ('k, 'v, 'fp) query_db \<Rightarrow> bool" where
  "same_work db db' \<longleftrightarrow> slot_state db' = slot_state db \<and> internal_failure db' = internal_failure db \<and>
     (\<forall>j. executions (slot_stats db' j) = executions (slot_stats db j) \<and>
       green_validations (slot_stats db' j) = green_validations (slot_stats db j))"

lemma executions_fields:
  "slot_stats (set_slot k s db) = slot_stats db" "slot_stats (discard db) = slot_stats db"
  "slot_stats (record_dependency k db) = slot_stats db" "slot_stats (record_dependency_fingerprint k fp db) = slot_stats db"
  "slot_stats (slot_for k db) = slot_stats db"
  "slot_stats (record_stat f k db) j = (if j = k then f (slot_stats db k) else slot_stats db j)"
  by (simp_all add: set_slot_def discard_def record_dependency_def record_dependency_fingerprint_def slot_for_def
      record_stat_def split: list.split)

lemma get_ready:
  assumes "slot_state db k = Ready v fp ds" "\<not> single_consumer q k" "internal_failure db = None"
  shows "\<exists>db'. get (Suc (Suc n)) q k db = Some (Ok v, db') \<and> same_work db db'"
  using assms by (auto simp: ensure_healthy_def db_simps same_work_def executions_fields)

lemma validation_all_ready:
  assumes "\<forall>(d, x) \<in> set ds. \<not> single_consumer q d \<and> (\<exists>f u ds'. x = Some f \<and> slot_state db d = Ready u (Some f) ds')"
    "internal_failure db = None"
  shows "\<exists>db'. dependency_validation_failure (length ds + n + 3) q ds db = Some (Ok None, db') \<and> same_work db db'"
  using assms
proof (induction ds arbitrary: db)
  case Nil
  then show ?case by (auto simp: same_work_def eval_nat_numeral)
next
  case (Cons x ds)
  from Cons.prems obtain d f u ds' where x: "x = (d, Some f)" "slot_state db d = Ready u (Some f) ds'" "\<not> single_consumer q d"
    by (cases x) auto
  from get_ready [OF x(2,3) Cons.prems(2), of "length ds + n + 1"] obtain db1 where
    g: "get (length ds + n + 3) q d db = Some (Ok u, db1)" "same_work db db1" by (auto simp: eval_nat_numeral)
  have "\<exists>db'. dependency_validation_failure (length ds + n + 3) q ds db1 = Some (Ok None, db') \<and> same_work db1 db'"
    using Cons.prems g(2) by (intro Cons.IH) (auto simp: same_work_def)
  then obtain db' where v: "dependency_validation_failure (length ds + n + 3) q ds db1 = Some (Ok None, db')" "same_work db1 db'"
    by blast
  have "slot_fingerprint d db1 = Some f" using x(2) g(2) by (simp add: slot_fingerprint_def same_work_def)
  with g(1) v(1) x(1) have "dependency_validation_failure (length (x # ds) + n + 3) q (x # ds) db = Some (Ok None, db')"
    by (simp only: list.size add_Suc add_Suc_right add_0_right dependency_validation_failure.simps(2)) simp
  with g(2) v(2) show ?case by (auto simp: same_work_def)
qed

section \<open>Properties\<close>

text \<open>
  C2. Incremental evaluation answers. When every provider asks only keys of a smaller rank and never fails,
  then in any session that recorded no internal failure, from some depth on every \<^verbatim>\<open>get\<close> returns the
  same value, the one of a from-scratch evaluation, and leaves the session without failure. No state of the
  cache makes it fail, report a cycle or run for ever.
\<close>

theorem sessions_always_answer:
  assumes s: "session q db" and t: "total_by rk q" and h: "internal_failure db = None"
  shows "\<exists>n v db'. (\<forall>m. get (n + m) q k db = Some (Ok v, db')) \<and> evaluates q k v \<and> session q db' \<and>
    internal_failure db' = None"
proof -
  from session_idle [OF s] obtain H where H: "faithful q" "idle q H db" by blast
  then have "above q rk (Suc (rk k)) db" using h by (auto simp: above_def idle_def stack_nodes_def)
  with engine_answers [OF H(1) t, of "Suc (rk k)"] obtain n v db' where
    g: "get n q k db = Some (Ok v, db')" "internal_failure db' = None" unfolding answers_def by blast
  have "get (n + m) q k db = Some (Ok v, db')" for m by (rule more_fuel(1) [OF g(1)]) simp
  moreover have "evaluates q k v" by (rule get_idle(2) [OF H g(1) refl])
  moreover have "session q db'" by (rule session.get [OF s g(1)])
  ultimately show ?thesis using g(2) by blast
qed

lemma demo_total: "total_by id (demo x)"
proof -
  have "settles id k (demo_providers x k)" for k by (simp add: demo_providers_def try_ask_def)
  then show ?thesis by (simp add: total_by_def demo_def demo_queries_def)
qed

lemma demo_db_healthy: "internal_failure demo_db = None"
  by code_simp

theorem sessions_always_answer_witness:
  "internal_failure demo_db = None \<and>
   (\<exists>n v db'. (\<forall>m. get (n + m) (demo 2) 5 demo_db = Some (Ok v, db')) \<and> evaluates (demo 2) 5 v)"
  using sessions_always_answer [OF demo_session demo_total demo_db_healthy, of 5] demo_db_healthy by blast

text \<open>
  C30. Early cutoff. An outdated slot whose dependencies are all ready again with the fingerprints recorded
  for them is served without executing any provider: \<^verbatim>\<open>get\<close> returns its old value, only its own slot
  changes, back to ready, and it counts one green validation.
\<close>

theorem green_validation_executes_nothing:
  assumes s: "session q db" and h: "internal_failure db = None" and k: "slot_state db k = PotentiallyOutdated v fp ds"
    and ds: "\<forall>(d, x) \<in> set ds. \<exists>f u ds'. x = Some f \<and> slot_state db d = Ready u (Some f) ds'"
  shows "\<exists>db'. get (length ds + 5) q k db = Some (Ok v, db') \<and> slot_state db' = (slot_state db)(k := Ready v (Some fp) ds) \<and>
    (\<forall>j. executions (slot_stats db' j) = executions (slot_stats db j)) \<and>
    green_validations (slot_stats db' k) = green_validations (slot_stats db k) + 1"
proof -
  from session_idle [OF s] obtain H where ok: "engine_ok q H db" and st: "query_stack db = []" by (auto simp: idle_def)
  let ?db = "record_dependency k (slot_for k db)"
  have fields: "slot_state ?db = slot_state db" "stack_nodes ?db = []" "internal_failure ?db = None" "slot_stats ?db = slot_stats db"
    using st h by (simp_all add: db_simps stack_nodes_def executions_fields)
  have no: "\<not> single_consumer q k" using engine_okD(2) [OF ok, of k] k by (auto simp: slot_ok_def recorded_def)
  have ne: "\<not> single_consumer q d \<and> (\<exists>f u ds'. x = Some f \<and> slot_state (validating k ?db) d = Ready u (Some f) ds')"
    if "(d, x) \<in> set (in_node_order ?db ds)" for d x
  proof -
    from that ds obtain f u ds' where d: "x = Some f" "slot_state db d = Ready u (Some f) ds'" by fastforce
    then have "d \<noteq> k" "\<not> single_consumer q d"
      using k engine_okD(2) [OF ok, of d] by (auto simp: slot_ok_def recorded_def)
    with d show ?thesis by (auto simp: validating_fields fields)
  qed
  have "\<exists>db'. dependency_validation_failure (length (in_node_order ?db ds) + 0 + 3) q (in_node_order ?db ds) (validating k ?db)
      = Some (Ok None, db') \<and> same_work (validating k ?db) db'"
    using ne by (intro validation_all_ready) (auto simp: validating_fields fields)
  then obtain db1 where v: "dependency_validation_failure (length ds + 3) q (in_node_order ?db ds) (validating k ?db) = Some (Ok None, db1)"
    "same_work (validating k ?db) db1" by auto
  let ?db' = "record_dependency_fingerprint k (Some fp) (record_cache_hit k (record_green_validation k
      (set_slot k (Ready v (Some fp) ds) (discard db1))))"
  have k1: "slot_state db1 k = Validating False" using v(2) by (simp add: same_work_def validating_fields)
  have "validate_slot (dependency_validation_failure (length ds + 3) q) (try_get_cached (length ds + 3) q k) k v fp ds ?db
      = Some (Ok v, ?db')"
    using v(1) k1 by (subst validate_slot_enters) (simp_all add: fields was_invalidated_def note_failure_def db_simps)
  then have "try_get_cached (Suc (length ds + 3)) q k None ?db = Some (Ok v, ?db')"
    using k by (simp only: try_get_cached.simps fields query_state.case)
  moreover have "get (length ds + 5) q k db = try_get_cached (Suc (length ds + 3)) q k None ?db"
  proof -
    have "length ds + 5 = Suc (Suc (length ds + 3))" by simp
    with h no show ?thesis by (simp only: get.simps ensure_healthy_def) simp
  qed
  moreover have "slot_stats (validating k ?db) j = (if j = k then (slot_stats db k)\<lparr>validations := validations (slot_stats db k) + 1\<rparr> else slot_stats db j)" for j
    by (simp add: validating_def executions_fields)
  then have "\<forall>j. executions (slot_stats db1 j) = executions (slot_stats db j) \<and> green_validations (slot_stats db1 j) = green_validations (slot_stats db j)"
    using v(2) by (simp add: same_work_def)
  moreover have "slot_state ?db' = (slot_state db)(k := Ready v (Some fp) ds)"
    using v(2) by (simp add: same_work_def validating_fields fields db_simps)
  ultimately show ?thesis by (intro exI [of _ ?db']) (simp add: executions_fields)
qed

text \<open>The input of the demo changed from 3 to 2; key 1 was asked again and is still 1.\<close>

definition cutoff_db :: "(nat, nat, nat) query_db" where
  "cutoff_db = after_get 20 (demo 2) 1 demo_db"

theorem green_validation_executes_nothing_witness:
  "slot_state cutoff_db 2 = PotentiallyOutdated 11 11 [(1, Some 1)] \<and> executions (slot_stats cutoff_db 2) = 1 \<and>
   (\<exists>db'. get 6 (demo 2) 2 cutoff_db = Some (Ok 11, db') \<and> executions (slot_stats db' 2) = 1)"
proof -
  have s: "session (demo 2) cutoff_db" unfolding cutoff_db_def by (rule session_after_get [OF demo_session]) code_simp
  have h: "internal_failure cutoff_db = None" by code_simp
  have k: "slot_state cutoff_db 2 = PotentiallyOutdated 11 11 [(1, Some 1)]" by code_simp
  have "slot_state cutoff_db 1 = Ready 1 (Some 1) [(0, Some 2)]" by code_simp
  then have ds: "\<forall>(d, x) \<in> set [(1, Some 1)]. \<exists>f u ds'. x = Some f \<and> slot_state cutoff_db d = Ready u (Some f) ds'" by simp
  have e: "executions (slot_stats cutoff_db 2) = 1" by code_simp
  have n: "length [(1 :: nat, Some (1 :: nat))] + 5 = 6" by simp
  from green_validation_executes_nothing [OF s h k ds, unfolded n] obtain db' where
    "get 6 (demo 2) 2 cutoff_db = Some (Ok 11, db')" "executions (slot_stats db' 2) = executions (slot_stats cutoff_db 2)" by blast
  with k e show ?thesis by metis
qed


section \<open>Where the engine departs from a from-scratch evaluation\<close>

text \<open>
  The rank of \<^const>\<open>total_by\<close> is needed. Key 2 asks key 1 only when key 0 is 0; the edit makes key 0
  nonzero and lets key 1 ask key 2.
\<close>

definition cycle_providers :: "bool \<Rightarrow> nat \<Rightarrow> (nat, nat) provider" where
  "cycle_providers edited k =
     (if k = 0 then Return (if edited then 1 else 0)
      else if k = 1 then (if edited then try_ask 2 Return else Return 5)
      else try_ask 0 (\<lambda>u. if u = 0 then try_ask 1 Return else Return 7))"

definition cycle_db :: "(nat, nat, nat) query_db" where
  "cycle_db = invalidate_all [0, 1] (let q = demo_queries (cycle_providers False)
     in after_get 20 q 2 (after_get 20 q 1 query_db_new))"

lemma cycle_session: "session (demo_queries (cycle_providers True)) cycle_db"
proof -
  let ?q = "demo_queries (cycle_providers False)"
  have f: "faithful (demo_queries (cycle_providers b))" for b by (simp add: faithful_demo cycle_providers_def)
  have "session ?q (after_get 20 ?q 1 query_db_new)" by (rule session_after_get [OF session.start [OF f]]) code_simp
  then have "session ?q (after_get 20 ?q 2 (after_get 20 ?q 1 query_db_new))" by (rule session_after_get) code_simp
  then have "session (with_providers (cycle_providers True) ?q) cycle_db"
    unfolding cycle_db_def Let_def
    by (rule session.edit) (use f [of True] in \<open>simp_all add: demo_queries_def cycle_providers_def\<close>)
  then show ?thesis by (simp add: demo_queries_def)
qed

text \<open>
  Validation visits the old dependencies of a slot in the order of their nodes, here key 1 before key 0, and
  so executes key 1, which asks key 2. The session reports a cycle where the same queries in a new database
  return a value.
\<close>

lemma validation_reports_spurious_cycle:
  "session (demo_queries (cycle_providers True)) cycle_db \<and>
   result_of (get 20 (demo_queries (cycle_providers True)) 2 query_db_new) = Some (Ok 7) \<and>
   result_of (get 20 (demo_queries (cycle_providers True)) 2 cycle_db) = Some (Err (Cycle [2, 1, 2]))"
  by (intro conjI cycle_session) code_simp+

text \<open>
  That providers pass on the failure of a question is needed. Key 2 catches the failure of key 1. A failed
  slot keeps no edges, so the invalidation of key 0, the cause of the failure, does not reach key 2.
\<close>

definition catch_providers :: "nat \<Rightarrow> nat \<Rightarrow> (nat, nat) provider" where
  "catch_providers x k =
     (if k = 0 then Return x
      else if k = 1 then try_ask 0 (\<lambda>u. if u = 0 then Throw (InvalidInput 1 ''zero'') else Return 9)
      else Ask 1 (\<lambda>r. case r of Inl _ \<Rightarrow> Return 100 | Inr u \<Rightarrow> Return u))"

lemma caught_failure_is_served_stale:
  "let before = demo_queries (catch_providers 0); current = demo_queries (catch_providers 1);
       db = snd (invalidate 0 (after_get 20 before 2 query_db_new))
   in result_of (get 20 current 2 query_db_new) = Some (Ok 9) \<and> result_of (get 20 current 2 db) = Some (Ok 100)"
  by code_simp


section \<open>Failed gets\<close>

text \<open>
  C31. No \<^verbatim>\<open>get\<close> damages its session, whether it returns a value, an error of a provider, a cycle or a failed
  validation: the stack is empty again, no slot is left computing or validating, every value that was ready
  still is, and the database is again one of a session. An error is never cached: after a failed \<^verbatim>\<open>get\<close> of a
  shared key in a session without internal failure the key has no ready value, so the next \<^verbatim>\<open>get\<close> asks again.
\<close>

theorem get_leaves_session_intact:
  assumes s: "session q db" and g: "get n q k db = Some (r, db')"
  shows "session q db' \<and> query_stack db' = []
    \<and> (\<forall>j i. slot_state db' j \<noteq> Computing i \<and> slot_state db' j \<noteq> Validating i)
    \<and> (\<forall>j v fp ds. slot_state db j = Ready v fp ds \<longrightarrow> slot_state db' j = Ready v fp ds)
    \<and> (\<forall>e. r = Err e \<and> internal_failure db = None \<and> \<not> single_consumer q k \<longrightarrow> \<not> (\<exists>v. ready db' k v))"
proof -
  from session_idle [OF s] obtain H where H: "faithful q" "engine_ok q H db" by (auto simp: idle_def)
  have s': "session q db'" by (rule session.get [OF s g])
  from session_idle [OF s'] obtain H' where I: "idle q H' db'" by blast
  have "get_sound q n" using engine_sound [OF H(1)] by blast
  note G = this [unfolded get_sound_def, rule_format, OF g H(2)]
  from G obtain H1 where keep: "keeps (set (stack_nodes db)) H db H1 db'" by blast
  have "slot_state db' j \<noteq> Computing i \<and> slot_state db' j \<noteq> Validating i" for j i
    by (rule idle_cases [OF I, of j]) simp_all
  moreover have "slot_state db' j = Ready v fp ds" if "slot_state db j = Ready v fp ds" for j v fp ds
    using keepsD(2) [OF keep that] .
  moreover have "\<not> (\<exists>v. ready db' k v)" if "r = Err e" "internal_failure db = None" "\<not> single_consumer q k" for e
    using G that by simp
  ultimately show ?thesis using s' I by (simp add: idle_def)
qed

theorem get_leaves_session_intact_witness:
  "result_of (get 20 (demo_queries (cycle_providers True)) 2 cycle_db) = Some (Err (Cycle [2, 1, 2])) \<and>
   session (demo_queries (cycle_providers True)) (after_get 20 (demo_queries (cycle_providers True)) 2 cycle_db) \<and>
   \<not> (\<exists>v. ready (after_get 20 (demo_queries (cycle_providers True)) 2 cycle_db) 2 v)"
proof -
  let ?q = "demo_queries (cycle_providers True)"
  have r: "result_of (get 20 ?q 2 cycle_db) = Some (Err (Cycle [2, 1, 2]))" by code_simp
  have "internal_failure cycle_db = None" by code_simp
  moreover have "\<not> single_consumer ?q 2" by (simp add: demo_queries_def)
  ultimately show ?thesis
    using get_leaves_session_intact [OF cycle_session result_of_Some [OF r]] r unfolding after_get_def by blast
qed

end
