(* ===== verification/Spec2Isabelle.thy ===== *)
theory Spec2Isabelle
  imports Nia_Lexer_Literals Nia_Pattern_Termination Nia_Const_Numeric Nia_Layout Nia_Query_Graph Nia_Query_Leases Nia_Query_Wait Nia_Query_Liveness
begin

text \<open>
  Verification of parts of the Nia compiler (\<^verbatim>\<open>src/crates\<close>, Rust).

  The compiler turns source text into tokens (\<^verbatim>\<open>nia-lexer\<close>), a syntax tree and typed bodies; it decodes
  literals (\<^verbatim>\<open>nia-literals\<close>), evaluates constants (\<^verbatim>\<open>nia-const-eval\<close>), checks matches for exhaustiveness
  (\<^verbatim>\<open>nia-pattern-analysis\<close>), lays out types (\<^verbatim>\<open>nia-layout\<close>) and emits code through LLVM. All of this runs as
  memoised computations of a query engine (\<^verbatim>\<open>nia-query\<close>). The development models the parts whose result is
  decided by an algorithm of their own.

  \<^bold>\<open>Conventions.\<close> A Rust \<^verbatim>\<open>Result\<close> is a sum type (\<open>Inl\<close> the error), an \<^verbatim>\<open>Option\<close> an option, a \<^verbatim>\<open>&str\<close> or byte
  slice a \<open>string\<close> of bytes, a decoded text a list of scalar values. \<open>Nia_Prelude\<close> has the result type and
  the shared list lemmas; \<open>Rust_Str\<close> the part of \<^verbatim>\<open>str\<close>, \<^verbatim>\<open>char\<close> and \<^verbatim>\<open>u8\<close> the sources use, with UTF-8
  encoding and decoding; \<open>Rust_Num\<close> checked 64-bit arithmetic and \<^verbatim>\<open>next_power_of_two\<close>. Where overflow
  matters it is modelled: integer constants are 128-bit words, sizes are checked against 64 bits, literal
  lengths against \<^verbatim>\<open>usize\<close>. Reference counts and depths of the query engine are natural numbers.

  \<^bold>\<open>Lexer\<close> (\<open>Nia_Lexer\<close>; \<^verbatim>\<open>nia-lexer/src/tokenizer.rs\<close>, \<^verbatim>\<open>token.rs\<close>, \<^verbatim>\<open>nia-span\<close>). The record \<open>tokenizer\<close> is the
  struct of that name, one definition per method; the two drivers are partial functions, and that they
  return on every valid input is a theorem. The lossless token stream concatenates to the source, every
  span ends at character boundaries, and the significant stream is the lossless one without trivia.

  \<^bold>\<open>Literals\<close> (\<open>Nia_Literals\<close>; \<^verbatim>\<open>nia-literals/src/lib.rs\<close>). Decoding of integer, character, string and byte
  string literals; the value of an integer literal is the value of its digit run, and the two length
  functions agree with the decoders. \<open>Nia_Lexer_Literals\<close> shows that every literal token the lexer accepts
  is decoded. Parsing a decimal string to a float is a parameter.

  \<^bold>\<open>Pattern analysis\<close> (\<open>Nia_Pattern_Analysis\<close>, \<open>Nia_Pattern_Soundness\<close>, \<open>Nia_Pattern_Termination\<close>;
  \<^verbatim>\<open>nia-pattern-analysis/src/lib.rs\<close>). The usefulness algorithm with its errors, index panics and recursion as
  values of \<open>outcome\<close>. Its fuel is the recursion depth; when no type contains itself a depth computed from
  the column types suffices, and for a recursive type the recursion of the source need not end. Against a
  semantics of values: no witness means every value is covered, a witness is a value no row covers.

  \<^bold>\<open>Types and constants\<close> (\<open>Nia_Types\<close>, \<open>Nia_Const_Numeric\<close>; \<^verbatim>\<open>nia-ty/src/lib.rs\<close>,
  \<^verbatim>\<open>nia-const-eval/src/numeric.rs\<close>, \<^verbatim>\<open>literals.rs\<close>). Primitive types, representability and casts of 128-bit
  integer constants, and the integer operators of constant evaluation, compared with a specification of
  when an operation traps at run time. Two of the theorems record where the code departs from it.

  \<^bold>\<open>Layout\<close> (\<open>Nia_Layout\<close>; \<^verbatim>\<open>nia-layout/src/abi.rs\<close>, \<^verbatim>\<open>aggregate.rs\<close>, \<^verbatim>\<open>lib.rs\<close>). Offsets are aligned, disjoint and
  inside the type; the field order of a struct is optimal; all results are well-formed layouts. The locale
  \<open>field_placement\<close> is the contract of the placement loops and is interpreted for structs and enums.

  \<^bold>\<open>Query engine\<close>. \<open>Nia_Query_Graph\<close> (\<^verbatim>\<open>nia-query/src/dependency.rs\<close>): the forward and reverse dependency
  tables, refined to a relation; the locale \<open>dependency_store\<close> is the contract. \<open>Nia_Query_Leases\<close>
  (\<^verbatim>\<open>session.rs\<close>, \<^verbatim>\<open>resources.rs\<close>): activity guards, the retirement barrier and the memory budget as step
  relations over interleaved threads. Their invariants hold in every reachable state, a waiting permit can be
  acquired, and a retirement can be granted unless a thread it waits for is itself draining; the locale
  \<open>reentrant_depths\<close> is the contract of the thread-local depth tables. \<open>Nia_Query_Wait\<close> (\<^verbatim>\<open>QueryWaitGraph\<close> in
  \<^verbatim>\<open>lib.rs\<close>): the reference-counted edges between blocked queries; they stay acyclic, and the search decides
  reachability.

  \<open>Nia_Query_Engine\<close> (\<^verbatim>\<open>database.rs\<close>, the slot states of \<^verbatim>\<open>lib.rs\<close>, the stack of \<^verbatim>\<open>dependency.rs\<close>): \<^verbatim>\<open>get\<close> with cache
  hits, validation by fingerprints, execution and the recording of dependencies, \<^verbatim>\<open>invalidate\<close> and
  \<^verbatim>\<open>validate_input\<close>, over the state \<open>query_db\<close>. A provider is a program that asks for keys; providers,
  fingerprints and equality of values are parameters in the record \<open>queries\<close>. The first argument of \<open>get\<close> bounds
  the depth of a computation, and \<open>None\<close> means that the bound was reached or that another thread would have to
  be waited for, which a session of one thread never does; more depth never changes an answer.
  \<open>Nia_Query_Soundness\<close> has the reference evaluation \<open>evaluates\<close> and the invariant that every call keeps,
  \<open>Nia_Query_Sessions\<close> sessions of gets, edits and inputs, and \<open>Nia_Query_Liveness\<close> the depth that suffices. When
  providers pass on failures and fingerprints identify values, a value returned is the one of a from-scratch
  evaluation; when they also ask only keys of a smaller rank and never fail, a value is returned. An
  invalidation outdates exactly the dependents, a validation that finds every fingerprint again executes
  nothing, and no \<^verbatim>\<open>get\<close> leaves a slot unfinished or caches an error. Two lemmas show by example that both
  hypotheses on providers are needed.

  \<^bold>\<open>Not modelled.\<close> The parser and the syntax tree, name resolution, type checking and trait selection,
  lowering, optimisation and code generation: each works on data structures that span several crates and
  whose invariants are established elsewhere. The drivers, the build tool, package metadata, Git transport
  and the linker interface are file, process and network access. Diagnostics, timing and identifier tables
  only carry data. Of the modelled crates, floating-point constants, the type graph traversal of the layout
  crate, the task executor, the retirement of query slots, published and owned query values, a query engine
  run by several threads, and the text of error messages are left out.
\<close>
end
